(* ===== verification/Prelude.thy ===== *)
theory Prelude
  imports Main "HOL-Library.Word" "HOL-Library.Monad_Syntax"
begin

text \<open>
  Shared vocabulary of the development: the machine integer types of \<open>types.h\<close>, the
  reading of bounded C search loops over arrays, and the generic facts on lists, options and
  words that the component theories use.

  Conventions used throughout.
  \<^item> A C function that may call \<open>panic\<close> returns an \<open>option\<close>: \<open>None\<close> is the panic
    (the kernel stops), \<open>Some\<close> carries the value the function returns and the state it
    leaves. The \<open>do\<close> notation of the option monad sequences such calls.
  \<^item> A C pointer to a physical page, and a \<open>pagetable_t\<close>, is its 64-bit address; the null
    pointer is 0.
  \<^item> A C \<open>int\<close> that only counts or indexes is an \<open>int\<close> or \<open>nat\<close>; addresses, sizes and
    page-table entries are words of the width the C type has.
\<close>

unbundle bit_operations_syntax

type_synonym u8 = "8 word"
type_synonym u16 = "16 word"
type_synonym u32 = "32 word"
type_synonym u64 = "64 word"

named_theorems page_simps "address arithmetic of pages"
named_theorems mem_simps "reads after writes in physical memory"

section \<open>Search loops over arrays\<close>

text \<open>
  \<open>first_idx P xs\<close> is the index at which the loop
  \<^verbatim>\<open>for(i = 0; i < n; i++) if(P(a[i])) ...; break;\<close> stops, \<open>None\<close> when it runs to the end.
\<close>

primrec first_idx :: "('a \<Rightarrow> bool) \<Rightarrow> 'a list \<Rightarrow> nat option" where
  "first_idx P [] = None"
| "first_idx P (x # xs) = (if P x then Some 0 else map_option Suc (first_idx P xs))"

lemma first_idx_None_iff [simp]: "first_idx P xs = None \<longleftrightarrow> (\<forall>x \<in> set xs. \<not> P x)"
  by (induction xs) auto

lemma first_idx_Some_iff:
  "first_idx P xs = Some i \<longleftrightarrow> i < length xs \<and> P (xs ! i) \<and> (\<forall>j < i. \<not> P (xs ! j))"
proof (induction xs arbitrary: i)
  case Nil
  then show ?case by simp
next
  case (Cons x xs)
  show ?case
  proof (cases i)
    case 0
    then show ?thesis by auto
  next
    case (Suc k)
    then show ?thesis using Cons.IH [of k] by (auto simp: less_Suc_eq_0_disj)
  qed
qed

lemma first_idx_SomeD:
  assumes "first_idx P xs = Some i"
  shows "i < length xs" and "P (xs ! i)" and "\<And>j. j < i \<Longrightarrow> \<not> P (xs ! j)"
  using assms by (auto simp: first_idx_Some_iff)

lemma first_idx_ex: "x \<in> set xs \<Longrightarrow> P x \<Longrightarrow> \<exists>i. first_idx P xs = Some i"
  by (metis first_idx_None_iff option.exhaust)

lemma first_idx_replicate: "P x \<Longrightarrow> 0 < n \<Longrightarrow> first_idx P (replicate n x) = Some 0"
  by (cases n) auto

section \<open>Loops that may stop the kernel\<close>

text \<open>\<open>fold_opt f xs s\<close> runs the body \<open>f\<close> over \<open>xs\<close>, stopping at the first panic.\<close>

primrec fold_opt :: "('a \<Rightarrow> 's \<Rightarrow> 's option) \<Rightarrow> 'a list \<Rightarrow> 's \<Rightarrow> 's option" where
  "fold_opt f [] s = Some s"
| "fold_opt f (x # xs) s = Option.bind (f x s) (fold_opt f xs)"

lemma fold_opt_append: "fold_opt f (xs @ ys) s = Option.bind (fold_opt f xs s) (fold_opt f ys)"
  by (induction xs arbitrary: s) (auto simp: bind_eq_Some_conv split: bind_split)

lemma fold_opt_cong [fundef_cong]:
  assumes "xs = ys" "s = t" "\<And>x s. x \<in> set ys \<Longrightarrow> f x s = g x s"
  shows "fold_opt f xs s = fold_opt g ys t"
proof -
  have "fold_opt f ys s = fold_opt g ys s"
    using assms(3) by (induction ys arbitrary: s) (auto split: bind_split)
  with assms show ?thesis by simp
qed

section \<open>Counting in arrays\<close>

abbreviation count_if :: "('a \<Rightarrow> bool) \<Rightarrow> 'a list \<Rightarrow> nat" where
  "count_if P xs \<equiv> length (filter P xs)"

lemma count_if_update:
  assumes "i < length xs"
  shows "count_if P (xs[i := y]) + (if P (xs ! i) then 1 else 0)
       = count_if P xs + (if P y then 1 else 0)"
  using assms
proof (induction xs arbitrary: i)
  case Nil
  then show ?case by simp
next
  case (Cons x xs)
  then show ?case by (cases i) auto
qed

lemma count_if_update_same:
  "i < length xs \<Longrightarrow> P (xs ! i) = P y \<Longrightarrow> count_if P (xs[i := y]) = count_if P xs"
  using count_if_update [of i xs P y] by (simp split: if_splits)

lemma count_if_pos: "i < length xs \<Longrightarrow> P (xs ! i) \<Longrightarrow> 0 < count_if P xs"
  by (metis filter_empty_conv length_greater_0_conv nth_mem)

section \<open>Words\<close>

lemma unat_less_numeral:
  "x < (numeral n :: 'a::len word) \<Longrightarrow> unat x < unat (numeral n :: 'a word)"
  by (simp add: word_less_nat_alt)

lemma word_eq_iff_unat: "(a :: 'a::len word) = b \<longleftrightarrow> unat a = unat b"
  by (simp add: word_unat_eq_iff)

lemma sint_small:
  assumes "unat x < 2 ^ 31"
  shows "sint (x :: u32) = int (unat x)"
proof -
  have "int (unat x) < int (2 ^ 31)" using assms by (simp only: of_nat_less_iff)
  then have u: "uint x < 2 ^ 31" by simp
  have ge: "- (2 ^ 31) \<le> uint x" using order_trans [of "- (2 ^ 31)" 0 "uint x"] by simp
  have "sint x = signed_take_bit 31 (uint x)" by (simp add: sint_uint)
  also have "\<dots> = uint x" by (rule signed_take_bit_int_eq_self [OF ge u])
  finally show ?thesis by simp
qed

end
