(* ===== verification/Riscv.thy ===== *)
theory Riscv
  imports Prelude
begin

text \<open>
  The page and page-table-entry macros of \<open>riscv.h\<close>, the address-space constants of
  \<open>memlayout.h\<close> and \<open>param.h\<close>, and physical memory as a byte-addressed store with
  64-bit little-endian loads and stores (the machine the C code runs on).
\<close>

section \<open>Constants and macros\<close>

abbreviation PGSIZE :: u64 where "PGSIZE \<equiv> 4096"
abbreviation PGSHIFT :: nat where "PGSHIFT \<equiv> 12"

definition PGROUNDUP :: "u64 \<Rightarrow> u64" where
  "PGROUNDUP sz = (sz + PGSIZE - 1) AND NOT (PGSIZE - 1)"

definition PGROUNDDOWN :: "u64 \<Rightarrow> u64" where
  "PGROUNDDOWN a = a AND NOT (PGSIZE - 1)"

abbreviation PTE_V :: u64 where "PTE_V \<equiv> 1"
abbreviation PTE_R :: u64 where "PTE_R \<equiv> 2"
abbreviation PTE_W :: u64 where "PTE_W \<equiv> 4"
abbreviation PTE_X :: u64 where "PTE_X \<equiv> 8"
abbreviation PTE_U :: u64 where "PTE_U \<equiv> 16"

definition PA2PTE :: "u64 \<Rightarrow> u64" where
  "PA2PTE pa = push_bit 10 (drop_bit 12 pa)"

definition PTE2PA :: "u64 \<Rightarrow> u64" where
  "PTE2PA pte = push_bit 12 (drop_bit 10 pte)"

definition PTE_FLAGS :: "u64 \<Rightarrow> u64" where
  "PTE_FLAGS pte = pte AND 0x3FF"

abbreviation PXMASK :: u64 where "PXMASK \<equiv> 0x1FF"

definition PXSHIFT :: "nat \<Rightarrow> nat" where
  "PXSHIFT level = PGSHIFT + 9 * level"

definition PX :: "nat \<Rightarrow> u64 \<Rightarrow> u64" where
  "PX level va = drop_bit (PXSHIFT level) va AND PXMASK"

abbreviation MAXVA :: u64 where "MAXVA \<equiv> 0x4000000000"

abbreviation KERNBASE :: u64 where "KERNBASE \<equiv> 0x80000000"
abbreviation PHYSTOP :: u64 where "PHYSTOP \<equiv> KERNBASE + 128 * 1024 * 1024"
abbreviation TRAMPOLINE :: u64 where "TRAMPOLINE \<equiv> MAXVA - PGSIZE"
abbreviation TRAPFRAME :: u64 where "TRAPFRAME \<equiv> TRAMPOLINE - PGSIZE"

definition KSTACK :: "u64 \<Rightarrow> u64" where
  "KSTACK p = TRAMPOLINE - (p + 1) * 2 * PGSIZE"

abbreviation UART0 :: u64 where "UART0 \<equiv> 0x10000000"
abbreviation VIRTIO0 :: u64 where "VIRTIO0 \<equiv> 0x10001000"
abbreviation PLIC :: u64 where "PLIC \<equiv> 0x0c000000"

abbreviation NPROC :: nat where "NPROC \<equiv> 64"
abbreviation USERSTACK :: u64 where "USERSTACK \<equiv> 1"

definition page_aligned :: "u64 \<Rightarrow> bool" where
  "page_aligned a \<longleftrightarrow> a mod PGSIZE = 0"

section \<open>Arithmetic of pages\<close>

lemma page_aligned_unat: "page_aligned a \<longleftrightarrow> unat a mod 4096 = 0"
  by (simp add: page_aligned_def word_eq_iff_unat unat_mod_distrib)

lemma unat_bound64: "unat (a :: u64) < 2 ^ 64"
  using unsigned_less [of a, where 'a = nat] by simp

lemma page_aligned_mod8: "page_aligned p \<Longrightarrow> unat p mod 8 = 0"
  using mod_mod_cancel [of 8 4096 "unat p"] by (simp add: page_aligned_unat)

lemma page_aligned_obtain:
  assumes "page_aligned p"
  obtains k where "unat p = 4096 * k" "k < 2 ^ 52"
proof -
  from assms obtain k where k: "unat p = 4096 * k"
    by (auto simp: page_aligned_unat mod_eq_0_iff_dvd dvd_def)
  with unat_bound64 [of p] have "k < 2 ^ 52" by simp
  with k show ?thesis by (rule that)
qed

lemma PGROUNDDOWN_push: "PGROUNDDOWN a = push_bit 12 (drop_bit 12 a)"
proof -
  have "NOT (PGSIZE - 1) = NOT (mask 12 :: u64)" by (simp add: mask_eq_exp_minus_1)
  moreover have "a AND NOT (mask 12) = push_bit 12 (drop_bit 12 a)"
    by (rule bit_word_eqI) (auto simp: bit_simps)
  ultimately show ?thesis by (simp only: PGROUNDDOWN_def)
qed

lemma unat_PGROUNDDOWN: "unat (PGROUNDDOWN a) = unat a div 4096 * 4096"
proof -
  have "unat a div 4096 * 4096 < 2 ^ 64"
    using unat_bound64 [of a] div_times_less_eq_dividend [of "unat a" 4096] by linarith
  then show ?thesis
    by (simp add: PGROUNDDOWN_push push_bit_eq_mult unat_word_ariths unat_drop_bit_eq drop_bit_eq_div)
qed

lemma page_aligned_PGROUNDDOWN [simp]: "page_aligned (PGROUNDDOWN a)"
  by (simp add: page_aligned_unat unat_PGROUNDDOWN)

lemma page_aligned_add: "page_aligned a \<Longrightarrow> page_aligned (a + 4096)"
  by (simp add: page_aligned_unat unat_word_ariths mod_mod_cancel)

lemma PGROUNDDOWN_aligned [simp]: "page_aligned a \<Longrightarrow> PGROUNDDOWN a = a"
  by (auto simp: page_aligned_unat word_eq_iff_unat unat_PGROUNDDOWN)

lemma PGROUNDDOWN_le: "PGROUNDDOWN a \<le> a"
  by (simp add: word_le_nat_alt unat_PGROUNDDOWN)

lemma in_page_iff:
  assumes "page_aligned p"
  shows "x - p < PGSIZE \<longleftrightarrow> PGROUNDDOWN x = p"
proof -
  obtain k where k: "unat p = 4096 * k" "k < 2 ^ 52" by (rule page_aligned_obtain [OF assms])
  define d r where "d = unat x div 4096" and "r = unat x mod 4096"
  then have x: "unat x = 4096 * d + r" and r: "r < 4096" by simp_all
  have "unat (x - p) < 4096 \<longleftrightarrow> d = k"
    using k r by (auto simp: unat_sub_if_size word_size x)
  then show ?thesis
    using k by (simp add: word_less_nat_alt word_eq_iff_unat unat_PGROUNDDOWN flip: d_def)
qed

lemma page_offset_add:
  assumes "page_aligned p" "unat o' < 4096"
  shows "PGROUNDDOWN (p + o') = p" and "unat (p + o') = unat p + unat o'"
proof -
  obtain k where k: "unat p = 4096 * k" "k < 2 ^ 52" by (rule page_aligned_obtain [OF assms(1)])
  show u: "unat (p + o') = unat p + unat o'"
    using k assms(2) by (simp add: unat_word_ariths)
  show "PGROUNDDOWN (p + o') = p"
    using k assms(2) u by (simp add: word_eq_iff_unat unat_PGROUNDDOWN)
qed

lemma PX_bound: "PX l va < 512"
proof -
  have "PX l va \<le> PXMASK" by (simp add: PX_def word_and_le1)
  then show ?thesis by (simp add: word_le_nat_alt word_less_nat_alt)
qed

lemma entry_in_page:
  assumes "page_aligned p" "i < 512"
  shows "PGROUNDDOWN (p + 8 * i) = p" and "unat (p + 8 * i) = unat p + 8 * unat i"
    and "unat (p + 8 * i) mod 8 = 0"
proof -
  have i: "unat i < 512" using assms(2) by (simp add: word_less_nat_alt)
  then have u: "unat (8 * i) = 8 * unat i" by (simp add: unat_word_ariths)
  with i have b: "unat (8 * i) < 4096" by simp
  note pa = page_offset_add [OF assms(1) b]
  show "PGROUNDDOWN (p + 8 * i) = p" by (rule pa(1))
  show u2: "unat (p + 8 * i) = unat p + 8 * unat i" using pa(2) u by simp
  show "unat (p + 8 * i) mod 8 = 0"
    using page_aligned_mod8 [OF assms(1)] by (simp only: u2 mod_mult_self2)
qed

section \<open>Page-table entries\<close>

lemma bit_small_flags: "f < (0x400 :: u64) \<Longrightarrow> bit f n \<Longrightarrow> n < 10"
proof -
  assume "f < (0x400 :: u64)" and b: "bit f n"
  then have "take_bit 10 f = f"
    by (simp add: word_eq_iff_unat word_less_nat_alt unsigned_take_bit_eq take_bit_nat_eq_self)
  with b have "bit (take_bit 10 f) n" by simp
  then show "n < 10" by (simp add: bit_take_bit_iff)
qed

lemma bit_page_aligned: "page_aligned p \<Longrightarrow> bit p n \<Longrightarrow> 12 \<le> n"
proof -
  assume "page_aligned p" and b: "bit p n"
  then have "p = push_bit 12 (drop_bit 12 p)" using PGROUNDDOWN_aligned PGROUNDDOWN_push by metis
  with b have "bit (push_bit 12 (drop_bit 12 p)) n" by simp
  then show "12 \<le> n" by (simp add: bit_simps)
qed

lemma PTE2PA_PA2PTE:
  assumes "page_aligned pa" "flags < 0x400"
  shows "PTE2PA (PA2PTE pa OR flags) = pa"
  using assms
  by (intro bit_word_eqI)
     (auto simp: PTE2PA_def PA2PTE_def bit_simps dest: bit_small_flags bit_page_aligned)

lemma PA2PTE_low: "n < 10 \<Longrightarrow> \<not> bit (PA2PTE pa) n"
  by (simp add: PA2PTE_def bit_simps)

lemma PTE_FLAGS_PA2PTE: "flags < 0x400 \<Longrightarrow> PTE_FLAGS (PA2PTE pa OR flags) = flags"
proof -
  assume f: "flags < 0x400"
  have "PTE_FLAGS x = take_bit 10 x" for x
    by (simp add: PTE_FLAGS_def take_bit_eq_mask mask_eq_exp_minus_1)
  then show ?thesis
    using f by (intro bit_word_eqI) (auto simp: bit_simps PA2PTE_low dest: bit_small_flags)
qed

lemma and_exp_eq_0_iff: "(x :: u64) AND 2 ^ n = 0 \<longleftrightarrow> \<not> bit x n"
proof -
  have "x AND 2 ^ n = 0 \<longleftrightarrow> (\<forall>i < 64. \<not> (bit x i \<and> n = i))"
    by (auto simp: bit_eq_iff bit_simps)
  then show ?thesis using bit_imp_le_length [of x n] by auto
qed

lemma PTE_tests:
  "(x :: u64) AND PTE_V = 0 \<longleftrightarrow> \<not> bit x 0"
  "(x :: u64) AND PTE_R = 0 \<longleftrightarrow> \<not> bit x 1"
  "(x :: u64) AND PTE_W = 0 \<longleftrightarrow> \<not> bit x 2"
  "(x :: u64) AND PTE_X = 0 \<longleftrightarrow> \<not> bit x 3"
  "(x :: u64) AND PTE_U = 0 \<longleftrightarrow> \<not> bit x 4"
  using and_exp_eq_0_iff [of x 0] and_exp_eq_0_iff [of x 1] and_exp_eq_0_iff [of x 2]
    and_exp_eq_0_iff [of x 3] and_exp_eq_0_iff [of x 4]
  by simp_all

section \<open>Physical memory\<close>

type_synonym memory = "u64 \<Rightarrow> u8"

definition load64 :: "memory \<Rightarrow> u64 \<Rightarrow> u64" where
  "load64 m a =
     ucast (m a) OR push_bit 8 (ucast (m (a + 1))) OR push_bit 16 (ucast (m (a + 2)))
     OR push_bit 24 (ucast (m (a + 3))) OR push_bit 32 (ucast (m (a + 4)))
     OR push_bit 40 (ucast (m (a + 5))) OR push_bit 48 (ucast (m (a + 6)))
     OR push_bit 56 (ucast (m (a + 7)))"

definition store64 :: "memory \<Rightarrow> u64 \<Rightarrow> u64 \<Rightarrow> memory" where
  "store64 m a v = (\<lambda>x. if x - a < 8 then ucast (drop_bit (8 * unat (x - a)) v) else m x)"

lemma bit_push_byte:
  "bit (push_bit j (ucast (w :: u8)) :: u64) n \<longleftrightarrow> n < 64 \<and> j \<le> n \<and> n < j + 8 \<and> bit w (n - j)"
  using bit_imp_le_length [of w "n - j"] by (auto simp: bit_simps)

lemma bit_load64:
  assumes "q < 8" "r < 8"
  shows "bit (load64 m a) (8 * q + r) \<longleftrightarrow> bit (m (a + of_nat q)) r"
proof -
  have u: "bit (ucast (w :: u8) :: u64) n \<longleftrightarrow> n < 8 \<and> bit w n" for w n
    using bit_push_byte [of 0 w n] by auto
  consider "q = 0" | "q = 1" | "q = 2" | "q = 3" | "q = 4" | "q = 5" | "q = 6" | "q = 7"
    using assms(1) by linarith
  then show ?thesis
    using assms(2) by cases (simp_all add: load64_def bit_or_iff bit_push_byte u)
qed

lemma load64_store64_same [mem_simps]: "load64 (store64 m a v) a = v"
proof (rule bit_word_eqI)
  fix n assume "n < LENGTH(64)"
  then have q: "n div 8 < 8" and r: "n mod 8 < 8" by simp_all
  have "(of_nat (n div 8) :: u64) < 8" and "unat (of_nat (n div 8) :: u64) = n div 8"
    using q by (simp_all add: word_less_nat_alt unat_of_nat)
  then have "bit (store64 m a v (a + of_nat (n div 8))) (n mod 8) = bit v (8 * (n div 8) + n mod 8)"
    using r by (simp only: store64_def) (simp add: bit_simps)
  with bit_load64 [OF q r, of "store64 m a v" a] show "bit (load64 (store64 m a v) a) n = bit v n"
    by simp
qed

lemma load64_cong:
  assumes "\<And>k. k < 8 \<Longrightarrow> m (a + k) = m' (a + k)"
  shows "load64 m a = load64 m' a"
  using assms [of 0] assms [of 1] assms [of 2] assms [of 3] assms [of 4] assms [of 5]
    assms [of 6] assms [of 7]
  by (simp add: load64_def)

text \<open>Eight-aligned slots of one or of different pages.\<close>

lemma aligned8_diff:
  assumes "unat (a :: u64) mod 8 = 0" "unat b mod 8 = 0" "a \<noteq> b" "k < 8"
  shows "\<not> b + k - a < 8"
proof -
  obtain i j where i: "unat a = 8 * i" and j: "unat b = 8 * j"
    using assms(1,2) by (auto simp: mod_eq_0_iff_dvd dvd_def)
  have ij: "i < 2 ^ 61" "j < 2 ^ 61" "i \<noteq> j"
    using i j unat_bound64 [of a] unat_bound64 [of b] assms(3) by (auto simp: word_eq_iff_unat)
  have k: "unat k < 8" using assms(4) by (simp add: word_less_nat_alt)
  have bk: "unat (b + k) = 8 * j + unat k"
    using j ij k by (simp add: unat_word_ariths)
  have "\<not> unat (b + k - a) < 8"
    using ij k by (auto simp: unat_sub_if_size word_size bk i)
  then show ?thesis by (simp add: word_less_nat_alt)
qed

lemma load64_store64_other [mem_simps]:
  assumes "unat a mod 8 = 0" "unat b mod 8 = 0" "a \<noteq> b"
  shows "load64 (store64 m a v) b = load64 m b"
  by (rule load64_cong) (simp add: store64_def aligned8_diff [OF assms])

lemma aligned8_page:
  assumes "unat a mod 8 = 0" "k < 8"
  shows "PGROUNDDOWN (a + k) = PGROUNDDOWN a"
proof -
  obtain i where i: "unat a = 8 * i" using assms(1) by (auto simp: mod_eq_0_iff_dvd dvd_def)
  have ib: "i < 2 ^ 61" using i unat_bound64 [of a] by simp
  have k: "unat k < 8" using assms(2) by (simp add: word_less_nat_alt)
  have ak: "unat (a + k) = 8 * i + unat k"
    using ib k i by (simp add: unat_word_ariths)
  have "(8 * i + unat k) div 8 div 512 = i div 512"
    using k by simp
  then have "(8 * i + unat k) div 4096 = (8 * i) div 4096"
    by (simp flip: div_mult2_eq)
  then show ?thesis by (simp add: word_eq_iff_unat unat_PGROUNDDOWN ak i)
qed

lemma store64_page_other [mem_simps]:
  assumes "unat a mod 8 = 0" "PGROUNDDOWN x \<noteq> PGROUNDDOWN a"
  shows "store64 m a v x = m x"
proof -
  have "\<not> x - a < 8"
  proof
    assume "x - a < 8"
    from aligned8_page [OF assms(1) this] show False using assms(2) by simp
  qed
  then show ?thesis by (simp add: store64_def)
qed

lemma load64_page_cong:
  assumes "unat a mod 8 = 0" "\<And>x. PGROUNDDOWN x = PGROUNDDOWN a \<Longrightarrow> m x = m' x"
  shows "load64 m a = load64 m' a"
  by (rule load64_cong) (simp add: assms aligned8_page)

end
