(* ===== verification/Cstring.thy ===== *)
theory Cstring
  imports Riscv
begin

text \<open>
  \<open>string.c\<close>: the byte-copying and string routines every other component calls, each as the
  loop the C code runs over physical memory, with the closed forms the other theories use.
\<close>

section \<open>Operations\<close>

text \<open>\<^verbatim>\<open>for(i = 0; i < n; i++) cdst[i] = c;\<close>\<close>

function memset_loop :: "memory \<Rightarrow> u64 \<Rightarrow> u8 \<Rightarrow> nat \<Rightarrow> nat \<Rightarrow> memory" where
  "memset_loop m dst c i n =
     (if i < n then memset_loop (m(dst + of_nat i := c)) dst c (Suc i) n else m)"
  by pat_completeness auto
termination
  by (relation "measure (\<lambda>(m, dst, c, i, n). n - i)") auto

definition memset :: "memory \<Rightarrow> u64 \<Rightarrow> u8 \<Rightarrow> nat \<Rightarrow> memory" where
  "memset m dst c n = memset_loop m dst c 0 n"

text \<open>\<^verbatim>\<open>while(n-- > 0) { if(*s1 != *s2) return *s1 - *s2; s1++, s2++; }\<close>\<close>

fun memcmp :: "memory \<Rightarrow> u64 \<Rightarrow> u64 \<Rightarrow> nat \<Rightarrow> int" where
  "memcmp m s1 s2 0 = 0"
| "memcmp m s1 s2 (Suc n) =
     (if m s1 \<noteq> m s2 then uint (m s1) - uint (m s2) else memcmp m (s1 + 1) (s2 + 1) n)"

text \<open>The two copy loops of \<open>memmove\<close>: downwards from the end, and upwards.\<close>

fun memmove_down :: "memory \<Rightarrow> u64 \<Rightarrow> u64 \<Rightarrow> nat \<Rightarrow> memory" where
  "memmove_down m d s 0 = m"
| "memmove_down m d s (Suc n) = memmove_down (m(d - 1 := m (s - 1))) (d - 1) (s - 1) n"

fun memmove_up :: "memory \<Rightarrow> u64 \<Rightarrow> u64 \<Rightarrow> nat \<Rightarrow> memory" where
  "memmove_up m d s 0 = m"
| "memmove_up m d s (Suc n) = memmove_up (m(d := m s)) (d + 1) (s + 1) n"

definition memmove :: "memory \<Rightarrow> u64 \<Rightarrow> u64 \<Rightarrow> nat \<Rightarrow> memory" where
  "memmove m dst src n =
     (if n = 0 then m
      else if src < dst \<and> src + of_nat n > dst
        then memmove_down m (dst + of_nat n) (src + of_nat n) n
        else memmove_up m dst src n)"

definition memcpy :: "memory \<Rightarrow> u64 \<Rightarrow> u64 \<Rightarrow> nat \<Rightarrow> memory" where
  "memcpy m dst src n = memmove m dst src n"

text \<open>\<^verbatim>\<open>while(n > 0 && *p && *p == *q) n--, p++, q++;\<close> and the difference of the first
  mismatch.\<close>

fun strncmp :: "memory \<Rightarrow> u64 \<Rightarrow> u64 \<Rightarrow> nat \<Rightarrow> int" where
  "strncmp m p q 0 = 0"
| "strncmp m p q (Suc n) =
     (if m p \<noteq> 0 \<and> m p = m q then strncmp m (p + 1) (q + 1) n
      else uint (m p) - uint (m q))"

text \<open>The copying loop of \<open>strncpy\<close> and its zero-filling loop.\<close>

fun strncpy_pad :: "memory \<Rightarrow> u64 \<Rightarrow> nat \<Rightarrow> memory" where
  "strncpy_pad m s 0 = m"
| "strncpy_pad m s (Suc n) = strncpy_pad (m(s := 0)) (s + 1) n"

fun strncpy :: "memory \<Rightarrow> u64 \<Rightarrow> u64 \<Rightarrow> nat \<Rightarrow> memory" where
  "strncpy m s t 0 = m"
| "strncpy m s t (Suc n) =
     (if m t \<noteq> 0 then strncpy (m(s := m t)) (s + 1) (t + 1) n
      else strncpy_pad (m(s := m t)) (s + 1) n)"

text \<open>\<open>safestrcpy\<close>: at most \<open>n - 1\<close> bytes and always a final zero byte.\<close>

fun safestrcpy_loop :: "memory \<Rightarrow> u64 \<Rightarrow> u64 \<Rightarrow> nat \<Rightarrow> memory" where
  "safestrcpy_loop m s t 0 = m(s := 0)"
| "safestrcpy_loop m s t (Suc n) =
     (if m t \<noteq> 0 then safestrcpy_loop (m(s := m t)) (s + 1) (t + 1) n
      else (m(s := m t))(s + 1 := 0))"

definition safestrcpy :: "memory \<Rightarrow> u64 \<Rightarrow> u64 \<Rightarrow> int \<Rightarrow> memory" where
  "safestrcpy m s t n = (if n \<le> 0 then m else safestrcpy_loop m s t (nat (n - 1)))"

text \<open>\<open>strlen\<close> does not return when no zero byte follows; \<open>None\<close> stands for that.\<close>

partial_function (option) strlen_from :: "memory \<Rightarrow> u64 \<Rightarrow> nat \<Rightarrow> nat option" where
  "strlen_from m s n = (if m (s + of_nat n) = 0 then Some n else strlen_from m s (Suc n))"

definition strlen :: "memory \<Rightarrow> u64 \<Rightarrow> nat option" where
  "strlen m s = strlen_from m s 0"

declare memset_loop.simps [simp del]

section \<open>Closed forms\<close>

lemma word_eq_add_of_nat:
  fixes x dst :: u64
  assumes "i < 2 ^ 64"
  shows "x = dst + of_nat i \<longleftrightarrow> unat (x - dst) = i"
proof
  assume "x = dst + of_nat i"
  then show "unat (x - dst) = i" using assms by (simp add: unat_of_nat)
next
  assume "unat (x - dst) = i"
  then have "of_nat i = x - dst" by auto
  then show "x = dst + of_nat i" by simp
qed

lemma memset_loop_eq:
  assumes "n \<le> 2 ^ 64"
  shows "memset_loop m dst c i n = (\<lambda>x. if i \<le> unat (x - dst) \<and> unat (x - dst) < n then c else m x)"
  using assms
proof (induction m dst c i n rule: memset_loop.induct)
  case (1 m dst c i n)
  show ?case
  proof (cases "i < n")
    case True
    then have IH: "memset_loop (m(dst + of_nat i := c)) dst c (Suc i) n =
      (\<lambda>x. if Suc i \<le> unat (x - dst) \<and> unat (x - dst) < n then c else (m(dst + of_nat i := c)) x)"
      using 1 by blast
    have "x = dst + of_nat i \<longleftrightarrow> unat (x - dst) = i" for x
      using True 1(2) by (intro word_eq_add_of_nat) simp
    then show ?thesis
      using True by (subst memset_loop.simps) (simp add: IH fun_eq_iff del: fun_upd_apply, auto)
  next
    case False
    then show ?thesis by (auto simp: memset_loop.simps [of m dst c i n] fun_eq_iff)
  qed
qed

lemma memset_apply:
  "n \<le> 2 ^ 64 \<Longrightarrow> memset m dst c n x = (if unat (x - dst) < n then c else m x)"
  by (simp add: memset_def memset_loop_eq)

text \<open>A whole page.\<close>

lemma memset_page [mem_simps]:
  "page_aligned p \<Longrightarrow> memset m p c 4096 x = (if PGROUNDDOWN x = p then c else m x)"
  using in_page_iff [of p x] by (simp add: memset_apply word_less_nat_alt)

lemma memmove_up_eq:
  assumes "\<And>i j. i < j \<Longrightarrow> j < n \<Longrightarrow> d + of_nat i \<noteq> s + of_nat j" "n \<le> 2 ^ 64"
  shows "memmove_up m d s n x = (if unat (x - d) < n then m (s + (x - d)) else m x)"
  using assms
proof (induction n arbitrary: m d s)
  case 0
  then show ?case by simp
next
  case (Suc n)
  have IH: "memmove_up (m(d := m s)) (d + 1) (s + 1) n x =
    (if unat (x - (d + 1)) < n then (m(d := m s)) (s + 1 + (x - (d + 1))) else (m(d := m s)) x)"
  proof (rule Suc.IH)
    fix i j assume "i < j" "j < n"
    then show "d + 1 + of_nat i \<noteq> s + 1 + of_nat j"
      using Suc.prems(1) [of "Suc i" "Suc j"] by (simp add: add.assoc)
  qed (use Suc.prems in simp)
  show ?case
  proof (cases "x = d")
    case True
    have "unat (- 1 :: u64) = 2 ^ 64 - 1" by (simp add: unsigned_minus_1_eq_mask mask_eq_exp_minus_1)
    then show ?thesis using True Suc.prems(2) IH by simp
  next
    case False
    then have u: "unat (x - (d + 1)) = unat (x - d) - 1" and pos: "0 < unat (x - d)"
      using unat_minus_one [of "x - d"] by (auto simp: diff_diff_eq [symmetric] unat_gt_0)
    have "s + (x - d) \<noteq> d" if "unat (x - d) < Suc n"
      using Suc.prems(1) [of 0 "unat (x - d)"] pos that by simp
    then show ?thesis using IH False u pos by (auto simp: algebra_simps)
  qed
qed

lemma memmove_down_eq:
  assumes "\<And>i j. j < i \<Longrightarrow> i < n \<Longrightarrow> d + of_nat i \<noteq> s + of_nat j" "n \<le> 2 ^ 64"
  shows "memmove_down m (d + of_nat n) (s + of_nat n) n x
       = (if unat (x - d) < n then m (s + (x - d)) else m x)"
  using assms
proof (induction n arbitrary: m)
  case 0
  then show ?case by simp
next
  case (Suc n)
  have "memmove_down m (d + of_nat (Suc n)) (s + of_nat (Suc n)) (Suc n) x =
    memmove_down (m(d + of_nat n := m (s + of_nat n))) (d + of_nat n) (s + of_nat n) n x"
    by (simp add: algebra_simps)
  also have "\<dots> = (if unat (x - d) < n then (m(d + of_nat n := m (s + of_nat n))) (s + (x - d))
                   else (m(d + of_nat n := m (s + of_nat n))) x)"
    using Suc.prems by (intro Suc.IH) auto
  also have "\<dots> = (if unat (x - d) < Suc n then m (s + (x - d)) else m x)"
  proof -
    have "d + of_nat n \<noteq> s + (x - d)" if "unat (x - d) < n"
      using Suc.prems(1) [of "unat (x - d)" n] that by simp
    moreover have "x = d + of_nat n \<longleftrightarrow> unat (x - d) = n"
      using Suc.prems(2) by (intro word_eq_add_of_nat) simp
    ultimately show ?thesis by (auto simp: less_Suc_eq)
  qed
  finally show ?case .
qed

lemma add_of_nat_neq:
  fixes d s :: u64
  assumes "unat d + n \<le> 2 ^ 64" "unat s + n \<le> 2 ^ 64" "i < n" "j < n"
  shows "d + of_nat i = s + of_nat j \<longleftrightarrow> unat d + i = unat s + j"
proof -
  have "unat (d + of_nat i) = unat d + i" "unat (s + of_nat j) = unat s + j"
    using assms by (simp_all add: unat_word_ariths unat_of_nat)
  then show ?thesis by (simp add: word_eq_iff_unat)
qed

text \<open>
  \<open>memmove\<close> copies correctly whether or not the two ranges overlap, as long as neither wraps
  around the end of the address space.
\<close>

lemma memmove_apply [mem_simps]:
  assumes "unat dst + n \<le> 2 ^ 64" "unat src + n \<le> 2 ^ 64"
  shows "memmove m dst src n x = (if unat (x - dst) < n then m (src + (x - dst)) else m x)"
proof -
  have n: "n \<le> 2 ^ 64" using assms(1) by simp
  note neq = add_of_nat_neq [OF assms]
  consider "n = 0" | "0 < n" "src < dst \<and> src + of_nat n > dst"
    | "0 < n" "\<not> (src < dst \<and> src + of_nat n > dst)" by blast
  then show ?thesis
  proof cases
    case 1
    then show ?thesis by (simp add: memmove_def)
  next
    case 2
    have "dst + of_nat i \<noteq> src + of_nat j" if "j < i" "i < n" for i j
      using neq [of i j] that 2 by (simp add: word_less_nat_alt)
    from memmove_down_eq [OF this n] 2 show ?thesis by (simp add: memmove_def)
  next
    case 3
    have "dst + of_nat i \<noteq> src + of_nat j" if ij: "i < j" "j < n" for i j
    proof (cases "src < dst")
      case True
      then have le: "unat (src + of_nat n) \<le> unat dst"
        using 3 by (simp add: word_less_nat_alt)
      show ?thesis
      proof (cases "unat src + n = 2 ^ 64")
        case True
        with assms(1) \<open>src < dst\<close> \<open>0 < n\<close> show ?thesis by (simp add: word_less_nat_alt)
      next
        case False
        then have "unat (src + of_nat n) = unat src + n"
          using assms(2) by (simp add: unat_word_ariths unat_of_nat)
        with le neq [of i j] ij show ?thesis by simp
      qed
    next
      case False
      then show ?thesis using neq [of i j] ij by (simp add: word_less_nat_alt)
    qed
    from memmove_up_eq [OF this n] 3 show ?thesis
      by (simp only: memmove_def if_False) simp
  qed
qed

section \<open>Strings\<close>

text \<open>\<open>strncmp\<close> is 0 exactly when the two strings agree up to the bound or their common end.\<close>

lemma strncmp_0_iff:
  "strncmp m p q n = 0 \<longleftrightarrow>
     (\<forall>i < n. (\<forall>j < i. m (p + of_nat j) \<noteq> 0) \<longrightarrow> m (p + of_nat i) = m (q + of_nat i))"
proof (induction n arbitrary: p q)
  case 0
  then show ?case by simp
next
  case (Suc n)
  show ?case
  proof (cases "m p \<noteq> 0 \<and> m p = m q")
    case True
    have "strncmp m p q (Suc n) = 0 \<longleftrightarrow> (\<forall>i < n. (\<forall>j < i. m (p + 1 + of_nat j) \<noteq> 0)
        \<longrightarrow> m (p + 1 + of_nat i) = m (q + 1 + of_nat i))"
      using True Suc.IH [of "p + 1" "q + 1"] by auto
    also have "\<dots> \<longleftrightarrow> (\<forall>i < Suc n. (\<forall>j < i. m (p + of_nat j) \<noteq> 0)
        \<longrightarrow> m (p + of_nat i) = m (q + of_nat i))"
      using True by (auto simp: All_less_Suc2 add.assoc)
    finally show ?thesis .
  next
    case False
    then show ?thesis by (auto simp: All_less_Suc2 simp flip: word_uint_eq_iff)
  qed
qed

lemma strlen_from_found:
  assumes "m (s + of_nat k) = 0" "\<And>i. n \<le> i \<Longrightarrow> i < k \<Longrightarrow> m (s + of_nat i) \<noteq> 0" "n \<le> k"
  shows "strlen_from m s n = Some k"
  using assms
proof (induction "k - n" arbitrary: n)
  case 0
  then show ?case by (simp add: strlen_from.simps)
next
  case (Suc d)
  then have "m (s + of_nat n) \<noteq> 0" and "strlen_from m s (Suc n) = Some k"
    by simp_all
  then show ?case by (simp add: strlen_from.simps [of m s n])
qed

lemma strlen_found:
  "m (s + of_nat k) = 0 \<Longrightarrow> (\<And>i. i < k \<Longrightarrow> m (s + of_nat i) \<noteq> 0) \<Longrightarrow> strlen m s = Some k"
  by (simp add: strlen_def strlen_from_found)


section \<open>Properties\<close>

text \<open>The \<open>n\<close> bytes of memory from address \<open>a\<close> on.\<close>

definition bytes_at :: "memory \<Rightarrow> u64 \<Rightarrow> nat \<Rightarrow> u8 list" where
  "bytes_at m a n = map (\<lambda>i. m (a + of_nat i)) [0..<n]"

lemma length_bytes_at [simp]: "length (bytes_at m a n) = n"
  by (simp add: bytes_at_def)

lemma nth_bytes_at [simp]: "i < n \<Longrightarrow> bytes_at m a n ! i = m (a + of_nat i)"
  by (simp add: bytes_at_def)

text \<open>
  C32: \<open>memmove\<close> copies the \<open>n\<close> source bytes, as they were before the call, to the destination
  and changes no other byte, also when the two ranges overlap in either direction.
\<close>

theorem memmove_correct:
  assumes "unat dst + n \<le> 2 ^ 64" "unat src + n \<le> 2 ^ 64"
  shows "bytes_at (memmove m dst src n) dst n = bytes_at m src n \<and>
         (\<forall>x. n \<le> unat (x - dst) \<longrightarrow> memmove m dst src n x = m x)"
proof -
  have "memmove m dst src n (dst + of_nat i) = m (src + of_nat i)" if "i < n" for i
    using that assms by (simp add: memmove_apply [OF assms] unat_of_nat)
  then have "bytes_at (memmove m dst src n) dst n = bytes_at m src n"
    by (simp add: list_eq_iff_nth_eq)
  then show ?thesis by (simp add: memmove_apply [OF assms])
qed

theorem memmove_correct_witness:
  "bytes_at (memmove (\<lambda>a. ucast a) 0x1002 0x1000 4) 0x1002 4 = [0, 1, 2, 3] \<and>
   memmove (\<lambda>a. ucast a) 0x1002 0x1000 4 0x1006 = (6 :: u8)"
  using memmove_correct [where dst = "0x1002" and n = 4 and src = "0x1000" and m = "\<lambda>a. ucast a"]
  by (simp add: bytes_at_def upt_rec)

end
