(* ===== verification/Kalloc.thy ===== *)
theory Kalloc
  imports Cstring
begin

text \<open>
  \<open>kalloc.c\<close>: the physical page allocator. Free pages form a linked list threaded through
  the pages themselves (\<open>struct run\<close>), so allocation and release read and write physical
  memory. The spinlock \<open>kmem.lock\<close> makes each operation atomic; the model runs them one
  after another.
\<close>

section \<open>State and operations\<close>

text \<open>
  \<open>kend\<close> is the linker symbol \<open>end\<close>, the first address after the kernel image;
  \<open>freelist\<close> is \<open>kmem.freelist\<close>.
\<close>

record phys =
  mem :: memory
  freelist :: u64
  kend :: u64

definition kfree :: "phys \<Rightarrow> u64 \<Rightarrow> phys option" where
  "kfree s pa =
     (if pa mod PGSIZE \<noteq> 0 \<or> pa < kend s \<or> pa \<ge> PHYSTOP then None
      else Some (s\<lparr>mem := store64 (memset (mem s) pa 1 4096) pa (freelist s), freelist := pa\<rparr>))"

definition kalloc :: "phys \<Rightarrow> u64 \<times> phys" where
  "kalloc s =
     (let r = freelist s;
          s1 = (if r \<noteq> 0 then s\<lparr>freelist := load64 (mem s) r\<rparr> else s)
      in if r \<noteq> 0 then (r, s1\<lparr>mem := memset (mem s1) r 5 4096\<rparr>) else (r, s1))"

function freerange_loop :: "phys \<Rightarrow> u64 \<Rightarrow> u64 \<Rightarrow> phys option" where
  "freerange_loop s p pa_end =
     (if p + PGSIZE \<le> pa_end
      then Option.bind (kfree s p) (\<lambda>s1. freerange_loop s1 (p + PGSIZE) pa_end)
      else Some s)"
  by pat_completeness auto
termination
proof (relation "measure (\<lambda>(s, p, pa_end). unat PHYSTOP - unat p)", goal_cases)
  case 1
  show ?case by (rule wf_measure)
next
  case (2 s p pa_end s1)
  then have "unat p < unat PHYSTOP"
    by (simp add: kfree_def word_le_nat_alt split: if_splits)
  then show ?case by (simp add: unat_word_ariths)
qed

definition freerange :: "phys \<Rightarrow> u64 \<Rightarrow> u64 \<Rightarrow> phys option" where
  "freerange s pa_start pa_end = freerange_loop s (PGROUNDUP pa_start) pa_end"

definition kinit :: "phys \<Rightarrow> phys option" where
  "kinit s = freerange s (kend s) PHYSTOP"

declare freerange_loop.simps [simp del]

section \<open>The free list as an abstract list\<close>

text \<open>\<open>free_chain m p xs\<close>: following \<open>next\<close> pointers from \<open>p\<close> visits exactly \<open>xs\<close>.\<close>

primrec free_chain :: "memory \<Rightarrow> u64 \<Rightarrow> u64 list \<Rightarrow> bool" where
  "free_chain m p [] \<longleftrightarrow> p = 0"
| "free_chain m p (x # xs) \<longleftrightarrow> p = x \<and> x \<noteq> 0 \<and> free_chain m (load64 m x) xs"

text \<open>A page the allocator may hand out.\<close>

definition ram_page :: "phys \<Rightarrow> u64 \<Rightarrow> bool" where
  "ram_page s p \<longleftrightarrow> page_aligned p \<and> kend s \<le> p \<and> p < PHYSTOP"

definition kmem_inv :: "phys \<Rightarrow> u64 list \<Rightarrow> bool" where
  "kmem_inv s xs \<longleftrightarrow>
     0 < kend s \<and> free_chain (mem s) (freelist s) xs \<and> distinct xs \<and> (\<forall>x \<in> set xs. ram_page s x)"

lemma ram_page_aligned [dest]: "ram_page s p \<Longrightarrow> page_aligned p"
  by (simp add: ram_page_def)

lemma ram_page_mem [simp]: "ram_page (s\<lparr>mem := m\<rparr>) p = ram_page s p"
  "ram_page (s\<lparr>freelist := f\<rparr>) p = ram_page s p"
  by (simp_all add: ram_page_def)

lemma free_chain_cong:
  assumes "\<And>x y. x \<in> set xs \<Longrightarrow> PGROUNDDOWN y = x \<Longrightarrow> m y = m' y" "\<forall>x \<in> set xs. page_aligned x"
  shows "free_chain m p xs = free_chain m' p xs"
  using assms
proof (induction xs arbitrary: p)
  case Nil
  then show ?case by simp
next
  case (Cons x xs)
  have x: "page_aligned x" using Cons.prems(2) by simp
  have "load64 m x = load64 m' x"
  proof (rule load64_page_cong)
    show "unat x mod 8 = 0" using x by (rule page_aligned_mod8)
    show "m y = m' y" if "PGROUNDDOWN y = PGROUNDDOWN x" for y
      using that x Cons.prems(1) [of x y] by simp
  qed
  moreover have "free_chain m q xs = free_chain m' q xs" for q
    using Cons.prems by (intro Cons.IH) auto
  ultimately show ?case by simp
qed

lemma free_chain_unique: "free_chain m p xs \<Longrightarrow> free_chain m p ys \<Longrightarrow> xs = ys"
proof (induction xs arbitrary: p ys)
  case Nil
  then show ?case by (cases ys) auto
next
  case (Cons x xs)
  then show ?case by (cases ys) auto
qed

lemma kmem_inv_nonzero: "kmem_inv s xs \<Longrightarrow> x \<in> set xs \<Longrightarrow> x \<noteq> 0"
  by (auto simp: kmem_inv_def ram_page_def)

section \<open>Behaviour of the operations\<close>

lemma kalloc_empty: "kmem_inv s [] \<Longrightarrow> kalloc s = (0, s)"
  by (simp add: kmem_inv_def kalloc_def)

lemma kalloc_cons:
  assumes "kmem_inv s (x # xs)"
  shows "kalloc s = (x, s\<lparr>freelist := load64 (mem s) x, mem := memset (mem s) x 5 4096\<rparr>)"
  using assms by (simp add: kmem_inv_def kalloc_def)

lemma kalloc_frame:
  assumes "kmem_inv s xs" "kalloc s = (p, s')" "PGROUNDDOWN y \<noteq> p"
  shows "mem s' y = mem s y"
proof (cases xs)
  case Nil
  with assms show ?thesis by (simp add: kalloc_empty)
next
  case (Cons x xs')
  with assms(1) have "page_aligned x" by (auto simp: kmem_inv_def)
  with assms Cons kalloc_cons [of s x xs'] show ?thesis by (auto simp: mem_simps)
qed

lemma kalloc_kend: "kalloc s = (p, s') \<Longrightarrow> kend s' = kend s"
  by (auto simp: kalloc_def Let_def split: if_splits)

lemma kalloc_inv_cons:
  assumes "kmem_inv s (x # xs)" "kalloc s = (p, s')"
  shows "p = x" and "kmem_inv s' xs" and "ram_page s x" and "x \<notin> set xs"
proof -
  have s': "s' = s\<lparr>freelist := load64 (mem s) x, mem := memset (mem s) x 5 4096\<rparr>" and "p = x"
    using kalloc_cons [OF assms(1)] assms(2) by auto
  then show "p = x" by simp
  have x: "page_aligned x" "x \<notin> set xs" "ram_page s x" "\<forall>y \<in> set xs. page_aligned y"
    using assms(1) by (auto simp: kmem_inv_def)
  then show "ram_page s x" "x \<notin> set xs" by simp_all
  have "free_chain (memset (mem s) x 5 4096) (load64 (mem s) x) xs
      = free_chain (mem s) (load64 (mem s) x) xs"
    using x by (intro free_chain_cong) (auto simp: mem_simps)
  then show "kmem_inv s' xs"
    using assms(1) by (simp add: kmem_inv_def s' ram_page_def)
qed

lemma kalloc_zero_iff:
  assumes "kmem_inv s xs"
  shows "fst (kalloc s) = 0 \<longleftrightarrow> xs = []"
  using assms by (cases xs) (auto simp: kalloc_empty kalloc_cons kmem_inv_def)

lemma kfree_Some:
  assumes "ram_page s p"
  shows "kfree s p = Some (s\<lparr>mem := store64 (memset (mem s) p 1 4096) p (freelist s), freelist := p\<rparr>)"
  using assms by (auto simp: kfree_def ram_page_def page_aligned_def)

lemma kfree_SomeD:
  assumes "kfree s p = Some s'"
  shows "ram_page s p" and "kend s' = kend s"
    and "PGROUNDDOWN y \<noteq> p \<Longrightarrow> mem s' y = mem s y"
proof -
  show r: "ram_page s p"
    using assms by (auto simp: kfree_def ram_page_def page_aligned_def split: if_splits)
  then show "kend s' = kend s" using assms by (auto simp: kfree_Some)
  assume "PGROUNDDOWN y \<noteq> p"
  with r assms show "mem s' y = mem s y"
    by (auto simp: kfree_Some mem_simps page_aligned_mod8 ram_page_aligned)
qed

lemma kfree_inv:
  assumes "kmem_inv s xs" "ram_page s p" "p \<notin> set xs" "kfree s p = Some s'"
  shows "kmem_inv s' (p # xs)"
proof -
  have s': "s' = s\<lparr>mem := store64 (memset (mem s) p 1 4096) p (freelist s), freelist := p\<rparr>"
    using assms(2,4) by (simp add: kfree_Some)
  have p: "page_aligned p" "p \<noteq> 0" using assms(1,2) by (auto simp: ram_page_def kmem_inv_def)
  have "free_chain (mem s') (freelist s) xs = free_chain (mem s) (freelist s) xs"
  proof (rule free_chain_cong)
    show "\<forall>x \<in> set xs. page_aligned x" using assms(1) by (auto simp: kmem_inv_def)
    fix x y assume "x \<in> set xs" "PGROUNDDOWN y = x"
    then show "mem s' y = mem s y" using kfree_SomeD(3) [OF assms(4), of y] assms(3) by metis
  qed
  then show ?thesis
    using assms p by (simp add: kmem_inv_def s' mem_simps ram_page_def)
qed


section \<open>Start-up\<close>

lemma freerange_loop_spec:
  assumes "kmem_inv s xs" "page_aligned p" "kend s \<le> p" "pa_end \<le> PHYSTOP"
    and "\<forall>x \<in> set xs. x < p" "p \<le> PHYSTOP"
  shows "\<exists>s' ys. freerange_loop s p pa_end = Some s' \<and> kmem_inv s' ys \<and>
           set ys = set xs \<union> {q. page_aligned q \<and> p \<le> q \<and> unat q + 4096 \<le> unat pa_end}"
  using assms
proof (induction s p pa_end arbitrary: xs rule: freerange_loop.induct)
  case (1 s p pa_end)
  obtain k where k: "unat p = 4096 * k" "k < 2 ^ 52"
    by (rule page_aligned_obtain [OF "1.prems"(2)])
  have u: "unat (p + PGSIZE) = unat p + 4096"
    using "1.prems"(6) by (simp add: unat_word_ariths word_le_nat_alt)
  show ?case
  proof (cases "p + PGSIZE \<le> pa_end")
    case True
    then have "p < PHYSTOP" and le: "p + PGSIZE \<le> PHYSTOP"
      using "1.prems"(4) u by (simp_all add: word_less_nat_alt word_le_nat_alt)
    have r: "ram_page s p" using "1.prems" \<open>p < PHYSTOP\<close> by (simp add: ram_page_def)
    have "p \<notin> set xs" using "1.prems"(5) by auto
    obtain s1 where s1: "kfree s p = Some s1" using kfree_Some [OF r] by blast
    have inv1: "kmem_inv s1 (p # xs)" by (rule kfree_inv [OF "1.prems"(1) r \<open>p \<notin> set xs\<close> s1])
    have al: "page_aligned (p + PGSIZE)" using k u by (simp add: page_aligned_unat)
    have lt: "p < p + PGSIZE" using u by (simp add: word_less_nat_alt)
    have "\<exists>s' ys. freerange_loop s1 (p + PGSIZE) pa_end = Some s' \<and> kmem_inv s' ys \<and>
        set ys = set (p # xs) \<union> {q. page_aligned q \<and> p + PGSIZE \<le> q \<and> unat q + 4096 \<le> unat pa_end}"
    proof (rule "1.IH" [OF _ s1 inv1 al])
      show "kend s1 \<le> p + PGSIZE"
        using kfree_SomeD(2) [OF s1] "1.prems"(3) lt by simp
      show "\<forall>x \<in> set (p # xs). x < p + PGSIZE" using "1.prems"(5) lt by auto
    qed (use True "1.prems"(4) le in simp_all)
    moreover have "{q. page_aligned q \<and> p \<le> q \<and> unat q + 4096 \<le> unat pa_end}
        = insert p {q. page_aligned q \<and> p + PGSIZE \<le> q \<and> unat q + 4096 \<le> unat pa_end}"
    proof -
      have "unat p + 4096 \<le> unat pa_end" using True u by (simp add: word_le_nat_alt)
      moreover have "p + PGSIZE \<le> q" if "page_aligned q" "p \<le> q" "q \<noteq> p" for q
      proof -
        obtain j where j: "unat q = 4096 * j" by (rule page_aligned_obtain [OF \<open>page_aligned q\<close>])
        have "4096 * k < 4096 * j" using that j k by (simp add: word_le_nat_alt word_eq_iff_unat)
        then show ?thesis using j k u by (simp add: word_le_nat_alt)
      qed
      ultimately show ?thesis using "1.prems"(2) lt by auto
    qed
    ultimately show ?thesis
      using True by (subst freerange_loop.simps) (auto simp: s1)
  next
    case False
    then have "freerange_loop s p pa_end = Some s" by (subst freerange_loop.simps) simp
    moreover have "{q. page_aligned q \<and> p \<le> q \<and> unat q + 4096 \<le> unat pa_end} = {}"
      using False u by (auto simp: word_le_nat_alt)
    ultimately show ?thesis using "1.prems"(1) by auto
  qed
qed

lemma unat_PGROUNDUP:
  assumes "unat a + 4095 < 2 ^ 64"
  shows "unat (PGROUNDUP a) = (unat a + 4095) div 4096 * 4096"
proof -
  have "PGROUNDUP a = PGROUNDDOWN (a + 4095)"
    by (simp add: PGROUNDUP_def PGROUNDDOWN_def add_diff_eq [symmetric])
  then show ?thesis using assms by (simp add: unat_PGROUNDDOWN unat_word_ariths)
qed

lemma page_aligned_PGROUNDUP [simp]: "page_aligned (PGROUNDUP a)"
proof -
  have "PGROUNDUP a = PGROUNDDOWN (a + 4095)"
    by (simp add: PGROUNDUP_def PGROUNDDOWN_def add_diff_eq [symmetric])
  then show ?thesis by simp
qed

text \<open>
  C28: after \<open>kinit\<close> the free list holds every whole page between the end of the kernel image and
  \<open>PHYSTOP\<close>, each once.
\<close>

theorem kinit_all_pages:
  assumes "freelist s = 0" "0 < kend s" "kend s \<le> PHYSTOP"
  shows "\<exists>s' xs. kinit s = Some s' \<and> kmem_inv s' xs \<and>
           set xs = {q. page_aligned q \<and> kend s \<le> q \<and> q < PHYSTOP}"
proof -
  have ke: "unat (kend s) \<le> 0x88000000" using assms(3) by (simp add: word_le_nat_alt)
  then have up: "unat (PGROUNDUP (kend s)) = (unat (kend s) + 4095) div 4096 * 4096"
    by (intro unat_PGROUNDUP) simp
  have bounds: "kend s \<le> PGROUNDUP (kend s)" "PGROUNDUP (kend s) \<le> PHYSTOP"
    using ke by (simp_all add: word_le_nat_alt up)
  have inv: "kmem_inv s []" using assms by (simp add: kmem_inv_def)
  have "{q. page_aligned q \<and> PGROUNDUP (kend s) \<le> q \<and> unat q + 4096 \<le> unat PHYSTOP}
      = {q. page_aligned q \<and> kend s \<le> q \<and> q < PHYSTOP}"
  proof -
    have "(PGROUNDUP (kend s) \<le> q \<and> unat q + 4096 \<le> unat PHYSTOP) = (kend s \<le> q \<and> q < PHYSTOP)"
      if al: "page_aligned q" for q
    proof -
      obtain k where k: "unat q = 4096 * k" by (rule page_aligned_obtain [OF al])
      have "(unat (kend s) + 4095) div 4096 \<le> k \<longleftrightarrow> unat (kend s) \<le> 4096 * k" by linarith
      then show ?thesis using k up by (auto simp: word_le_nat_alt word_less_nat_alt)
    qed
    then show ?thesis by blast
  qed
  then show ?thesis
    using freerange_loop_spec [OF inv page_aligned_PGROUNDUP bounds(1) order_refl _ bounds(2)]
    by (simp add: kinit_def freerange_def)
qed


theorem kinit_all_pages_witness:
  "\<exists>s' xs. kinit \<lparr>mem = (\<lambda>_. 0), freelist = 0, kend = 0x87FFE010\<rparr> = Some s' \<and> kmem_inv s' xs \<and>
     set xs = {q. page_aligned q \<and> 0x87FFE010 \<le> q \<and> q < PHYSTOP}"
  using kinit_all_pages [of "\<lparr>mem = (\<lambda>_. 0), freelist = 0, kend = 0x87FFE010\<rparr>"] by simp

section \<open>The allocator as an interface\<close>

text \<open>
  What a client of the allocator relies on: \<open>frees s xs\<close> says that \<open>xs\<close> are the free
  pages of \<open>s\<close> in the order they will be handed out. Allocation takes the first and leaves
  the others, fails (null pointer) exactly when there is none, and releasing a page that is not
  free puts it in front.
\<close>

locale page_allocator =
  fixes alloc :: "'s \<Rightarrow> u64 \<times> 's"
    and release :: "'s \<Rightarrow> u64 \<Rightarrow> 's option"
    and frees :: "'s \<Rightarrow> u64 list \<Rightarrow> bool"
    and frame :: "'s \<Rightarrow> u64 \<Rightarrow> bool"
  assumes alloc_none: "frees s [] \<Longrightarrow> alloc s = (0, s)"
    and alloc_some: "frees s (x # xs) \<Longrightarrow> fst (alloc s) = x \<and> frees (snd (alloc s)) xs"
    and frees_distinct: "frees s xs \<Longrightarrow> distinct xs \<and> 0 \<notin> set xs"
    and frees_frame: "frees s xs \<Longrightarrow> x \<in> set xs \<Longrightarrow> frame s x"
    and alloc_frame: "frame (snd (alloc s)) x = frame s x"
    and release_some: "frees s xs \<Longrightarrow> frame s p \<Longrightarrow> p \<notin> set xs \<Longrightarrow>
          \<exists>s'. release s p = Some s' \<and> frees s' (p # xs)"
begin

lemma alloc_zero_iff: "frees s xs \<Longrightarrow> fst (alloc s) = 0 \<longleftrightarrow> xs = []"
  using alloc_none [of s] alloc_some [of s] frees_distinct [of s xs] by (cases xs) auto

lemma alloc_release:
  assumes "frees s xs" "fst (alloc s) \<noteq> 0"
  shows "\<exists>s'. release (snd (alloc s)) (fst (alloc s)) = Some s' \<and> frees s' xs"
proof -
  from assms obtain x ys where xs: "xs = x # ys" by (cases xs) (auto simp: alloc_none)
  with assms(1) have f: "frees s (x # ys)" by simp
  have "x \<notin> set ys" using frees_distinct [OF f] by simp
  moreover have "frame (snd (alloc s)) x" using frees_frame [OF f, of x] alloc_frame by simp
  ultimately show ?thesis
    using release_some [of "snd (alloc s)" ys x] alloc_some [OF f] xs by simp
qed

text \<open>\<open>n\<close> successive allocations return the first \<open>n\<close> free pages, all different.\<close>

primrec alloc_n :: "nat \<Rightarrow> 's \<Rightarrow> u64 list \<times> 's" where
  "alloc_n 0 s = ([], s)"
| "alloc_n (Suc n) s = (let (p, s1) = alloc s; (ps, s2) = alloc_n n s1 in (p # ps, s2))"

lemma alloc_n_take:
  "frees s xs \<Longrightarrow> n \<le> length xs \<Longrightarrow>
     fst (alloc_n n s) = take n xs \<and> frees (snd (alloc_n n s)) (drop n xs)"
proof (induction n arbitrary: s xs)
  case 0
  then show ?case by simp
next
  case (Suc n)
  then obtain x ys where xs: "xs = x # ys" by (cases xs) auto
  with Suc.prems have "fst (alloc s) = x" "frees (snd (alloc s)) ys" "n \<le> length ys"
    using alloc_some [of s x ys] by auto
  with Suc.IH [of "snd (alloc s)" ys] xs show ?case
    by (simp add: Let_def case_prod_beta)
qed

lemma alloc_n_distinct:
  "frees s xs \<Longrightarrow> n \<le> length xs \<Longrightarrow>
     distinct (fst (alloc_n n s)) \<and> set (fst (alloc_n n s)) \<inter> set (drop n xs) = {}"
  using alloc_n_take [of s xs n] frees_distinct [of s xs] set_take_disj_set_drop_if_distinct [of xs n n]
  by simp

end

interpretation kmem: page_allocator kalloc kfree kmem_inv ram_page
proof
  fix s :: phys and xs x p
  show "kmem_inv s [] \<Longrightarrow> kalloc s = (0, s)" by (rule kalloc_empty)
  show "kmem_inv s (x # xs) \<Longrightarrow> fst (kalloc s) = x \<and> kmem_inv (snd (kalloc s)) xs"
    using kalloc_inv_cons [OF _ surjective_pairing] by metis
  show "kmem_inv s xs \<Longrightarrow> distinct xs \<and> 0 \<notin> set xs"
    using kmem_inv_nonzero [of s xs] by (auto simp: kmem_inv_def)
  show "kmem_inv s xs \<Longrightarrow> x \<in> set xs \<Longrightarrow> ram_page s x" by (simp add: kmem_inv_def)
  show "ram_page (snd (kalloc s)) x = ram_page s x"
    using kalloc_kend [of s "fst (kalloc s)" "snd (kalloc s)"] by (simp add: ram_page_def)
  show "kmem_inv s xs \<Longrightarrow> ram_page s p \<Longrightarrow> p \<notin> set xs \<Longrightarrow>
      \<exists>s'. kfree s p = Some s' \<and> kmem_inv s' (p # xs)"
    using kfree_Some [of s p] kfree_inv [of s xs p] by blast
qed


section \<open>Properties\<close>

text \<open>
  C29: \<open>kalloc\<close> returns the null pointer and changes nothing exactly when no page is free;
  otherwise it takes the first free page off the list, so the page is in RAM, aligned and no
  longer free, fills it with the byte 5 and changes no other byte of memory.
\<close>

theorem kalloc_functional:
  assumes "kmem_inv s xs" "kalloc s = (p, s')"
  shows "if xs = [] then p = 0 \<and> s' = s
         else p = hd xs \<and> ram_page s p \<and> p \<notin> set (tl xs) \<and> kmem_inv s' (tl xs) \<and>
              (\<forall>y. mem s' y = (if PGROUNDDOWN y = p then 5 else mem s y))"
proof (cases xs)
  case Nil
  with assms show ?thesis by (simp add: kalloc_empty)
next
  case (Cons x ys)
  with assms(1) have x: "page_aligned x" by (auto simp: kmem_inv_def)
  from assms Cons kalloc_inv_cons [of s x ys p s']
  have "p = x \<and> ram_page s x \<and> x \<notin> set ys \<and> kmem_inv s' ys" by blast
  moreover have "mem s' = memset (mem s) x 5 4096"
    using kalloc_cons [of s x ys] assms Cons by simp
  ultimately show ?thesis using Cons x by (simp add: mem_simps)
qed

text \<open>A machine with two free pages, used by the witnesses.\<close>

definition two_pages :: phys where
  "two_pages = \<lparr>mem = store64 (store64 (\<lambda>_. 0) 0x87FFE000 0x87FFF000) 0x87FFF000 0,
                freelist = 0x87FFE000, kend = 0x80021000\<rparr>"

lemma two_pages_inv: "kmem_inv two_pages [0x87FFE000, 0x87FFF000]"
  by (simp add: two_pages_def kmem_inv_def ram_page_def page_aligned_def
      load64_store64_same load64_store64_other)

theorem kalloc_functional_witness:
  "\<exists>p s'. kalloc two_pages = (p, s') \<and> p = 0x87FFE000 \<and> kmem_inv s' [0x87FFF000] \<and> mem s' 0x87FFE123 = 5"
proof -
  obtain p s' where k: "kalloc two_pages = (p, s')" by (cases "kalloc two_pages")
  from kalloc_functional [OF two_pages_inv k] show ?thesis
    using k by (auto simp: PGROUNDDOWN_def)
qed

text \<open>
  C30: freeing the page that was just allocated restores the allocator: the release does not
  panic and the same pages are free again, in the same order.
\<close>

theorem kalloc_kfree_roundtrip:
  assumes "kmem_inv s xs" "kalloc s = (p, s')" "p \<noteq> 0"
  shows "\<exists>s''. kfree s' p = Some s'' \<and> kmem_inv s'' xs"
  using kmem.alloc_release [OF assms(1)] assms(2,3) by simp

theorem kalloc_kfree_roundtrip_witness:
  "\<exists>s''. kfree (snd (kalloc two_pages)) 0x87FFE000 = Some s'' \<and> kmem_inv s'' [0x87FFE000, 0x87FFF000]"
proof -
  have "kalloc two_pages = (0x87FFE000, snd (kalloc two_pages))"
    by (simp add: kalloc_cons [OF two_pages_inv])
  from kalloc_kfree_roundtrip [OF two_pages_inv this] show ?thesis by simp
qed

end
