(* ===== verification/Pagetable.thy ===== *)
theory Pagetable
  imports Kalloc
begin

text \<open>
  The page-table half of \<open>vm.c\<close>: the three-level Sv39 tables, which live in pages of physical
  memory, and the operations that build, read, copy and tear them down. \<open>vm_bonus.c\<close> repeats
  this half of \<open>vm.c\<close> word for word.
\<close>

section \<open>Operations\<close>

text \<open>
  The loop of \<open>walk\<close> from \<open>level\<close> down to 1. The result is the address of the level-0 entry,
  or 0 where the C code returns the null pointer.
\<close>

fun walk_loop :: "phys \<Rightarrow> u64 \<Rightarrow> u64 \<Rightarrow> bool \<Rightarrow> nat \<Rightarrow> u64 \<times> phys" where
  "walk_loop s pagetable va alloc 0 = (pagetable + 8 * PX 0 va, s)"
| "walk_loop s pagetable va alloc (Suc l) =
     (let pte = pagetable + 8 * PX (Suc l) va
      in if load64 (mem s) pte AND PTE_V \<noteq> 0
         then walk_loop s (PTE2PA (load64 (mem s) pte)) va alloc l
         else if \<not> alloc then (0, s)
         else (let (page, s1) = kalloc s
               in if page = 0 then (0, s1)
                  else let m1 = memset (mem s1) page 0 4096;
                           m2 = store64 m1 pte (PA2PTE page OR PTE_V)
                       in walk_loop (s1\<lparr>mem := m2\<rparr>) page va alloc l))"

definition walk :: "phys \<Rightarrow> u64 \<Rightarrow> u64 \<Rightarrow> bool \<Rightarrow> (u64 \<times> phys) option" where
  "walk s pagetable va alloc =
     (if va \<ge> MAXVA then None else Some (walk_loop s pagetable va alloc 2))"

definition walkaddr :: "phys \<Rightarrow> u64 \<Rightarrow> u64 \<Rightarrow> u64 option" where
  "walkaddr s pagetable va =
     (if va \<ge> MAXVA then Some 0
      else do {
        (pte, _) \<leftarrow> walk s pagetable va False;
        if pte = 0 then Some 0
        else if load64 (mem s) pte AND PTE_V = 0 then Some 0
        else if load64 (mem s) pte AND PTE_U = 0 then Some 0
        else Some (PTE2PA (load64 (mem s) pte))
      })"

text \<open>The loop of \<open>mappages\<close>; it ends because \<open>walk\<close> panics at \<open>MAXVA\<close>.\<close>

function mappages_loop :: "phys \<Rightarrow> u64 \<Rightarrow> u64 \<Rightarrow> u64 \<Rightarrow> u64 \<Rightarrow> u64 \<Rightarrow> (int \<times> phys) option" where
  "mappages_loop s pagetable a last' pa perm =
     Option.bind (walk s pagetable a True) (\<lambda>(pte, s1).
       if pte = 0 then Some (-1, s1)
       else if load64 (mem s1) pte AND PTE_V \<noteq> 0 then None
       else let s2 = s1\<lparr>mem := store64 (mem s1) pte (PA2PTE pa OR perm OR PTE_V)\<rparr>
            in if a = last' then Some (0, s2)
               else mappages_loop s2 pagetable (a + PGSIZE) last' (pa + PGSIZE) perm)"
  by pat_completeness auto
termination
proof (relation "measure (\<lambda>(s, pagetable, a, last', pa, perm). unat MAXVA - unat a)", goal_cases)
  case 1
  show ?case by (rule wf_measure)
next
  case (2 s pagetable a last' pa perm)
  then have "unat a < unat MAXVA" by (simp add: walk_def word_le_nat_alt split: if_splits)
  then show ?case by (simp add: unat_word_ariths)
qed

definition mappages :: "phys \<Rightarrow> u64 \<Rightarrow> u64 \<Rightarrow> u64 \<Rightarrow> u64 \<Rightarrow> u64 \<Rightarrow> (int \<times> phys) option" where
  "mappages s pagetable va sz pa perm =
     (if va mod PGSIZE \<noteq> 0 then None
      else if sz mod PGSIZE \<noteq> 0 then None
      else if sz = 0 then None
      else mappages_loop s pagetable va (va + sz - PGSIZE) pa perm)"

definition kvmmap :: "phys \<Rightarrow> u64 \<Rightarrow> u64 \<Rightarrow> u64 \<Rightarrow> u64 \<Rightarrow> u64 \<Rightarrow> phys option" where
  "kvmmap s kpgtbl va pa sz perm = do {
     (r, s1) \<leftarrow> mappages s kpgtbl va sz pa perm;
     if r \<noteq> 0 then None else Some s1
   }"

text \<open>\<open>proc_mapstacks\<close> of \<open>proc.c\<close>: a kernel stack page for each of the \<open>NPROC\<close> slots.\<close>

function proc_mapstacks_from :: "phys \<Rightarrow> u64 \<Rightarrow> nat \<Rightarrow> phys option" where
  "proc_mapstacks_from s kpgtbl p =
     (if p < NPROC
      then let (pa, s1) = kalloc s
           in if pa = 0 then None
              else Option.bind (kvmmap s1 kpgtbl (KSTACK (of_nat p)) pa PGSIZE (PTE_R OR PTE_W))
                     (\<lambda>s2. proc_mapstacks_from s2 kpgtbl (Suc p))
      else Some s)"
  by pat_completeness auto
termination
  by (relation "measure (\<lambda>(s, kpgtbl, p). NPROC - p)") auto

definition proc_mapstacks :: "phys \<Rightarrow> u64 \<Rightarrow> phys option" where
  "proc_mapstacks s kpgtbl = proc_mapstacks_from s kpgtbl 0"

text \<open>\<open>etext\<close> and \<open>trampoline\<close> are linker symbols, hence parameters.\<close>

definition kvmmake :: "u64 \<Rightarrow> u64 \<Rightarrow> phys \<Rightarrow> (u64 \<times> phys) option" where
  "kvmmake etext trampoline s =
     (let (kpgtbl, s1) = kalloc s;
          s2 = s1\<lparr>mem := memset (mem s1) kpgtbl 0 4096\<rparr>
      in do {
        s3 \<leftarrow> kvmmap s2 kpgtbl UART0 UART0 PGSIZE (PTE_R OR PTE_W);
        s4 \<leftarrow> kvmmap s3 kpgtbl VIRTIO0 VIRTIO0 PGSIZE (PTE_R OR PTE_W);
        s5 \<leftarrow> kvmmap s4 kpgtbl PLIC PLIC 0x4000000 (PTE_R OR PTE_W);
        s6 \<leftarrow> kvmmap s5 kpgtbl KERNBASE KERNBASE (etext - KERNBASE) (PTE_R OR PTE_X);
        s7 \<leftarrow> kvmmap s6 kpgtbl etext etext (PHYSTOP - etext) (PTE_R OR PTE_W);
        s8 \<leftarrow> kvmmap s7 kpgtbl TRAMPOLINE trampoline PGSIZE (PTE_R OR PTE_X);
        s9 \<leftarrow> proc_mapstacks s8 kpgtbl;
        Some (kpgtbl, s9)
      })"

definition uvmcreate :: "phys \<Rightarrow> u64 \<times> phys" where
  "uvmcreate s =
     (let (pagetable, s1) = kalloc s
      in if pagetable = 0 then (0, s1)
         else (pagetable, s1\<lparr>mem := memset (mem s1) pagetable 0 4096\<rparr>))"

text \<open>The loop of \<open>uvmunmap\<close>; a missing table page or an invalid entry is skipped.\<close>

function uvmunmap_loop :: "phys \<Rightarrow> u64 \<Rightarrow> u64 \<Rightarrow> u64 \<Rightarrow> bool \<Rightarrow> phys option" where
  "uvmunmap_loop s pagetable a end' do_free =
     (if a < end'
      then Option.bind (walk s pagetable a False) (\<lambda>(pte, _).
             if pte = 0 \<or> load64 (mem s) pte AND PTE_V = 0
             then uvmunmap_loop s pagetable (a + PGSIZE) end' do_free
             else Option.bind (if do_free then kfree s (PTE2PA (load64 (mem s) pte)) else Some s) (\<lambda>s1.
                    uvmunmap_loop (s1\<lparr>mem := store64 (mem s1) pte 0\<rparr>) pagetable (a + PGSIZE) end' do_free))
      else Some s)"
  by pat_completeness auto
termination
proof (relation "measure (\<lambda>(s, pagetable, a, end', do_free). unat MAXVA - unat a)", goal_cases)
  case 1
  show ?case by (rule wf_measure)
next
  case (2 s pagetable a end' do_free)
  then have "unat a < unat MAXVA" by (simp add: walk_def word_le_nat_alt split: if_splits)
  then show ?case by (simp add: unat_word_ariths)
next
  case (3 s pagetable a end' do_free)
  then have "unat a < unat MAXVA" by (simp add: walk_def word_le_nat_alt split: if_splits)
  then show ?case by (simp add: unat_word_ariths)
qed

definition uvmunmap :: "phys \<Rightarrow> u64 \<Rightarrow> u64 \<Rightarrow> u64 \<Rightarrow> bool \<Rightarrow> phys option" where
  "uvmunmap s pagetable va npages do_free =
     (if va mod PGSIZE \<noteq> 0 then None
      else uvmunmap_loop s pagetable va (va + npages * PGSIZE) do_free)"

definition uvmdealloc :: "phys \<Rightarrow> u64 \<Rightarrow> u64 \<Rightarrow> u64 \<Rightarrow> (u64 \<times> phys) option" where
  "uvmdealloc s pagetable oldsz newsz =
     (if newsz \<ge> oldsz then Some (oldsz, s)
      else if PGROUNDUP newsz < PGROUNDUP oldsz
      then let npages = (PGROUNDUP oldsz - PGROUNDUP newsz) div PGSIZE
           in do {
             s1 \<leftarrow> uvmunmap s pagetable (PGROUNDUP newsz) (scast (ucast npages :: u32)) True;
             Some (newsz, s1)
           }
      else Some (newsz, s))"


text \<open>
  The loop of \<open>uvmalloc\<close>. It ends because mapping a page at or above \<open>MAXVA\<close> panics.
\<close>

function uvmalloc_loop :: "phys \<Rightarrow> u64 \<Rightarrow> u64 \<Rightarrow> u64 \<Rightarrow> u64 \<Rightarrow> u64 \<Rightarrow> (u64 \<times> phys) option" where
  "uvmalloc_loop s pagetable a oldsz newsz xperm =
     (if a < newsz
      then let (page, s1) = kalloc s
           in if page = 0
              then Option.bind (uvmdealloc s1 pagetable a oldsz) (\<lambda>(_, s2). Some (0, s2))
              else let s2 = s1\<lparr>mem := memset (mem s1) page 0 4096\<rparr>
                   in Option.bind (mappages s2 pagetable a PGSIZE page (PTE_R OR PTE_U OR xperm))
                       (\<lambda>(r, s3).
                          if r \<noteq> 0
                          then Option.bind (kfree s3 page) (\<lambda>s4.
                                 Option.bind (uvmdealloc s4 pagetable a oldsz) (\<lambda>(_, s5). Some (0, s5)))
                          else uvmalloc_loop s3 pagetable (a + PGSIZE) oldsz newsz xperm)
      else Some (newsz, s))"
  by pat_completeness auto
termination
proof (relation "measure (\<lambda>(s, pagetable, a, oldsz, newsz, xperm). unat MAXVA - unat a)", goal_cases)
  case 1
  show ?case by (rule wf_measure)
next
  case (2 s pagetable a oldsz newsz xperm)
  then have "unat a < unat MAXVA"
    by (auto simp: mappages_def mappages_loop.simps [of _ _ a] walk_def word_le_nat_alt split: if_splits)
  then show ?case by (simp add: unat_word_ariths)
qed

definition uvmalloc :: "phys \<Rightarrow> u64 \<Rightarrow> u64 \<Rightarrow> u64 \<Rightarrow> u64 \<Rightarrow> (u64 \<times> phys) option" where
  "uvmalloc s pagetable oldsz newsz xperm =
     (if newsz < oldsz then Some (oldsz, s)
      else uvmalloc_loop s pagetable (PGROUNDUP oldsz) (PGROUNDUP oldsz) newsz xperm)"

text \<open>
  \<open>freewalk\<close> recurses into lower-level tables. The first argument bounds the depth of the
  recursion; a Sv39 tree has three levels, and \<open>None\<close> also stands for a deeper one.
\<close>

primrec freewalk :: "nat \<Rightarrow> phys \<Rightarrow> u64 \<Rightarrow> phys option" where
  "freewalk 0 s pagetable = None"
| "freewalk (Suc depth) s pagetable =
     Option.bind
       (fold_opt (\<lambda>i s.
          let pte = load64 (mem s) (pagetable + 8 * of_nat i)
          in if pte AND PTE_V \<noteq> 0 \<and> pte AND (PTE_R OR PTE_W OR PTE_X) = 0
             then Option.bind (freewalk depth s (PTE2PA pte)) (\<lambda>s1.
                    Some (s1\<lparr>mem := store64 (mem s1) (pagetable + 8 * of_nat i) 0\<rparr>))
             else if pte AND PTE_V \<noteq> 0 then None
             else Some s) [0..<512] s)
       (\<lambda>s1. kfree s1 pagetable)"

definition uvmfree :: "phys \<Rightarrow> u64 \<Rightarrow> u64 \<Rightarrow> phys option" where
  "uvmfree s pagetable sz = do {
     s1 \<leftarrow> (if sz > 0 then uvmunmap s pagetable 0 (PGROUNDUP sz div PGSIZE) True else Some s);
     freewalk 3 s1 pagetable
   }"

text \<open>The loop of \<open>uvmcopy\<close>; the \<open>err\<close> label unmaps what was copied so far.\<close>

function uvmcopy_loop :: "phys \<Rightarrow> u64 \<Rightarrow> u64 \<Rightarrow> u64 \<Rightarrow> u64 \<Rightarrow> (int \<times> phys) option" where
  "uvmcopy_loop s old new i sz =
     (if i < sz
      then Option.bind (walk s old i False) (\<lambda>(pte, _).
             if pte = 0 \<or> load64 (mem s) pte AND PTE_V = 0
             then uvmcopy_loop s old new (i + PGSIZE) sz
             else let pa = PTE2PA (load64 (mem s) pte);
                      flags = PTE_FLAGS (load64 (mem s) pte);
                      (page, s1) = kalloc s
                  in if page = 0
                     then Option.bind (uvmunmap s1 new 0 (i div PGSIZE) True) (\<lambda>s2. Some (-1, s2))
                     else let s2 = s1\<lparr>mem := memmove (mem s1) page pa 4096\<rparr>
                          in Option.bind (mappages s2 new i PGSIZE page flags) (\<lambda>(r, s3).
                               if r \<noteq> 0
                               then Option.bind (kfree s3 page) (\<lambda>s4.
                                      Option.bind (uvmunmap s4 new 0 (i div PGSIZE) True) (\<lambda>s5.
                                        Some (-1, s5)))
                               else uvmcopy_loop s3 old new (i + PGSIZE) sz))
      else Some (0, s))"
  by pat_completeness auto
termination
proof (relation "measure (\<lambda>(s, old, new, i, sz). unat MAXVA - unat i)", goal_cases)
  case 1
  show ?case by (rule wf_measure)
next
  case (2 s old new i sz)
  then have "unat i < unat MAXVA" by (simp add: walk_def word_le_nat_alt split: if_splits)
  then show ?case by (simp add: unat_word_ariths)
next
  case (3 s old new i sz)
  then have "unat i < unat MAXVA" by (simp add: walk_def word_le_nat_alt split: if_splits)
  then show ?case by (simp add: unat_word_ariths)
qed

definition uvmcopy :: "phys \<Rightarrow> u64 \<Rightarrow> u64 \<Rightarrow> u64 \<Rightarrow> (int \<times> phys) option" where
  "uvmcopy s old new sz = uvmcopy_loop s old new 0 sz"

definition uvmclear :: "phys \<Rightarrow> u64 \<Rightarrow> u64 \<Rightarrow> phys option" where
  "uvmclear s pagetable va = do {
     (pte, _) \<leftarrow> walk s pagetable va False;
     if pte = 0 then None
     else Some (s\<lparr>mem := store64 (mem s) pte (load64 (mem s) pte AND NOT PTE_U)\<rparr>)
   }"

definition ismapped :: "phys \<Rightarrow> u64 \<Rightarrow> u64 \<Rightarrow> bool option" where
  "ismapped s pagetable va = do {
     (pte, _) \<leftarrow> walk s pagetable va False;
     Some (pte \<noteq> 0 \<and> load64 (mem s) pte AND PTE_V \<noteq> 0)
   }"

declare mappages_loop.simps [simp del] uvmunmap_loop.simps [simp del] uvmalloc_loop.simps [simp del]
  uvmcopy_loop.simps [simp del] proc_mapstacks_from.simps [simp del]

end
