(* ===== verification/Sv39.thy ===== *)
theory Sv39
  imports Pagetable
begin

text \<open>
  The page table as a tree and as a map. \<open>tbl m root is\<close> is the table page reached from the root
  by the indices \<open>is\<close>, \<open>pte_of m root va\<close> the leaf entry of a virtual address (0 where no leaf
  table exists). The invariant \<open>pt_inv\<close> keeps the table pages distinct, in RAM and off the free
  list; under it \<open>walk\<close> never changes the map, and the other operations change exactly the
  entries of the pages they are given.
\<close>

section \<open>Tables and leaf entries\<close>

fun tbl :: "memory \<Rightarrow> u64 \<Rightarrow> u64 list \<Rightarrow> u64 option" where
  "tbl m t [] = Some t"
| "tbl m t (i # js) =
     (if load64 m (t + 8 * i) AND PTE_V \<noteq> 0 then tbl m (PTE2PA (load64 m (t + 8 * i))) js else None)"

definition pte_of :: "memory \<Rightarrow> u64 \<Rightarrow> u64 \<Rightarrow> u64" where
  "pte_of m root va =
     (case tbl m root [PX 2 va, PX 1 va] of None \<Rightarrow> 0 | Some t \<Rightarrow> load64 m (t + 8 * PX 0 va))"

definition is_path :: "u64 list \<Rightarrow> bool" where
  "is_path js \<longleftrightarrow> length js \<le> 2 \<and> (\<forall>i \<in> set js. i < 512)"

definition pt_pages :: "memory \<Rightarrow> u64 \<Rightarrow> u64 set" where
  "pt_pages m root = {t. \<exists>js. is_path js \<and> tbl m root js = Some t}"

definition pt_inv :: "phys \<Rightarrow> u64 \<Rightarrow> u64 list \<Rightarrow> bool" where
  "pt_inv s root xs \<longleftrightarrow>
     kmem_inv s xs \<and> (\<forall>t \<in> pt_pages (mem s) root. ram_page s t \<and> t \<notin> set xs) \<and>
     (\<forall>js ks t. is_path js \<and> is_path ks \<and> tbl (mem s) root js = Some t \<and> tbl (mem s) root ks = Some t
        \<longrightarrow> js = ks)"

lemma tbl_snoc:
  "tbl m r (js @ [i]) = Option.bind (tbl m r js) (\<lambda>t.
     if load64 m (t + 8 * i) AND PTE_V \<noteq> 0 then Some (PTE2PA (load64 m (t + 8 * i))) else None)"
  by (induction js arbitrary: r) auto

lemma is_path_snoc: "is_path (js @ [i]) \<longleftrightarrow> length js < 2 \<and> is_path js \<and> i < 512"
  by (auto simp: is_path_def)

lemma is_path_PX [simp]: "is_path [PX a va, PX b va]" "is_path [PX a va]" "is_path []"
  by (auto simp: is_path_def PX_bound)

lemma pt_pagesI: "is_path js \<Longrightarrow> tbl m r js = Some t \<Longrightarrow> t \<in> pt_pages m r"
  by (auto simp: pt_pages_def)

lemma root_in_pt_pages [simp]: "r \<in> pt_pages m r"
  by (rule pt_pagesI [of "[]"]) simp_all

lemma pt_inv_pageD:
  assumes "pt_inv s r xs" "is_path js" "tbl (mem s) r js = Some t"
  shows "page_aligned t" and "ram_page s t" and "t \<notin> set xs"
  using assms by (auto simp: pt_inv_def dest: pt_pagesI)

lemma pt_inv_inj:
  "pt_inv s r xs \<Longrightarrow> is_path js \<Longrightarrow> is_path ks \<Longrightarrow> tbl (mem s) r js = Some t \<Longrightarrow>
   tbl (mem s) r ks = Some t \<Longrightarrow> js = ks"
  by (auto simp: pt_inv_def)

lemma pt_inv_kmem: "pt_inv s r xs \<Longrightarrow> kmem_inv s xs"
  by (simp add: pt_inv_def)

lemma tbl_None_snoc: "tbl m r js = None \<Longrightarrow> tbl m r (js @ ks) = None"
  by (induction js arbitrary: r) auto

declare tbl.simps(2) [simp del]

text \<open>Entries of a page that is left alone.\<close>

lemma entry_cong:
  assumes "page_aligned t" "i < 512" "\<And>y. PGROUNDDOWN y = t \<Longrightarrow> m' y = m y"
  shows "load64 m' (t + 8 * i) = load64 m (t + 8 * i)"
proof (rule load64_page_cong)
  show "unat (t + 8 * i) mod 8 = 0" using assms(1,2) by (rule entry_in_page(3))
  show "m' x = m x" if "PGROUNDDOWN x = PGROUNDDOWN (t + 8 * i)" for x
    using that assms(3) [of x] entry_in_page(1) [OF assms(1,2)] by simp
qed

lemma entry_addr_inj:
  assumes "page_aligned t" "page_aligned u" "i < 512" "j < 512"
  shows "t + 8 * i = u + 8 * j \<longleftrightarrow> t = u \<and> i = j"
proof
  assume eq: "t + 8 * i = u + 8 * j"
  then have tu: "t = u"
    using entry_in_page(1) [OF assms(1,3)] entry_in_page(1) [OF assms(2,4)] by simp
  with eq have "unat i = unat j"
    using entry_in_page(2) [OF assms(1,3)] entry_in_page(2) [OF assms(2,4)] by simp
  with tu show "t = u \<and> i = j" by (simp add: word_eq_iff_unat)
qed simp

lemma entry_store:
  assumes "page_aligned t" "page_aligned u" "i < 512" "j < 512"
  shows "load64 (store64 m (t + 8 * i) v) (u + 8 * j) = (if t = u \<and> i = j then v else load64 m (u + 8 * j))"
  using entry_addr_inj [OF assms] entry_in_page(3) [OF assms(1,3)] entry_in_page(3) [OF assms(2,4)]
  by (auto simp: load64_store64_same load64_store64_other)

lemma entry_zero_page:
  assumes "page_aligned t" "i < 512" "\<And>y. PGROUNDDOWN y = t \<Longrightarrow> m y = 0"
  shows "load64 m (t + 8 * i) = 0"
proof -
  have "load64 m (t + 8 * i) = load64 (\<lambda>_. 0) (t + 8 * i)"
    using assms by (intro entry_cong) auto
  then show ?thesis by (simp add: load64_def)
qed

lemma tbl_cong:
  assumes "pt_inv s r xs" "is_path js"
    and "\<And>t y. t \<in> pt_pages (mem s) r \<Longrightarrow> PGROUNDDOWN y = t \<Longrightarrow> m' y = mem s y"
  shows "tbl m' r js = tbl (mem s) r js"
  using assms(2)
proof (induction js rule: rev_induct)
  case Nil
  then show ?case by simp
next
  case (snoc i js)
  then have js: "is_path js" and i: "i < 512" and IH: "tbl m' r js = tbl (mem s) r js"
    by (auto simp: is_path_snoc)
  show ?case
  proof (cases "tbl (mem s) r js")
    case None
    then show ?thesis by (simp add: tbl_snoc IH)
  next
    case (Some t)
    have "load64 m' (t + 8 * i) = load64 (mem s) (t + 8 * i)"
      using assms(3) pt_pagesI [OF js Some] pt_inv_pageD(1) [OF assms(1) js Some] i
      by (intro entry_cong) auto
    then show ?thesis by (simp add: tbl_snoc IH Some)
  qed
qed

section \<open>Adding a table page\<close>

text \<open>
  \<open>linked\<close> is the memory after \<open>walk\<close> has zeroed the fresh page \<open>x\<close> and stored its address in
  entry \<open>i\<close> of the table \<open>q\<close>.
\<close>

definition linked :: "memory \<Rightarrow> u64 \<Rightarrow> u64 \<Rightarrow> u64 \<Rightarrow> memory" where
  "linked m q i x = store64 (memset m x 0 4096) (q + 8 * i) (PA2PTE x OR PTE_V)"

lemma linked_entry:
  assumes "page_aligned q" "page_aligned x" "page_aligned t" "i < 512" "j < 512" "q \<noteq> x"
  shows "load64 (linked m q i x) (t + 8 * j) =
    (if t = q \<and> j = i then PA2PTE x OR PTE_V else if t = x then 0 else load64 m (t + 8 * j))"
proof -
  have z: "load64 (memset m x 0 4096) (t + 8 * j) = (if t = x then 0 else load64 m (t + 8 * j))"
    using assms by (auto intro!: entry_zero_page entry_cong simp: mem_simps)
  show ?thesis
    unfolding linked_def entry_store [OF assms(1,3,4,5)] z using assms(6) by auto
qed

lemma PA2PTE_V: "(PA2PTE x OR PTE_V) AND PTE_V \<noteq> 0" "page_aligned x \<Longrightarrow> PTE2PA (PA2PTE x OR PTE_V) = x"
  using PTE2PA_PA2PTE [of x PTE_V] PTE_tests(1) [of "PA2PTE x OR PTE_V"] by (auto simp: bit_simps)

lemma tbl_linked:
  assumes inv: "pt_inv s r xs" and q: "tbl (mem s) r ps = Some q" and ps: "is_path (ps @ [i])"
    and e: "load64 (mem s) (q + 8 * i) AND PTE_V = 0"
    and x: "page_aligned x" "x \<notin> pt_pages (mem s) r"
    and js: "is_path js"
  shows "tbl (linked (mem s) q i x) r js = (if js = ps @ [i] then Some x else tbl (mem s) r js)"
  using js
proof (induction js rule: rev_induct)
  case Nil
  then show ?case by simp
next
  case (snoc j js)
  then have js: "is_path js" and j: "j < 512" by (auto simp: is_path_snoc)
  have ps': "is_path ps" "i < 512" using ps by (auto simp: is_path_snoc)
  have qa: "page_aligned q" using pt_inv_pageD(1) [OF inv ps'(1) q] .
  have qx: "q \<noteq> x" using x(2) pt_pagesI [OF ps'(1) q] by auto
  note le = linked_entry [OF qa x(1) _ ps'(2) j qx]
  from snoc js have IH: "tbl (linked (mem s) q i x) r js = (if js = ps @ [i] then Some x else tbl (mem s) r js)"
    by blast
  have none: "tbl (mem s) r (ps @ [i]) = None" using q e by (simp add: tbl_snoc)
  show ?case
  proof (cases "js = ps @ [i]")
    case True
    with IH have "tbl (linked (mem s) q i x) r js = Some x" by simp
    then have "tbl (linked (mem s) q i x) r (js @ [j]) = None"
      using le [OF x(1)] qx by (simp add: tbl_snoc)
    moreover have "tbl (mem s) r (js @ [j]) = None"
      using tbl_None_snoc [OF none, of "[j]"] True by simp
    ultimately show ?thesis using True by simp
  next
    case False
    show ?thesis
    proof (cases "tbl (mem s) r js")
      case None
      then have "js \<noteq> ps" using q by auto
      then show ?thesis using IH None False by (simp add: tbl_snoc)
    next
      case (Some t)
      have t: "page_aligned t" "t \<noteq> x"
        using pt_inv_pageD(1) [OF inv js Some] x(2) pt_pagesI [OF js Some] by auto
      have "t = q \<longleftrightarrow> js = ps" using pt_inv_inj [OF inv js ps'(1) Some] q Some by auto
      then show ?thesis
        using IH False Some le [OF t(1)] t PA2PTE_V [of x] x(1) by (auto simp: tbl_snoc)
    qed
  qed
qed


section \<open>Growing the tree leaves the map alone\<close>

text \<open>
  \<open>pt_ext r s xs s' ys\<close>: from \<open>s\<close> with free pages \<open>xs\<close> to \<open>s'\<close> with free pages \<open>ys\<close> the tree at
  \<open>r\<close> may have gained table pages from the front of the free list; no leaf entry and no byte
  outside the tables and the formerly free pages has changed.
\<close>

definition pt_ext :: "u64 \<Rightarrow> phys \<Rightarrow> u64 list \<Rightarrow> phys \<Rightarrow> u64 list \<Rightarrow> bool" where
  "pt_ext r s xs s' ys \<longleftrightarrow>
     pt_inv s' r ys \<and> kend s' = kend s \<and>
     (\<exists>us. xs = us @ ys \<and> pt_pages (mem s') r = pt_pages (mem s) r \<union> set us) \<and>
     (\<forall>va. pte_of (mem s') r va = pte_of (mem s) r va) \<and>
     (\<forall>js t. is_path js \<longrightarrow> tbl (mem s) r js = Some t \<longrightarrow> tbl (mem s') r js = Some t) \<and>
     (\<forall>y. PGROUNDDOWN y \<notin> pt_pages (mem s) r \<union> set xs \<longrightarrow> mem s' y = mem s y)"

lemma pt_ext_refl: "pt_inv s r xs \<Longrightarrow> pt_ext r s xs s xs"
  by (auto simp: pt_ext_def)

lemma pt_ext_trans:
  assumes "pt_ext r s xs s1 ys" "pt_ext r s1 ys s2 zs"
  shows "pt_ext r s xs s2 zs"
proof -
  from assms(1) obtain us where us: "xs = us @ ys" "pt_pages (mem s1) r = pt_pages (mem s) r \<union> set us"
    by (auto simp: pt_ext_def)
  from assms(2) obtain vs where vs: "ys = vs @ zs" "pt_pages (mem s2) r = pt_pages (mem s1) r \<union> set vs"
    by (auto simp: pt_ext_def)
  have "xs = (us @ vs) @ zs" "pt_pages (mem s2) r = pt_pages (mem s) r \<union> set (us @ vs)"
    using us vs by auto
  moreover have "mem s2 y = mem s y" if "PGROUNDDOWN y \<notin> pt_pages (mem s) r \<union> set xs" for y
    using that assms us vs by (auto simp: pt_ext_def)
  ultimately show ?thesis using assms unfolding pt_ext_def by (metis (no_types, lifting))
qed

lemma memset_twice: "page_aligned x \<Longrightarrow> memset (memset m x c 4096) x d 4096 = memset m x d 4096"
  by (auto simp: fun_eq_iff mem_simps)

text \<open>
  The situation in which \<open>walk\<close> adds the page \<open>x\<close>: it is the first free page, and entry \<open>i\<close> of
  the interior table \<open>q\<close> is not valid.
\<close>

definition link_ok :: "phys \<Rightarrow> u64 \<Rightarrow> u64 list \<Rightarrow> u64 \<Rightarrow> u64 list \<Rightarrow> u64 \<Rightarrow> u64 \<Rightarrow> bool" where
  "link_ok s r xs x ps q i \<longleftrightarrow>
     pt_inv s r (x # xs) \<and> tbl (mem s) r ps = Some q \<and> is_path (ps @ [i]) \<and>
     load64 (mem s) (q + 8 * i) AND PTE_V = 0"

lemma link_okD:
  assumes "link_ok s r xs x ps q i"
  shows "pt_inv s r (x # xs)" "tbl (mem s) r ps = Some q" "is_path (ps @ [i])" "is_path ps" "i < 512"
    "load64 (mem s) (q + 8 * i) AND PTE_V = 0" "page_aligned x" "x \<notin> pt_pages (mem s) r"
    "page_aligned q" "q \<noteq> x" "q \<notin> set xs" "x \<notin> set xs" "tbl (mem s) r (ps @ [i]) = None"
proof -
  show l: "pt_inv s r (x # xs)" "tbl (mem s) r ps = Some q" "is_path (ps @ [i])"
    "load64 (mem s) (q + 8 * i) AND PTE_V = 0" using assms by (auto simp: link_ok_def)
  show p: "is_path ps" "i < 512" using l by (auto simp: is_path_snoc)
  show "page_aligned x" "x \<notin> pt_pages (mem s) r" "x \<notin> set xs"
    using l(1) by (auto simp: pt_inv_def kmem_inv_def)
  show "page_aligned q" "q \<noteq> x" "q \<notin> set xs" using pt_inv_pageD [OF l(1) p(1) l(2)] by auto
  show "tbl (mem s) r (ps @ [i]) = None" using l by (simp add: tbl_snoc)
qed

lemma link_tbl:
  assumes "link_ok s r xs x ps q i" "is_path js"
  shows "tbl (linked (mem s) q i x) r js = (if js = ps @ [i] then Some x else tbl (mem s) r js)"
  using tbl_linked [OF link_okD(1,2,3,6,7,8) [OF assms(1)] assms(2)] .

lemma link_frame:
  assumes "link_ok s r xs x ps q i" "PGROUNDDOWN y \<noteq> q" "PGROUNDDOWN y \<noteq> x"
  shows "linked (mem s) q i x y = mem s y"
  using assms(2,3) link_okD [OF assms(1)] entry_in_page [OF link_okD(9,5) [OF assms(1)]]
  by (simp add: linked_def mem_simps)

lemma link_pages:
  assumes "link_ok s r xs x ps q i"
  shows "pt_pages (linked (mem s) q i x) r = insert x (pt_pages (mem s) r)"
proof -
  note l = link_okD [OF assms] and t = link_tbl [OF assms]
  have "is_path js \<and> tbl (linked (mem s) q i x) r js = Some y \<longleftrightarrow>
      is_path js \<and> (js = ps @ [i] \<and> y = x \<or> tbl (mem s) r js = Some y)" for js y
    using t [of js] l(13) by (cases "js = ps @ [i]") auto
  then show ?thesis using l(3) by (auto simp: pt_pages_def)
qed

lemma link_pte_of:
  assumes "link_ok s r xs x ps q i"
  shows "pte_of (linked (mem s) q i x) r va = pte_of (mem s) r va"
proof -
  let ?js = "[PX 2 va, PX 1 va]"
  note l = link_okD [OF assms]
  have t: "tbl (linked (mem s) q i x) r ?js = (if ?js = ps @ [i] then Some x else tbl (mem s) r ?js)"
    by (rule link_tbl [OF assms]) simp
  note le = linked_entry [OF l(9,7) _ l(5) PX_bound l(10)]
  show ?thesis
  proof (cases "?js = ps @ [i]")
    case True
    then have "tbl (linked (mem s) q i x) r ?js = Some x" "tbl (mem s) r ?js = None"
      using t l(13) True by (simp_all only: if_True)
    then show ?thesis using le [OF l(7)] l(10) by (simp add: pte_of_def)
  next
    case False
    then have t': "tbl (linked (mem s) q i x) r ?js = tbl (mem s) r ?js" using t by (simp only: if_False)
    show ?thesis
    proof (cases "tbl (mem s) r ?js")
      case None
      then show ?thesis using t' by (simp add: pte_of_def)
    next
      case (Some u)
      have "page_aligned u" "u \<noteq> x"
        using pt_inv_pageD(1) [OF l(1) is_path_PX(1) Some] l(8) pt_pagesI [OF is_path_PX(1) Some] by auto
      moreover have "u \<noteq> q"
        using pt_inv_inj [OF l(1) is_path_PX(1) l(4) Some] l(2,3) by (auto simp: is_path_snoc)
      ultimately show ?thesis using t' Some le [of u] by (simp add: pte_of_def)
    qed
  qed
qed

lemma link_inv:
  assumes ok: "link_ok s r xs x ps q i" and k: "kalloc s = (x, s1)"
  shows "pt_inv (s1\<lparr>mem := linked (mem s) q i x\<rparr>) r xs"
proof -
  let ?m = "linked (mem s) q i x"
  note l = link_okD [OF ok] and t = link_tbl [OF ok]
  note ki = kalloc_inv_cons [OF pt_inv_kmem [OF l(1)] k]
  have s1: "mem s1 = memset (mem s) x 5 4096" "kend s1 = kend s"
    using kalloc_cons [OF pt_inv_kmem [OF l(1)]] k by auto
  have "free_chain ?m (freelist s1) xs = free_chain (mem s1) (freelist s1) xs"
  proof (rule free_chain_cong)
    show "\<forall>z \<in> set xs. page_aligned z" using ki(2) by (auto simp: kmem_inv_def)
    fix z y assume "z \<in> set xs" "PGROUNDDOWN y = z"
    then show "?m y = mem s1 y" using link_frame [OF ok, of y] l by (auto simp: s1 mem_simps)
  qed
  then have "kmem_inv (s1\<lparr>mem := ?m\<rparr>) xs" using ki(2) by (simp add: kmem_inv_def ram_page_def)
  moreover have "ram_page (s1\<lparr>mem := ?m\<rparr>) u \<and> u \<notin> set xs" if "u \<in> pt_pages ?m r" for u
    using that link_pages [OF ok] l(1,12) ki(3) s1(2) by (auto simp: pt_inv_def ram_page_def)
  moreover have "js = ks" if "is_path js" "is_path ks" "tbl ?m r js = Some u" "tbl ?m r ks = Some u" for js ks u
  proof -
    have "u = x \<longleftrightarrow> js = ps @ [i]" "u = x \<longleftrightarrow> ks = ps @ [i]"
      using that t [of js] t [of ks] l(8) by (auto dest: pt_pagesI split: if_splits)
    then show ?thesis using that t [of js] t [of ks] pt_inv_inj [OF l(1), of js ks u] by (auto split: if_splits)
  qed
  ultimately show ?thesis by (auto simp: pt_inv_def)
qed

lemma pt_ext_link:
  assumes ok: "link_ok s r xs x ps q i" and k: "kalloc s = (x, s1)"
  shows "pt_ext r s (x # xs) (s1\<lparr>mem := linked (mem s) q i x\<rparr>) xs"
proof -
  let ?m = "linked (mem s) q i x"
  note l = link_okD [OF ok]
  have "kend s1 = kend s" using kalloc_kend [OF k] .
  moreover have "?m y = mem s y" if "PGROUNDDOWN y \<notin> pt_pages (mem s) r \<union> set (x # xs)" for y
    using link_frame [OF ok, of y] that pt_pagesI [OF l(4,2)] by auto
  moreover have "tbl ?m r js = Some t" if "is_path js" "tbl (mem s) r js = Some t" for js t
    using link_tbl [OF ok that(1)] that l(13) by auto
  moreover have "x # xs = [x] @ xs \<and> pt_pages ?m r = pt_pages (mem s) r \<union> set [x]"
    using link_pages [OF ok] by auto
  moreover have "mem (s1\<lparr>mem := ?m\<rparr>) = ?m" "kend (s1\<lparr>mem := ?m\<rparr>) = kend s1" by simp_all
  ultimately show ?thesis
    using link_inv [OF ok k] link_pte_of [OF ok] unfolding pt_ext_def by (metis (no_types, lifting))
qed

section \<open>The behaviour of \<open>walk\<close>\<close>

text \<open>The indices \<open>walk\<close> follows below level \<open>l\<close>: \<open>PX l va, \<dots>, PX 1 va\<close>.\<close>

primrec vpath :: "nat \<Rightarrow> u64 \<Rightarrow> u64 list" where
  "vpath 0 va = []"
| "vpath (Suc l) va = PX (Suc l) va # vpath l va"

lemma vpath_2: "vpath 2 va = [PX 2 va, PX 1 va]"
  by (simp add: numeral_2_eq_2)

lemma walk_loop_noalloc:
  "walk_loop s t va False l =
     (case tbl (mem s) t (vpath l va) of None \<Rightarrow> (0, s) | Some u \<Rightarrow> (u + 8 * PX 0 va, s))"
proof (induction l arbitrary: t)
  case 0
  then show ?case by simp
next
  case (Suc l)
  show ?case by (cases "load64 (mem s) (t + 8 * PX (Suc l) va) AND PTE_V = 0")
      (simp_all add: tbl.simps Let_def Suc.IH)
qed

lemma walk_noalloc:
  assumes "va < MAXVA"
  shows "walk s r va False =
     Some (case tbl (mem s) r [PX 2 va, PX 1 va] of None \<Rightarrow> (0, s) | Some t \<Rightarrow> (t + 8 * PX 0 va, s))"
  using assms by (simp add: walk_def not_le walk_loop_noalloc vpath_2)

lemma walk_loop_alloc:
  assumes "pt_inv s r xs" "tbl (mem s) r ps = Some t" "is_path ps" "length ps + l \<le> 2"
    and "walk_loop s t va True l = (pte, s')"
  shows "\<exists>ys. pt_ext r s xs s' ys \<and>
     (pte = 0 \<longrightarrow> length xs < l) \<and>
     (pte \<noteq> 0 \<longrightarrow> (\<exists>u. tbl (mem s') r (ps @ vpath l va) = Some u \<and> pte = u + 8 * PX 0 va))"
  using assms
proof (induction l arbitrary: s t ps xs)
  case 0
  have "page_aligned t" "ram_page s t" by (rule pt_inv_pageD [OF 0(1,3,2)])+
  then have "unat (t + 8 * PX 0 va) \<noteq> 0"
    using entry_in_page(2) [OF _ PX_bound, of t 0 va] 0(1) by (auto simp: pt_inv_def kmem_inv_def ram_page_def word_le_nat_alt word_less_nat_alt)
  then have "t + 8 * PX 0 va \<noteq> 0" by auto
  then show ?case using 0 pt_ext_refl [OF 0(1)] by auto
next
  case (Suc l)
  let ?i = "PX (Suc l) va"
  have path: "is_path (ps @ [?i])" using Suc.prems(3,4) PX_bound by (simp add: is_path_snoc)
  show ?case
  proof (cases "load64 (mem s) (t + 8 * ?i) AND PTE_V = 0")
    case False
    then have "tbl (mem s) r (ps @ [?i]) = Some (PTE2PA (load64 (mem s) (t + 8 * ?i)))"
      using Suc.prems(2) by (simp add: tbl_snoc)
    from Suc.IH [OF Suc.prems(1) this path] Suc.prems False show ?thesis
      by (fastforce simp: Let_def)
  next
    case True
    obtain x s1 where k: "kalloc s = (x, s1)" by (cases "kalloc s")
    show ?thesis
    proof (cases xs)
      case Nil
      then have "pte = 0" "s' = s"
        using Suc.prems True kalloc_empty [of s] by (auto simp: pt_inv_def Let_def)
      then show ?thesis using Nil pt_ext_refl [OF Suc.prems(1)] by auto
    next
      case (Cons z zs)
      have kc: "kalloc s = (z, s\<lparr>freelist := load64 (mem s) z, mem := memset (mem s) z 5 4096\<rparr>)"
        using kalloc_cons [of s z zs] Suc.prems(1) Cons by (simp add: pt_inv_def)
      then have xz: "x = z" using k by simp
      have ok: "link_ok s r zs z ps t ?i"
        using Suc.prems Cons True path by (simp add: link_ok_def)
      let ?s2 = "s1\<lparr>mem := linked (mem s) t ?i z\<rparr>"
      have ext: "pt_ext r s xs ?s2 zs" using pt_ext_link [OF ok] k xz Cons by simp
      have z: "z \<noteq> 0" using kmem_inv_nonzero [OF pt_inv_kmem [OF Suc.prems(1)]] Cons by simp
      have "linked (mem s) t ?i z = store64 (memset (mem s1) z 0 4096) (t + 8 * ?i) (PA2PTE z OR PTE_V)"
        using k kc link_okD(7) [OF ok] by (auto simp: linked_def memset_twice)
      then have "walk_loop ?s2 z va True l = (pte, s')"
        using Suc.prems(5) True k xz z by (simp add: Let_def)
      moreover have "tbl (mem ?s2) r (ps @ [?i]) = Some z" using link_tbl [OF ok path] by simp
      moreover have "pt_inv ?s2 r zs" using ext by (simp add: pt_ext_def)
      ultimately obtain ys where ys: "pt_ext r ?s2 zs s' ys" "pte = 0 \<longrightarrow> length zs < l"
        "pte \<noteq> 0 \<longrightarrow> (\<exists>u. tbl (mem s') r ((ps @ [?i]) @ vpath l va) = Some u \<and> pte = u + 8 * PX 0 va)"
        using Suc.IH [of ?s2 zs "ps @ [?i]" z] path Suc.prems(4) by auto
      then show ?thesis using pt_ext_trans [OF ext ys(1)] Cons by auto
    qed
  qed
qed


section \<open>Changing a leaf entry\<close>

lemma unat_PX: "unat (PX l va) = unat va div 2 ^ (12 + 9 * l) mod 512"
proof -
  have "PX l va = take_bit 9 (drop_bit (12 + 9 * l) va)"
    by (simp add: PX_def PXSHIFT_def take_bit_eq_mask mask_eq_exp_minus_1)
  then show ?thesis
    by (simp only: unsigned_take_bit_eq unat_drop_bit_eq) (simp add: take_bit_eq_mod drop_bit_eq_div)
qed

lemma split_pageno:
  fixes n :: nat
  assumes "n < 2 ^ 27"
  shows "n = n div 2 ^ 18 mod 512 * 2 ^ 18 + n div 512 mod 512 * 512 + n mod 512"
proof -
  define a b where "a = n div 512" and "b = a div 512"
  have "n div 2 ^ 18 mod 512 = b" using assms by (simp add: a_def b_def flip: div_mult2_eq)
  moreover have "a = b * 512 + a mod 512" by (simp add: b_def)
  moreover have "n = a * 512 + n mod 512" by (simp add: a_def)
  ultimately show ?thesis unfolding a_def [symmetric] by simp
qed

text \<open>Two addresses have the same three indices exactly when they are on the same page.\<close>

lemma PX_eq_iff:
  assumes "va < MAXVA" "vb < MAXVA"
  shows "PX 2 va = PX 2 vb \<and> PX 1 va = PX 1 vb \<and> PX 0 va = PX 0 vb \<longleftrightarrow> PGROUNDDOWN va = PGROUNDDOWN vb"
proof -
  let ?a = "unat va div 4096" and ?b = "unat vb div 4096"
  have b: "?a < 2 ^ 27" "?b < 2 ^ 27" using assms by (simp_all add: word_less_nat_alt)
  have px: "unat (PX 2 v) = unat v div 4096 div 2 ^ 18 mod 512" "unat (PX 1 v) = unat v div 4096 div 512 mod 512"
    "unat (PX 0 v) = unat v div 4096 mod 512" for v
    by (simp_all add: unat_PX flip: div_mult2_eq)
  have "?a = ?b" if "PX 2 va = PX 2 vb" "PX 1 va = PX 1 vb" "PX 0 va = PX 0 vb"
    using split_pageno [OF b(1)] split_pageno [OF b(2)] px [of va] px [of vb] that by simp
  moreover have "PX 2 va = PX 2 vb \<and> PX 1 va = PX 1 vb \<and> PX 0 va = PX 0 vb" if "?a = ?b"
    using px [of va] px [of vb] that by (simp add: word_eq_iff_unat)
  ultimately show ?thesis by (auto simp: word_eq_iff_unat [of "PGROUNDDOWN va"] unat_PGROUNDDOWN)
qed

lemma leaf_store_tbl:
  assumes "pt_inv s r xs" "tbl (mem s) r ls = Some t" "is_path ls" "length ls = 2" "i < 512" "is_path js"
  shows "tbl (store64 (mem s) (t + 8 * i) v) r js = tbl (mem s) r js"
  using assms(6)
proof (induction js rule: rev_induct)
  case Nil
  then show ?case by simp
next
  case (snoc j js)
  then have js: "is_path js" "length js < 2" and j: "j < 512"
    and IH: "tbl (store64 (mem s) (t + 8 * i) v) r js = tbl (mem s) r js"
    by (auto simp: is_path_snoc)
  show ?case
  proof (cases "tbl (mem s) r js")
    case None
    then show ?thesis by (simp add: tbl_snoc IH)
  next
    case (Some u)
    have "u \<noteq> t" using pt_inv_inj [OF assms(1) js(1) assms(3) Some] assms(2,4) js(2) by auto
    then show ?thesis
      using entry_store [of t u i j] pt_inv_pageD(1) [OF assms(1,3,2)]
        pt_inv_pageD(1) [OF assms(1) js(1) Some] assms(5) j
      by (simp add: tbl_snoc IH Some)
  qed
qed

lemma leaf_store:
  assumes inv: "pt_inv s r xs" and t: "tbl (mem s) r [PX 2 va, PX 1 va] = Some t" and va: "va < MAXVA"
  shows "pt_inv (s\<lparr>mem := store64 (mem s) (t + 8 * PX 0 va) v\<rparr>) r xs"
    and "vb < MAXVA \<Longrightarrow> pte_of (store64 (mem s) (t + 8 * PX 0 va) v) r vb =
           (if PGROUNDDOWN vb = PGROUNDDOWN va then v else pte_of (mem s) r vb)"
    and "pt_pages (store64 (mem s) (t + 8 * PX 0 va) v) r = pt_pages (mem s) r"
    and "PGROUNDDOWN y \<notin> pt_pages (mem s) r \<Longrightarrow> store64 (mem s) (t + 8 * PX 0 va) v y = mem s y"
proof -
  let ?m = "store64 (mem s) (t + 8 * PX 0 va) v"
  have tp: "page_aligned t" "t \<notin> set xs" "t \<in> pt_pages (mem s) r"
    using pt_inv_pageD [OF inv is_path_PX(1) t] pt_pagesI [OF is_path_PX(1) t] by auto
  note e = entry_in_page [OF tp(1) PX_bound, of 0 va]
  have tb: "tbl ?m r js = tbl (mem s) r js" if "is_path js" for js
    using leaf_store_tbl [OF inv t is_path_PX(1) _ PX_bound that] by simp
  show pages: "pt_pages ?m r = pt_pages (mem s) r" using tb by (auto simp: pt_pages_def)
  show fr: "PGROUNDDOWN y \<notin> pt_pages (mem s) r \<Longrightarrow> ?m y = mem s y" for y
    using e tp(3) by (intro store64_page_other) auto
  have "free_chain ?m (freelist s) xs = free_chain (mem s) (freelist s) xs"
  proof (rule free_chain_cong)
    show "\<forall>x \<in> set xs. page_aligned x" using inv by (auto simp: pt_inv_def kmem_inv_def)
    show "?m y = mem s y" if "x \<in> set xs" "PGROUNDDOWN y = x" for x y
      using that fr [of y] inv by (auto simp: pt_inv_def)
  qed
  then have "kmem_inv (s\<lparr>mem := ?m\<rparr>) xs" using inv by (simp add: pt_inv_def kmem_inv_def)
  then show "pt_inv (s\<lparr>mem := ?m\<rparr>) r xs" using inv pages unfolding pt_inv_def by (simp add: tb cong: imp_cong conj_cong)
  assume vb: "vb < MAXVA"
  show "pte_of ?m r vb = (if PGROUNDDOWN vb = PGROUNDDOWN va then v else pte_of (mem s) r vb)"
  proof (cases "tbl (mem s) r [PX 2 vb, PX 1 vb]")
    case None
    then have "PGROUNDDOWN vb \<noteq> PGROUNDDOWN va" using t PX_eq_iff [OF vb va] by auto
    then show ?thesis using None tb by (simp add: pte_of_def)
  next
    case (Some u)
    have "t = u \<longleftrightarrow> PX 2 va = PX 2 vb \<and> PX 1 va = PX 1 vb"
      using pt_inv_inj [OF inv is_path_PX(1) is_path_PX(1) t, of 2 vb 1] Some t by auto
    then have "(t = u \<and> PX 0 va = PX 0 vb) \<longleftrightarrow> PGROUNDDOWN vb = PGROUNDDOWN va"
      using PX_eq_iff [OF va vb] by auto
    then show ?thesis
      using entry_store [OF tp(1) pt_inv_pageD(1) [OF inv is_path_PX(1) Some] PX_bound PX_bound]
        Some tb by (simp add: pte_of_def)
  qed
qed


section \<open>Mapping a range of pages\<close>

text \<open>
  \<open>pt_frame\<close> is \<open>pt_ext\<close> without the clause on the leaf entries: what an operation that maps
  pages keeps.
\<close>

definition pt_frame :: "u64 \<Rightarrow> phys \<Rightarrow> u64 list \<Rightarrow> phys \<Rightarrow> u64 list \<Rightarrow> bool" where
  "pt_frame r s xs s' ys \<longleftrightarrow>
     pt_inv s' r ys \<and> kend s' = kend s \<and>
     (\<exists>us. xs = us @ ys \<and> pt_pages (mem s') r = pt_pages (mem s) r \<union> set us) \<and>
     (\<forall>y. PGROUNDDOWN y \<notin> pt_pages (mem s) r \<union> set xs \<longrightarrow> mem s' y = mem s y)"

lemma pt_ext_frame: "pt_ext r s xs s' ys \<Longrightarrow> pt_frame r s xs s' ys"
  by (simp add: pt_ext_def pt_frame_def)

lemma pt_ext_pte: "pt_ext r s xs s' ys \<Longrightarrow> pte_of (mem s') r va = pte_of (mem s) r va"
  by (simp add: pt_ext_def)

lemma pt_frame_inv: "pt_frame r s xs s' ys \<Longrightarrow> pt_inv s' r ys"
  by (simp add: pt_frame_def)

lemma pt_frame_length: "pt_frame r s xs s' ys \<Longrightarrow> length ys \<le> length xs"
  by (auto simp: pt_frame_def)

lemma pt_frame_trans:
  assumes "pt_frame r s xs s1 ys" "pt_frame r s1 ys s2 zs"
  shows "pt_frame r s xs s2 zs"
proof -
  from assms(1) obtain us where us: "xs = us @ ys" "pt_pages (mem s1) r = pt_pages (mem s) r \<union> set us"
    by (auto simp: pt_frame_def)
  from assms(2) obtain vs where vs: "ys = vs @ zs" "pt_pages (mem s2) r = pt_pages (mem s1) r \<union> set vs"
    by (auto simp: pt_frame_def)
  have "xs = (us @ vs) @ zs" "pt_pages (mem s2) r = pt_pages (mem s) r \<union> set (us @ vs)"
    using us vs by auto
  moreover have "mem s2 y = mem s y" if "PGROUNDDOWN y \<notin> pt_pages (mem s) r \<union> set xs" for y
    using that assms us vs by (auto simp: pt_frame_def)
  ultimately show ?thesis using assms unfolding pt_frame_def by (metis (no_types, lifting))
qed

lemma walk_alloc:
  assumes inv: "pt_inv s r xs" and va: "va < MAXVA" and w: "walk s r va True = Some (pte, s')"
  obtains ys where "pt_ext r s xs s' ys" "pte = 0 \<Longrightarrow> length xs < 2"
    "pte \<noteq> 0 \<Longrightarrow> \<exists>u. tbl (mem s') r [PX 2 va, PX 1 va] = Some u \<and> pte = u + 8 * PX 0 va"
  using walk_loop_alloc [OF inv, of "[]" r 2 va pte s'] w va
  by (auto simp: walk_def vpath_2 split: if_splits)

lemma walk_total: "va < MAXVA \<Longrightarrow> \<exists>pte s'. walk s r va alloc = Some (pte, s')"
  by (cases "walk_loop s r va alloc 2") (simp add: walk_def not_le)

lemma pte_of_tbl:
  "tbl m r [PX 2 va, PX 1 va] = Some u \<Longrightarrow> load64 m (u + 8 * PX 0 va) = pte_of m r va"
  by (simp add: pte_of_def)

definition in_range :: "u64 \<Rightarrow> nat \<Rightarrow> u64 \<Rightarrow> bool" where
  "in_range a n vb \<longleftrightarrow> unat a \<le> unat (PGROUNDDOWN vb) \<and> unat (PGROUNDDOWN vb) < unat a + 4096 * n"

lemma in_range_0 [simp]: "\<not> in_range a 0 vb"
  by (simp add: in_range_def)

lemma in_range_Suc:
  assumes "page_aligned a" "unat a + 4096 < 2 ^ 64"
  shows "in_range a (Suc n) vb \<longleftrightarrow> PGROUNDDOWN vb = a \<or> in_range (a + 4096) n vb"
proof -
  have u: "unat (a + 4096) = unat a + 4096" using assms(2) by (simp add: unat_word_ariths)
  obtain k where k: "unat a = 4096 * k" using page_aligned_obtain [OF assms(1)] by blast
  obtain j where j: "unat (PGROUNDDOWN vb) = 4096 * j"
    using page_aligned_obtain [OF page_aligned_PGROUNDDOWN] by blast
  show ?thesis unfolding in_range_def u word_eq_iff_unat [of "PGROUNDDOWN vb"] k j by auto
qed

end
