(* ===== verification/Addrspace.thy ===== *)
theory Addrspace
  imports Sv39
begin

text \<open>
  What the page-table operations of \<open>vm.c\<close> do to the address space: \<open>mappages\<close> and \<open>uvmunmap\<close>
  as updates of the map from virtual pages to leaf entries, \<open>walkaddr\<close> and \<open>ismapped\<close> as
  lookups in it.
\<close>

section \<open>mappages\<close>

abbreviation valid_pte :: "u64 \<Rightarrow> bool" where
  "valid_pte e \<equiv> e AND PTE_V \<noteq> 0"

text \<open>One entry written into a tree that already has the leaf table.\<close>

lemma set_leaf:
  assumes ext: "pt_ext r s xs s1 ys" and va: "va < MAXVA"
    and u: "tbl (mem s1) r [PX 2 va, PX 1 va] = Some u"
    and s2_def: "s2 = s1\<lparr>mem := store64 (mem s1) (u + 8 * PX 0 va) v\<rparr>"
  shows "pt_frame r s xs s2 ys"
    and "vb < MAXVA \<Longrightarrow> pte_of (mem s2) r vb =
           (if PGROUNDDOWN vb = PGROUNDDOWN va then v else pte_of (mem s) r vb)"
proof -
  have inv: "pt_inv s1 r ys" using ext by (simp add: pt_ext_def)
  have fr: "pt_frame r s1 ys s2 ys"
    unfolding pt_frame_def s2_def using leaf_store(1,3) [OF inv u va, of v] leaf_store(4) [OF inv u va] by simp
  show "pt_frame r s xs s2 ys" by (rule pt_frame_trans [OF pt_ext_frame [OF ext] fr])
  show "vb < MAXVA \<Longrightarrow> pte_of (mem s2) r vb =
           (if PGROUNDDOWN vb = PGROUNDDOWN va then v else pte_of (mem s) r vb)"
    using leaf_store(2) [OF inv u va, of vb v] pt_ext_pte [OF ext, of vb] by (simp add: s2_def)
qed

text \<open>
  One iteration of the loop of \<open>mappages\<close>: it fails with fewer than two free pages left, or writes
  the entry and goes on unless this was the last page.
\<close>

lemma mappages_loop_step:
  assumes inv: "pt_inv s r xs" and a: "page_aligned a" "a < MAXVA"
    and nv: "\<not> valid_pte (pte_of (mem s) r a)"
  obtains (fail) s1 ys where "mappages_loop s r a last' pa perm = Some (-1, s1)" "pt_ext r s xs s1 ys"
      "length ys < 2" "length xs < 2"
  | (ok) s2 ys where "pt_frame r s xs s2 ys"
      "\<And>vb. vb < MAXVA \<Longrightarrow> pte_of (mem s2) r vb =
         (if PGROUNDDOWN vb = a then PA2PTE pa OR perm OR PTE_V else pte_of (mem s) r vb)"
      "mappages_loop s r a last' pa perm =
         (if a = last' then Some (0, s2) else mappages_loop s2 r (a + PGSIZE) last' (pa + PGSIZE) perm)"
proof -
  obtain pte s1 where w: "walk s r a True = Some (pte, s1)" using walk_total [OF a(2)] by blast
  obtain ys where ys: "pt_ext r s xs s1 ys" "pte = 0 \<Longrightarrow> length xs < 2"
    "pte \<noteq> 0 \<Longrightarrow> \<exists>u. tbl (mem s1) r [PX 2 a, PX 1 a] = Some u \<and> pte = u + 8 * PX 0 a"
    using walk_alloc [OF inv a(2) w] by blast
  show thesis
  proof (cases "pte = 0")
    case True
    then show ?thesis
      using ys fail [of s1 ys] w pt_frame_length [OF pt_ext_frame [OF ys(1)]]
      by (simp add: mappages_loop.simps)
  next
    case False
    then obtain u where u: "tbl (mem s1) r [PX 2 a, PX 1 a] = Some u" "pte = u + 8 * PX 0 a"
      using ys(3) by blast
    let ?s2 = "s1\<lparr>mem := store64 (mem s1) (u + 8 * PX 0 a) (PA2PTE pa OR perm OR PTE_V)\<rparr>"
    have "load64 (mem s1) pte = pte_of (mem s) r a"
      using pte_of_tbl [OF u(1)] pt_ext_pte [OF ys(1), of a] u(2) by simp
    then have "mappages_loop s r a last' pa perm =
        (if a = last' then Some (0, ?s2) else mappages_loop ?s2 r (a + PGSIZE) last' (pa + PGSIZE) perm)"
      using w False nv u(2) by (subst mappages_loop.simps) (simp add: Let_def)
    then show ?thesis
      using ok [of ?s2 ys] set_leaf [OF ys(1) a(2) u(1) refl [of ?s2]] a(1) by simp
  qed
qed

text \<open>
  The loop maps the first \<open>k\<close> of its \<open>n + 1\<close> pages; it stops early only when fewer than two
  pages are free, and then returns -1.
\<close>

lemma mappages_loop_spec:
  assumes "pt_inv s r xs" "page_aligned a" "unat a + 4096 * n < unat MAXVA"
    and "last' = a + of_nat (4096 * n)"
    and "\<And>vb. vb < MAXVA \<Longrightarrow> in_range a (Suc n) vb \<Longrightarrow> \<not> valid_pte (pte_of (mem s) r vb)"
  shows "\<exists>rv s' ys k. mappages_loop s r a last' pa perm = Some (rv, s') \<and> pt_frame r s xs s' ys \<and>
     (if rv = 0 then k = Suc n else rv = -1 \<and> k \<le> n \<and> length ys < 2) \<and>
     (\<forall>vb < MAXVA. pte_of (mem s') r vb =
        (if in_range a k vb then PA2PTE (pa + (PGROUNDDOWN vb - a)) OR perm OR PTE_V
         else pte_of (mem s) r vb))"
  using assms
proof (induction n arbitrary: s xs a pa)
  case 0
  have a: "a < MAXVA" "unat a + 4096 < 2 ^ 64" using 0 by (simp_all add: word_less_nat_alt)
  have r1: "in_range a (Suc 0) vb \<longleftrightarrow> PGROUNDDOWN vb = a" for vb using in_range_Suc [OF 0(2) a(2), of 0 vb] by simp
  have "\<not> valid_pte (pte_of (mem s) r a)" using 0 a r1 by simp
  from 0(1,2) a(1) this show ?case
  proof (cases rule: mappages_loop_step [of _ _ _ _ last' pa perm])
    case (fail s1 ys)
    then show ?thesis using pt_ext_frame [OF fail(2)] pt_ext_pte [OF fail(2)]
      by (intro exI [of _ "-1"] exI [of _ s1] exI [of _ ys] exI [of _ 0]) simp
  next
    case (ok s2 ys)
    then show ?thesis using 0(4) r1
      by (intro exI [of _ 0] exI [of _ s2] exI [of _ ys] exI [of _ "Suc 0"]) simp
  qed
next
  case (Suc n)
  have a: "a < MAXVA" "unat a + 4096 < 2 ^ 64" "unat (a + 4096) = unat a + 4096"
    using Suc.prems(3) by (simp_all add: word_less_nat_alt unat_word_ariths)
  note rS = in_range_Suc [OF Suc.prems(2) a(2)]
  have "\<not> valid_pte (pte_of (mem s) r a)" using Suc.prems(2,5) a rS by simp
  from Suc.prems(1,2) a(1) this show ?case
  proof (cases rule: mappages_loop_step [of _ _ _ _ last' pa perm])
    case (fail s1 ys)
    then show ?thesis using pt_ext_frame [OF fail(2)] pt_ext_pte [OF fail(2)]
      by (intro exI [of _ "-1"] exI [of _ s1] exI [of _ ys] exI [of _ 0]) simp
  next
    case (ok s2 ys)
    have "unat (of_nat (4096 * Suc n) :: u64) = 4096 * Suc n"
      using Suc.prems(3) by (subst unat_of_nat) (simp add: mod_less)
    then have ne: "a \<noteq> last'" using Suc.prems(4) by (metis add_eq_0_iff_both_eq_0 add_cancel_right_right
      mult_eq_0_iff nat.simps(3) unat_0 zero_neq_numeral)
    have pa4: "page_aligned (a + 4096)" by (rule page_aligned_add [OF Suc.prems(2)])
    have out: "\<not> in_range (a + 4096) j vb" if "PGROUNDDOWN vb = a" for vb j
      using that a(3) by (simp add: in_range_def)
    have le: "unat (a + 4096) + 4096 * n < unat MAXVA" "last' = a + 4096 + of_nat (4096 * n)"
      using Suc.prems(3,4) a(3) by simp_all
    have nv: "\<not> valid_pte (pte_of (mem s2) r vb)" if "vb < MAXVA" "in_range (a + 4096) (Suc n) vb" for vb
      using Suc.prems(5) [OF that(1)] rS that ok(2) [OF that(1)] out by auto
    obtain rv s' zs k where ih: "mappages_loop s2 r (a + 4096) last' (pa + 4096) perm = Some (rv, s')"
      "pt_frame r s2 ys s' zs" "if rv = 0 then k = Suc n else rv = -1 \<and> k \<le> n \<and> length zs < 2"
      "\<And>vb. vb < MAXVA \<Longrightarrow> pte_of (mem s') r vb = (if in_range (a + 4096) k vb
           then PA2PTE (pa + 4096 + (PGROUNDDOWN vb - (a + 4096))) OR perm OR PTE_V else pte_of (mem s2) r vb)"
      using Suc.IH [OF pt_frame_inv [OF ok(1)] pa4 le nv, of "pa + 4096"] by blast
    have "pte_of (mem s') r vb = (if in_range a (Suc k) vb
        then PA2PTE (pa + (PGROUNDDOWN vb - a)) OR perm OR PTE_V else pte_of (mem s) r vb)" if "vb < MAXVA" for vb
      using ih(4) [OF that] ok(2) [OF that] rS [of k vb] out [of vb k] by (auto simp: algebra_simps)
    then show ?thesis using ok(3) ne ih(1,3) pt_frame_trans [OF ok(1) ih(2)]
      by (intro exI [of _ rv] exI [of _ s'] exI [of _ zs] exI [of _ "Suc k"]) (simp split: if_splits)
  qed
qed

section \<open>Lookups\<close>

lemma leaf_addr_nonzero:
  assumes "pt_inv s r xs" "tbl (mem s) r [PX 2 va, PX 1 va] = Some t"
  shows "t + 8 * PX 0 va \<noteq> 0"
proof -
  have t: "page_aligned t" "ram_page s t" using pt_inv_pageD [OF assms(1) is_path_PX(1) assms(2)] by auto
  then have "t \<noteq> 0" using pt_inv_kmem [OF assms(1)] by (auto simp: kmem_inv_def ram_page_def)
  then show ?thesis
    using entry_in_page(2) [OF t(1) PX_bound, of 0 va] by (metis add_eq_0_iff_both_eq_0 unat_eq_zero)
qed

lemma walk_lookup:
  assumes "pt_inv s r xs" "va < MAXVA"
  obtains (absent) "walk s r va False = Some (0, s)" "pte_of (mem s) r va = 0"
  | (entry) pte t where "walk s r va False = Some (pte, s)" "pte \<noteq> 0"
      "load64 (mem s) pte = pte_of (mem s) r va"
      "tbl (mem s) r [PX 2 va, PX 1 va] = Some t" "pte = t + 8 * PX 0 va"
proof (cases "tbl (mem s) r [PX 2 va, PX 1 va]")
  case None
  have "walk s r va False = Some (0, s)" unfolding walk_noalloc [OF assms(2)] None by (simp only: option.case)
  moreover have "pte_of (mem s) r va = 0" unfolding pte_of_def None by (simp only: option.case)
  ultimately show ?thesis by (rule absent)
next
  case (Some t)
  have "walk s r va False = Some (t + 8 * PX 0 va, s)"
    unfolding walk_noalloc [OF assms(2)] Some by (simp only: option.case)
  from entry [OF this leaf_addr_nonzero [OF assms(1) Some] pte_of_tbl [OF Some] Some refl] show ?thesis .
qed

lemma walkaddr_spec:
  assumes "pt_inv s r xs"
  shows "walkaddr s r va =
     Some (if va < MAXVA \<and> valid_pte (pte_of (mem s) r va) \<and> pte_of (mem s) r va AND PTE_U \<noteq> 0
           then PTE2PA (pte_of (mem s) r va) else 0)"
proof (cases "va < MAXVA")
  case True
  then have "\<not> MAXVA \<le> va" by (simp add: not_le)
  with assms True show ?thesis by (cases rule: walk_lookup) (simp_all add: walkaddr_def True)
next
  case False
  moreover from this have "MAXVA \<le> va" by (simp only: not_less)
  ultimately show ?thesis by (simp add: walkaddr_def)
qed

lemma ismapped_spec:
  assumes "pt_inv s r xs" "va < MAXVA"
  shows "ismapped s r va = Some (valid_pte (pte_of (mem s) r va))"
  using assms by (cases rule: walk_lookup) (simp_all add: ismapped_def)

section \<open>Writes outside the tables\<close>

lemma pt_same:
  assumes "pt_inv s r xs" "\<And>y. PGROUNDDOWN y \<in> pt_pages (mem s) r \<Longrightarrow> m' y = mem s y"
  shows "is_path js \<Longrightarrow> tbl m' r js = tbl (mem s) r js"
    and "pt_pages m' r = pt_pages (mem s) r"
    and "pte_of m' r va = pte_of (mem s) r va"
proof -
  show tb: "tbl m' r js = tbl (mem s) r js" if "is_path js" for js
    by (rule tbl_cong [OF assms(1) that]) (simp add: assms(2))
  then show "pt_pages m' r = pt_pages (mem s) r" by (auto simp: pt_pages_def)
  show "pte_of m' r va = pte_of (mem s) r va"
  proof (cases "tbl (mem s) r [PX 2 va, PX 1 va]")
    case None
    then show ?thesis unfolding pte_of_def None tb [OF is_path_PX(1)] by (simp only: option.case)
  next
    case (Some t)
    have "load64 m' (t + 8 * PX 0 va) = load64 (mem s) (t + 8 * PX 0 va)"
      by (rule entry_cong [OF pt_inv_pageD(1) [OF assms(1) is_path_PX(1) Some] PX_bound])
        (simp add: assms(2) pt_pagesI [OF is_path_PX(1) Some])
    then show ?thesis unfolding pte_of_def Some tb [OF is_path_PX(1)] by (simp only: option.case)
  qed
qed

lemma pt_inv_same:
  assumes inv: "pt_inv s r xs" and "\<And>y. PGROUNDDOWN y \<in> pt_pages (mem s) r \<Longrightarrow> mem s' y = mem s y"
    and k: "kmem_inv s' ys" "kend s' = kend s" "pt_pages (mem s) r \<inter> set ys = {}"
  shows "pt_inv s' r ys"
proof -
  note same = pt_same [OF inv assms(2)]
  have "ram_page s' t" if "ram_page s t" for t using that k(2) by (simp add: ram_page_def)
  moreover have "js = ks" if "is_path js" "is_path ks" "tbl (mem s') r js = Some t" "tbl (mem s') r ks = Some t"
    for js ks t using that pt_inv_inj [OF inv that(1,2)] same(1) by metis
  ultimately show ?thesis using inv k same(2) unfolding pt_inv_def by blast
qed

lemma kfree_pt:
  assumes inv: "pt_inv s r xs" and p: "ram_page s p" "p \<notin> pt_pages (mem s) r" "p \<notin> set xs"
    and k: "kfree s p = Some s'"
  shows "pt_inv s' r (p # xs)" and "pte_of (mem s') r va = pte_of (mem s) r va"
    and "pt_pages (mem s') r = pt_pages (mem s) r" "is_path js \<Longrightarrow> tbl (mem s') r js = tbl (mem s) r js"
proof -
  have fr: "mem s' y = mem s y" if "PGROUNDDOWN y \<in> pt_pages (mem s) r" for y
    using kfree_SomeD(3) [OF k, of y] that p(2) by auto
  show "pte_of (mem s') r va = pte_of (mem s) r va" "pt_pages (mem s') r = pt_pages (mem s) r"
    "is_path js \<Longrightarrow> tbl (mem s') r js = tbl (mem s) r js"
    using pt_same [OF inv fr] by auto
  show "pt_inv s' r (p # xs)"
    using pt_inv_same [OF inv fr kfree_inv [OF pt_inv_kmem [OF inv] p(1,3) k] kfree_SomeD(2) [OF k]]
      inv p(2) by (auto simp: pt_inv_def)
qed

end
