(* ===== verification/Unmap.thy ===== *)
theory Unmap
  imports Addrspace
begin

text \<open>
  \<open>uvmunmap\<close> on a range of pages: the frames it frees, in the order it frees them, and the map
  after it.
\<close>

text \<open>The frames mapped in the \<open>n\<close> pages from \<open>a\<close> on, in order.\<close>

fun frames :: "memory \<Rightarrow> u64 \<Rightarrow> u64 \<Rightarrow> nat \<Rightarrow> u64 list" where
  "frames m r a 0 = []"
| "frames m r a (Suc n) =
     (if valid_pte (pte_of m r a) then [PTE2PA (pte_of m r a)] else []) @ frames m r (a + 4096) n"

lemma in_range_first: "page_aligned a \<Longrightarrow> 0 < n \<Longrightarrow> in_range a n a"
  by (simp add: in_range_def)

lemma frames_cong:
  assumes "page_aligned a" "unat a + 4096 * n \<le> unat MAXVA"
    and "\<And>vb. vb < MAXVA \<Longrightarrow> in_range a n vb \<Longrightarrow> pte_of m r vb = pte_of m' r vb"
  shows "frames m r a n = frames m' r a n"
  using assms
proof (induction n arbitrary: a)
  case 0
  then show ?case by simp
next
  case (Suc n)
  have a: "a < MAXVA" "unat a + 4096 < 2 ^ 64" "unat (a + 4096) = unat a + 4096"
    using Suc.prems(2) by (simp_all add: word_less_nat_alt unat_word_ariths)
  note rS = in_range_Suc [OF Suc.prems(1) a(2)]
  have "frames m r (a + 4096) n = frames m' r (a + 4096) n"
    using Suc.prems a rS by (intro Suc.IH) (simp_all add: page_aligned_add)
  moreover have "pte_of m r a = pte_of m' r a"
    using Suc.prems(3) [OF a(1)] rS Suc.prems(1) by simp
  ultimately show ?case by simp
qed

text \<open>One iteration of the loop of \<open>uvmunmap\<close> on a valid entry.\<close>

lemma uvmunmap_loop_step:
  assumes inv: "pt_inv s r xs" and a: "page_aligned a" "a < MAXVA" "a < end'"
    and v: "valid_pte (pte_of (mem s) r a)"
    and p: "p = PTE2PA (pte_of (mem s) r a)"
    and ok: "do_free \<Longrightarrow> ram_page s p \<and> p \<notin> pt_pages (mem s) r \<and> p \<notin> set xs"
  obtains s2 where "uvmunmap_loop s r a end' do_free = uvmunmap_loop s2 r (a + PGSIZE) end' do_free"
    "pt_inv s2 r ((if do_free then [p] else []) @ xs)" "kend s2 = kend s"
    "pt_pages (mem s2) r = pt_pages (mem s) r"
    "\<And>vb. vb < MAXVA \<Longrightarrow> pte_of (mem s2) r vb = (if PGROUNDDOWN vb = a then 0 else pte_of (mem s) r vb)"
    "\<And>y. PGROUNDDOWN y \<notin> pt_pages (mem s) r \<Longrightarrow> (do_free \<Longrightarrow> PGROUNDDOWN y \<noteq> p) \<Longrightarrow> mem s2 y = mem s y"
proof -
  have "pte_of (mem s) r a \<noteq> 0" using v by auto
  then obtain pte t where w: "walk s r a False = Some (pte, s)" "pte \<noteq> 0" "load64 (mem s) pte = pte_of (mem s) r a"
    and t: "tbl (mem s) r [PX 2 a, PX 1 a] = Some t" "pte = t + 8 * PX 0 a"
    using walk_lookup [OF inv a(2)] by metis
  obtain s1 where s1: "(if do_free then kfree s p else Some s) = Some s1"
    using ok by (cases do_free) (auto simp: kfree_Some)
  have inv1: "pt_inv s1 r ((if do_free then [p] else []) @ xs)" and k1: "kend s1 = kend s"
    and pg1: "pt_pages (mem s1) r = pt_pages (mem s) r" and pte1: "\<And>vb. pte_of (mem s1) r vb = pte_of (mem s) r vb"
    and tb1: "tbl (mem s1) r [PX 2 a, PX 1 a] = Some t"
    and fr1: "\<And>y. (do_free \<Longrightarrow> PGROUNDDOWN y \<noteq> p) \<Longrightarrow> mem s1 y = mem s y"
    using s1 inv ok kfree_pt [OF inv, of p s1] kfree_SomeD [of s p s1] t(1) by (auto split: if_splits)
  let ?s2 = "s1\<lparr>mem := store64 (mem s1) (t + 8 * PX 0 a) 0\<rparr>"
  note ls = leaf_store [OF inv1 tb1 a(2)]
  show thesis
  proof (rule that [of ?s2])
    show "uvmunmap_loop s r a end' do_free = uvmunmap_loop ?s2 r (a + PGSIZE) end' do_free"
      using w v a(3) s1 p t(2) by (subst uvmunmap_loop.simps) (simp split: if_splits)
    show "pt_inv ?s2 r ((if do_free then [p] else []) @ xs)" by (rule ls(1))
    show "kend ?s2 = kend s" using k1 by simp
    show "pt_pages (mem ?s2) r = pt_pages (mem s) r" using ls(3) pg1 by simp
    show "pte_of (mem ?s2) r vb = (if PGROUNDDOWN vb = a then 0 else pte_of (mem s) r vb)" if "vb < MAXVA" for vb
      using ls(2) [OF that] pte1 a(1) by simp
    show "mem ?s2 y = mem s y" if "PGROUNDDOWN y \<notin> pt_pages (mem s) r" "do_free \<Longrightarrow> PGROUNDDOWN y \<noteq> p" for y
      using ls(4) pg1 fr1 that by simp
  qed
qed

lemma pte_of_page:
  assumes "PGROUNDDOWN vb = PGROUNDDOWN va" "va < MAXVA" "vb < MAXVA"
  shows "pte_of m r vb = pte_of m r va"
proof -
  have "PX 2 vb = PX 2 va" "PX 1 vb = PX 1 va" "PX 0 vb = PX 0 va"
    using PX_eq_iff [OF assms(3,2)] assms(1) by (simp_all only: simp_thms)
  then show ?thesis by (simp only: pte_of_def)
qed

text \<open>
  The state after unmapping the \<open>n\<close> pages from \<open>a\<close> on and freeing \<open>fs\<close>.
\<close>

definition unmap_post :: "u64 \<Rightarrow> phys \<Rightarrow> u64 list \<Rightarrow> u64 list \<Rightarrow> u64 \<Rightarrow> nat \<Rightarrow> phys \<Rightarrow> bool" where
  "unmap_post r s xs fs a n s' \<longleftrightarrow>
     pt_inv s' r (rev fs @ xs) \<and> kend s' = kend s \<and> pt_pages (mem s') r = pt_pages (mem s) r \<and>
     (\<forall>vb < MAXVA. pte_of (mem s') r vb =
        (if in_range a n vb \<and> valid_pte (pte_of (mem s) r vb) then 0 else pte_of (mem s) r vb)) \<and>
     (\<forall>y. PGROUNDDOWN y \<notin> pt_pages (mem s) r \<union> set fs \<longrightarrow> mem s' y = mem s y)"

lemma unmap_post_skip:
  assumes "unmap_post r s xs fs (a + 4096) n s'" "page_aligned a" "a < MAXVA" "unat a + 4096 < 2 ^ 64"
    and "\<not> valid_pte (pte_of (mem s) r a)"
  shows "unmap_post r s xs fs a (Suc n) s'"
proof -
  have "pte_of (mem s') r vb = (if in_range a (Suc n) vb \<and> valid_pte (pte_of (mem s) r vb) then 0
      else pte_of (mem s) r vb)" if "vb < MAXVA" for vb
  proof (cases "PGROUNDDOWN vb = a")
    case True
    then have "\<not> valid_pte (pte_of (mem s) r vb)"
      using pte_of_page [of vb a "mem s" r] assms(2,3,5) that by simp
    then show ?thesis using assms(1) that by (simp add: unmap_post_def)
  next
    case False
    then show ?thesis
      using assms(1) that in_range_Suc [OF assms(2,4), of n vb] by (simp add: unmap_post_def)
  qed
  then show ?thesis using assms(1) by (simp add: unmap_post_def)
qed

lemma unmap_post_step:
  assumes post: "unmap_post r s2 (ps @ xs) fs (a + 4096) n s'" and a: "page_aligned a" "a < MAXVA" "unat a + 4096 < 2 ^ 64"
    and v: "valid_pte (pte_of (mem s) r a)" "length ps \<le> 1"
    and s2: "kend s2 = kend s" "pt_pages (mem s2) r = pt_pages (mem s) r"
      "\<And>vb. vb < MAXVA \<Longrightarrow> pte_of (mem s2) r vb = (if PGROUNDDOWN vb = a then 0 else pte_of (mem s) r vb)"
      "\<And>y. PGROUNDDOWN y \<notin> pt_pages (mem s) r \<Longrightarrow> PGROUNDDOWN y \<notin> set ps \<Longrightarrow> mem s2 y = mem s y"
  shows "unmap_post r s xs (ps @ fs) a (Suc n) s'"
proof -
  have "rev ps = ps" using v(2) by (cases ps) auto
  moreover have "pte_of (mem s') r vb = (if in_range a (Suc n) vb \<and> valid_pte (pte_of (mem s) r vb) then 0
      else pte_of (mem s) r vb)" if "vb < MAXVA" for vb
  proof (cases "PGROUNDDOWN vb = a")
    case True
    then have "valid_pte (pte_of (mem s) r vb)"
      using pte_of_page [of vb a "mem s" r] a v(1) that by simp
    then show ?thesis
      using post that True s2(3) [OF that] in_range_Suc [OF a(1,3), of n vb] by (simp add: unmap_post_def)
  next
    case False
    then show ?thesis
      using post that s2(3) [OF that] in_range_Suc [OF a(1,3), of n vb] by (simp add: unmap_post_def)
  qed
  ultimately show ?thesis using post s2(1,2,4) by (simp add: unmap_post_def)
qed

lemma uvmunmap_loop_spec:
  assumes "pt_inv s r xs" "page_aligned a" "unat a + 4096 * n \<le> unat MAXVA"
    and "end' = a + of_nat (4096 * n)" "fs = (if do_free then frames (mem s) r a n else [])"
    and "distinct fs" "\<forall>f \<in> set fs. ram_page s f \<and> f \<notin> pt_pages (mem s) r \<and> f \<notin> set xs"
  shows "\<exists>s'. uvmunmap_loop s r a end' do_free = Some s' \<and> unmap_post r s xs fs a n s'"
  using assms
proof (induction n arbitrary: s xs a fs)
  case 0
  then show ?case by (simp add: uvmunmap_loop.simps unmap_post_def)
next
  case (Suc n)
  have a: "a < MAXVA" "unat a + 4096 < 2 ^ 64" "unat (a + 4096) = unat a + 4096"
    using Suc.prems(3) by (simp_all add: word_less_nat_alt unat_word_ariths)
  have "unat (of_nat (4096 * Suc n) :: u64) = 4096 * Suc n"
    using Suc.prems(3) by (subst unat_of_nat) (simp add: mod_less)
  then have lt: "a < end'" using Suc.prems(3,4) by (simp add: word_less_nat_alt unat_word_ariths)
  have next': "page_aligned (a + 4096)" "unat (a + 4096) + 4096 * n \<le> unat MAXVA"
    "end' = a + 4096 + of_nat (4096 * n)"
    using Suc.prems(2-4) a(3) by (simp_all add: page_aligned_add)
  show ?case
  proof (cases "valid_pte (pte_of (mem s) r a)")
    case False
    have "uvmunmap_loop s r a end' do_free = uvmunmap_loop s r (a + 4096) end' do_free"
      using Suc.prems(1) a(1)
      by (cases rule: walk_lookup) (use lt False in \<open>simp_all add: uvmunmap_loop.simps [of s r a]\<close>)
    moreover have "fs = (if do_free then frames (mem s) r (a + 4096) n else [])"
      using Suc.prems(5) False by simp
    ultimately show ?thesis
      using Suc.IH [OF Suc.prems(1) next' _ Suc.prems(6,7)] unmap_post_skip [OF _ Suc.prems(2) a(1,2) False]
      by metis
  next
    case True
    define p ps gs where "p = PTE2PA (pte_of (mem s) r a)" and "ps = (if do_free then [p] else [])"
      and "gs = (if do_free then frames (mem s) r (a + 4096) n else [])"
    have fs: "fs = ps @ gs" using Suc.prems(5) True by (simp add: p_def ps_def gs_def)
    have ok: "ram_page s p \<and> p \<notin> pt_pages (mem s) r \<and> p \<notin> set xs" if do_free
      using Suc.prems(7) fs that by (simp add: ps_def)
    obtain s2 where s2: "uvmunmap_loop s r a end' do_free = uvmunmap_loop s2 r (a + PGSIZE) end' do_free"
      "pt_inv s2 r (ps @ xs)" "kend s2 = kend s" "pt_pages (mem s2) r = pt_pages (mem s) r"
      "\<And>vb. vb < MAXVA \<Longrightarrow> pte_of (mem s2) r vb = (if PGROUNDDOWN vb = a then 0 else pte_of (mem s) r vb)"
      "\<And>y. PGROUNDDOWN y \<notin> pt_pages (mem s) r \<Longrightarrow> PGROUNDDOWN y \<notin> set ps \<Longrightarrow> mem s2 y = mem s y"
      by (rule uvmunmap_loop_step [OF Suc.prems(1,2) a(1) lt True p_def ok]) (auto simp: ps_def)
    have "pte_of (mem s) r vb = pte_of (mem s2) r vb" if "vb < MAXVA" "in_range (a + 4096) n vb" for vb
      using s2(5) [OF that(1)] that(2) a(3) by (auto simp: in_range_def)
    then have "gs = (if do_free then frames (mem s2) r (a + 4096) n else [])"
      using frames_cong [OF next'(1,2), of "mem s" r "mem s2"] by (simp add: gs_def)
    moreover have "\<forall>f \<in> set gs. ram_page s2 f \<and> f \<notin> pt_pages (mem s2) r \<and> f \<notin> set (ps @ xs)"
      using Suc.prems(6,7) fs s2(3,4) by (auto simp: ram_page_def)
    ultimately obtain s' where l2: "uvmunmap_loop s2 r (a + 4096) end' do_free = Some s'"
      and post: "unmap_post r s2 (ps @ xs) gs (a + 4096) n s'"
      using Suc.IH [OF s2(2) next', of gs] Suc.prems(6) fs by auto
    have "length ps \<le> 1" by (simp add: ps_def)
    from unmap_post_step [OF post Suc.prems(2) a(1,2) True this s2(3-6)] show ?thesis
      using s2(1) l2 fs by simp
  qed
qed

end
