(* ===== verification/Vmspec.thy ===== *)
theory Vmspec
  imports Unmap
begin

text \<open>
  The contract of an address space and the properties of the page-table operations.
\<close>

section \<open>A new address space\<close>

lemma uvmcreate_spec:
  assumes "kmem_inv s (x # xs)" "uvmcreate s = (r, s')"
  shows "r = x" and "pt_inv s' r xs" and "pte_of (mem s') r va = 0" and "kend s' = kend s"
    and "pt_pages (mem s') r = {r}" and "PGROUNDDOWN y \<noteq> r \<Longrightarrow> mem s' y = mem s y"
proof -
  obtain p s1 where k: "kalloc s = (p, s1)" by (cases "kalloc s")
  note k1 = kalloc_inv_cons [OF assms(1) k]
  have x: "page_aligned x" "x \<noteq> 0" using k1(3) assms(1) by (auto simp: kmem_inv_def)
  then have s': "r = x" "s' = s1\<lparr>mem := memset (mem s1) x 0 4096\<rparr>"
    using assms(2) k k1(1) by (auto simp: uvmcreate_def)
  then show "r = x" by simp
  have z: "load64 (mem s') (r + 8 * i) = 0" if "i < 512" for i
    using x(1) that s' by (intro entry_zero_page) (auto simp: mem_simps)
  have tb: "tbl (mem s') r js = (if js = [] then Some r else None)" if "is_path js" for js
    using that z by (cases js) (auto simp: tbl.simps(2) is_path_def)
  show pg: "pt_pages (mem s') r = {r}" using tb tb [OF is_path_PX(3)] unfolding pt_pages_def
    by (auto split: if_splits intro: exI [of _ "[]"])
  show "pte_of (mem s') r va = 0" unfolding pte_of_def tb [OF is_path_PX(1)] by simp
  show kend: "kend s' = kend s" using kalloc_kend [OF k] s'(2) by simp
  have "kmem_inv s' xs"
  proof -
    have "free_chain (mem s') (freelist s1) xs = free_chain (mem s1) (freelist s1) xs"
      using k1 s' x(1) by (intro free_chain_cong) (auto simp: mem_simps kmem_inv_def)
    then show ?thesis using k1(2) s'(2) by (simp add: kmem_inv_def)
  qed
  moreover have "ram_page s' r" using k1(3) s'(1) kend by (simp add: ram_page_def)
  moreover have "js = ks" if "is_path js" "is_path ks" "tbl (mem s') r js = Some t" "tbl (mem s') r ks = Some t"
    for js ks t using that tb by (metis option.distinct(1))
  ultimately show "pt_inv s' r xs" using k1(4) s'(1) unfolding pt_inv_def pg by simp
  show "PGROUNDDOWN y \<noteq> r \<Longrightarrow> mem s' y = mem s y"
    using kalloc_frame [OF assms(1) k, of y] s' x(1) k1(1) by (simp add: mem_simps)
qed

lemma flags_or_V: "perm < 0x400 \<Longrightarrow> perm OR PTE_V < (0x400 :: u64)"
  using OR_upper [of "uint perm" 10 1] by (simp add: word_less_def uint_or)

lemma PGROUNDDOWN_gap: "unat a < unat (PGROUNDDOWN a) + 4096"
  using mod_less_divisor [of 4096 "unat a"] div_mult_mod_eq [of "unat a" 4096] by (simp add: unat_PGROUNDDOWN)

section \<open>One page at a time\<close>

lemma mappages_one:
  assumes "pt_inv s r xs" "page_aligned va" "va < MAXVA" "\<not> valid_pte (pte_of (mem s) r va)"
  shows "\<exists>rv s' ys. mappages s r va PGSIZE pa perm = Some (rv, s') \<and> pt_frame r s xs s' ys \<and>
     (rv = 0 \<or> rv = -1 \<and> length xs < 2) \<and>
     (\<forall>vb < MAXVA. pte_of (mem s') r vb =
        (if rv = 0 \<and> PGROUNDDOWN vb = va then PA2PTE pa OR perm OR PTE_V else pte_of (mem s) r vb))"
proof -
  have e: "mappages s r va PGSIZE pa perm = mappages_loop s r va va pa perm"
    using assms(2) by (simp add: mappages_def page_aligned_def)
  from assms show ?thesis
  proof (cases rule: mappages_loop_step [of _ _ _ _ va pa perm])
    case (fail s1 ys)
    then show ?thesis using e pt_ext_frame [OF fail(2)] pt_ext_pte [OF fail(2)] by auto
  next
    case (ok s2 ys)
    then show ?thesis using e by auto
  qed
qed

lemma page_below_MAXVA:
  assumes "page_aligned va" "va < MAXVA"
  shows "unat va + 4096 \<le> unat MAXVA"
proof -
  obtain k where k: "unat va = 4096 * k" using page_aligned_obtain [OF assms(1)] by blast
  have "unat va < 274877906944" using assms(2) by (simp add: word_less_nat_alt)
  then have "k < 67108864" unfolding k by linarith
  then show ?thesis unfolding k by simp
qed

lemma uvmunmap_one:
  assumes "pt_inv s r xs" "page_aligned va" "va < MAXVA"
  shows "\<exists>s'. uvmunmap s r va 1 False = Some s' \<and> unmap_post r s xs [] va 1 s'"
proof -
  have "unat va + 4096 * 1 \<le> unat MAXVA" using page_below_MAXVA [OF assms(2,3)] by simp
  from uvmunmap_loop_spec [OF assms(1,2) this refl refl, of False] show ?thesis
    using assms(2) by (simp add: uvmunmap_def page_aligned_def)
qed

lemma kalloc_pt:
  assumes inv: "pt_inv s r (x # xs)" and k: "kalloc s = (p, s')"
  shows "pt_inv s' r xs" and "pte_of (mem s') r va = pte_of (mem s) r va"
    and "pt_pages (mem s') r = pt_pages (mem s) r"
proof -
  note k1 = kalloc_inv_cons [OF pt_inv_kmem [OF inv] k]
  have fr: "mem s' y = mem s y" if "PGROUNDDOWN y \<in> pt_pages (mem s) r" for y
    using kalloc_frame [OF pt_inv_kmem [OF inv] k, of y] that inv k1(1) by (auto simp: pt_inv_def)
  show "pte_of (mem s') r va = pte_of (mem s) r va" "pt_pages (mem s') r = pt_pages (mem s) r"
    using pt_same [OF inv fr] by auto
  show "pt_inv s' r xs"
    using pt_inv_same [OF inv fr k1(2) kalloc_kend [OF k]] inv by (auto simp: pt_inv_def)
qed

section \<open>The contract of an address space\<close>

text \<open>
  What the pager needs of page tables: installing one page and removing one page change exactly
  the entry of that page, and neither panics on a well-formed table.
\<close>

locale address_space =
  fixes ok :: "'st \<Rightarrow> bool"
    and lookup :: "'st \<Rightarrow> u64 \<Rightarrow> u64"
    and map_page :: "'st \<Rightarrow> u64 \<Rightarrow> u64 \<Rightarrow> u64 \<Rightarrow> (int \<times> 'st) option"
    and unmap_page :: "'st \<Rightarrow> u64 \<Rightarrow> 'st option"
  assumes map_page: "ok st \<Longrightarrow> page_aligned va \<Longrightarrow> va < MAXVA \<Longrightarrow> \<not> valid_pte (lookup st va) \<Longrightarrow>
      \<exists>rv st'. map_page st va pa perm = Some (rv, st') \<and> ok st' \<and> (rv = 0 \<or> rv = -1) \<and>
        (\<forall>vb < MAXVA. lookup st' vb =
           (if rv = 0 \<and> PGROUNDDOWN vb = va then PA2PTE pa OR perm OR PTE_V else lookup st vb))"
    and unmap_page: "ok st \<Longrightarrow> page_aligned va \<Longrightarrow> va < MAXVA \<Longrightarrow>
      \<exists>st'. unmap_page st va = Some st' \<and> ok st' \<and>
        (\<forall>vb < MAXVA. lookup st' vb =
           (if PGROUNDDOWN vb = va \<and> valid_pte (lookup st vb) then 0 else lookup st vb))"
begin

text \<open>Removing a page that was just installed gives back the map.\<close>

lemma map_unmap:
  assumes "ok st" "page_aligned va" "va < MAXVA" "\<And>vb. vb < MAXVA \<Longrightarrow> PGROUNDDOWN vb = va \<Longrightarrow> lookup st vb = 0"
    and "map_page st va pa perm = Some (0, st')"
  shows "\<exists>st''. unmap_page st' va = Some st'' \<and> ok st'' \<and> (\<forall>vb < MAXVA. lookup st'' vb = lookup st vb)"
proof -
  have z: "\<not> valid_pte (lookup st va)" using assms by simp
  have st': "ok st'" "\<And>vb. vb < MAXVA \<Longrightarrow> lookup st' vb =
      (if PGROUNDDOWN vb = va then PA2PTE pa OR perm OR PTE_V else lookup st vb)"
    using map_page [OF assms(1-3) z, of pa perm] assms(5) by auto
  obtain st'' where st'': "unmap_page st' va = Some st''" "ok st''" "\<And>vb. vb < MAXVA \<Longrightarrow> lookup st'' vb =
      (if PGROUNDDOWN vb = va \<and> valid_pte (lookup st' vb) then 0 else lookup st' vb)"
    using unmap_page [OF st'(1) assms(2,3)] by blast
  have "valid_pte (PA2PTE pa OR perm OR PTE_V)" by (simp add: PTE_tests(1) bit_simps)
  then have "lookup st'' vb = lookup st vb" if "vb < MAXVA" for vb
    using st''(3) [OF that] st'(2) [OF that] assms(4) [OF that] by (simp split: if_splits)
  with st'' show ?thesis by blast
qed

text \<open>
  Page replacement seen from the map: after a victim page is removed and another page is
  installed, the victim is unmapped, the new page is mapped and every other page is as before.
\<close>

lemma replace:
  assumes "ok st" "page_aligned v" "v < MAXVA" "page_aligned va" "va < MAXVA" "v \<noteq> va"
    and "\<not> valid_pte (lookup st va)" "unmap_page st v = Some st1" "map_page st1 va pa perm = Some (0, st2)"
    and "vb < MAXVA"
  shows "lookup st2 vb = (if PGROUNDDOWN vb = va then PA2PTE pa OR perm OR PTE_V
           else if PGROUNDDOWN vb = v \<and> valid_pte (lookup st vb) then 0 else lookup st vb)"
proof -
  have st1: "ok st1" "\<And>vb. vb < MAXVA \<Longrightarrow> lookup st1 vb =
      (if PGROUNDDOWN vb = v \<and> valid_pte (lookup st vb) then 0 else lookup st vb)"
    using unmap_page [OF assms(1-3)] assms(8) by auto
  have "\<not> valid_pte (lookup st1 va)" using st1(2) [OF assms(5)] assms(4-7) by simp
  from map_page [OF st1(1) assms(4,5) this, of pa perm] st1(2) [OF assms(10)] assms(9,10) show ?thesis
    by auto
qed

end

interpretation uvm: address_space "\<lambda>s. \<exists>xs. pt_inv s r xs" "\<lambda>s. pte_of (mem s) r"
  "\<lambda>s va. mappages s r va PGSIZE" "\<lambda>s va. uvmunmap s r va 1 False" for r
proof (unfold_locales, goal_cases)
  case (1 s va pa perm)
  then obtain xs where "pt_inv s r xs" by blast
  from mappages_one [OF this 1(2-4), of pa perm] show ?case by (metis pt_frame_inv)
next
  case (2 s va)
  then obtain xs where inv: "pt_inv s r xs" by blast
  have "unat va + 4096 < 2 ^ 64" using page_below_MAXVA [OF 2(2,3)] by simp
  from in_range_Suc [OF 2(2) this, of 0] have "in_range va 1 vb \<longleftrightarrow> PGROUNDDOWN vb = va" for vb by simp
  with uvmunmap_one [OF inv 2(2,3)] show ?case unfolding unmap_post_def by auto
qed

section \<open>Properties\<close>

text \<open>
  C7: on a well-formed page table, \<open>mappages\<close> of \<open>n\<close> unmapped pages never panics. With result 0 all
  \<open>n\<close> pages are mapped, page \<open>i\<close> to the \<open>i\<close>-th frame from \<open>pa\<close>; with result -1 fewer than two pages
  are left free and a proper prefix of the range is mapped. Every other entry, and every byte
  outside the table pages and the formerly free pages, is unchanged, and table pages come off the
  front of the free list.
\<close>

theorem mappages_range:
  assumes "pt_inv s r xs" "page_aligned va" "0 < n" "unat va + 4096 * n \<le> unat MAXVA"
    and "\<And>vb. vb < MAXVA \<Longrightarrow> in_range va n vb \<Longrightarrow> \<not> valid_pte (pte_of (mem s) r vb)"
  shows "\<exists>rv s' ys k. mappages s r va (of_nat (4096 * n)) pa perm = Some (rv, s') \<and> pt_frame r s xs s' ys \<and>
     (if rv = 0 then k = n else rv = -1 \<and> k < n \<and> length ys < 2) \<and>
     (\<forall>vb < MAXVA. pte_of (mem s') r vb =
        (if in_range va k vb then PA2PTE (pa + (PGROUNDDOWN vb - va)) OR perm OR PTE_V
         else pte_of (mem s) r vb))"
proof -
  obtain j where j: "n = Suc j" using assms(3) by (cases n) auto
  have u: "unat (of_nat (4096 * n) :: u64) = 4096 * n"
    using assms(4) by (subst unat_of_nat) (simp add: mod_less)
  then have "(of_nat (4096 * n) :: u64) \<noteq> 0" using assms(3) by (metis mult_is_0 neq0_conv unat_0 zero_neq_numeral)
  moreover have "(of_nat (4096 * n) :: u64) mod 4096 = 0" using u by (simp add: word_eq_iff_unat unat_mod)
  moreover have "va + of_nat (4096 * n) - 4096 = va + of_nat (4096 * j)" by (simp add: j)
  ultimately have e: "mappages s r va (of_nat (4096 * n)) pa perm = mappages_loop s r va (va + of_nat (4096 * j)) pa perm"
    using assms(2) unfolding mappages_def page_aligned_def by (simp only: if_False simp_thms)
  have lt: "unat va + 4096 * j < unat MAXVA" using assms(4) j by simp
  have nv: "\<not> valid_pte (pte_of (mem s) r vb)" if "vb < MAXVA" "in_range va (Suc j) vb" for vb
    using assms(5) that j by simp
  have "\<exists>rv s' ys k. mappages_loop s r va (va + of_nat (4096 * j)) pa perm = Some (rv, s') \<and> pt_frame r s xs s' ys \<and>
     (if rv = 0 then k = Suc j else rv = -1 \<and> k \<le> j \<and> length ys < 2) \<and>
     (\<forall>vb < MAXVA. pte_of (mem s') r vb =
        (if in_range va k vb then PA2PTE (pa + (PGROUNDDOWN vb - va)) OR perm OR PTE_V
         else pte_of (mem s) r vb))"
    by (rule mappages_loop_spec [OF assms(1,2) lt refl]) (rule nv)
  then show ?thesis using j unfolding e by (simp only: less_Suc_eq_le)
qed

text \<open>
  C20: after \<open>mappages\<close> maps one user page with result 0, \<open>walkaddr\<close> translates every address of the
  page to its frame, and translates every other address as before.
\<close>

theorem mappages_walkaddr:
  assumes "pt_inv s r xs" "page_aligned va" "va < MAXVA" "\<not> valid_pte (pte_of (mem s) r va)"
    and "page_aligned pa" "perm < 0x400" "perm AND PTE_U \<noteq> 0"
    and "mappages s r va PGSIZE pa perm = Some (0, s')"
  shows "walkaddr s' r vb = (if PGROUNDDOWN vb = va then Some pa else walkaddr s r vb)"
proof -
  obtain ys where inv: "pt_inv s' r ys" and pte: "\<And>vb. vb < MAXVA \<Longrightarrow> pte_of (mem s') r vb =
      (if PGROUNDDOWN vb = va then PA2PTE pa OR (perm OR PTE_V) else pte_of (mem s) r vb)"
    using mappages_one [OF assms(1-4), of pa perm] assms(8) by (auto simp: or.assoc dest: pt_frame_inv)
  have "perm OR PTE_V < 0x400" using assms(6) by (intro flags_or_V)
  then have "PTE2PA (PA2PTE pa OR (perm OR PTE_V)) = pa" by (rule PTE2PA_PA2PTE [OF assms(5)])
  moreover have "valid_pte (PA2PTE pa OR (perm OR PTE_V))" "(PA2PTE pa OR (perm OR PTE_V)) AND PTE_U \<noteq> 0"
    using assms(7) by (simp_all add: PTE_tests bit_simps)
  moreover have "vb < MAXVA" if "PGROUNDDOWN vb = va"
    using that page_below_MAXVA [OF assms(2,3)] PGROUNDDOWN_gap [of vb] by (simp add: word_less_nat_alt)
  ultimately show ?thesis
    using pte [of vb] unfolding walkaddr_spec [OF inv] walkaddr_spec [OF assms(1)] by auto
qed

text \<open>
  C8: on a well-formed page table, \<open>uvmunmap\<close> of \<open>n\<close> pages with \<open>do_free\<close> never panics when the
  mapped frames are distinct RAM pages that are neither table pages nor free: it clears every
  valid entry of the range, leaves every other entry alone, and puts exactly the frames it
  unmapped, last one first, in front of the free list.
\<close>

theorem uvmunmap_range:
  assumes "pt_inv s r xs" "page_aligned va" "unat va + 4096 * n \<le> unat MAXVA"
    and "fs = frames (mem s) r va n" "distinct fs"
    and "\<forall>f \<in> set fs. ram_page s f \<and> f \<notin> pt_pages (mem s) r \<and> f \<notin> set xs"
  shows "\<exists>s'. uvmunmap s r va (of_nat n) True = Some s' \<and> pt_inv s' r (rev fs @ xs) \<and>
     (\<forall>vb < MAXVA. pte_of (mem s') r vb =
        (if in_range va n vb \<and> valid_pte (pte_of (mem s) r vb) then 0 else pte_of (mem s) r vb))"
proof -
  have "fs = (if True then frames (mem s) r va n else [])" using assms(4) by simp
  from uvmunmap_loop_spec [OF assms(1-3) refl this assms(5,6)] show ?thesis
    using assms(2) by (auto simp: uvmunmap_def page_aligned_def unmap_post_def mult.commute)
qed

text \<open>A machine with five free pages, the first of which becomes an empty page table.\<close>

definition five_pages :: phys where
  "five_pages = \<lparr>mem = store64 (store64 (store64 (store64 (store64 (\<lambda>_. 0)
       0x87FFB000 0x87FFC000) 0x87FFC000 0x87FFD000) 0x87FFD000 0x87FFE000) 0x87FFE000 0x87FFF000) 0x87FFF000 0,
     freelist = 0x87FFB000, kend = 0x80021000\<rparr>"

lemma five_pages_inv: "kmem_inv five_pages [0x87FFB000, 0x87FFC000, 0x87FFD000, 0x87FFE000, 0x87FFF000]"
  by (simp add: five_pages_def kmem_inv_def ram_page_def page_aligned_def
      load64_store64_same load64_store64_other)

definition empty_space :: phys where
  "empty_space = snd (uvmcreate five_pages)"

lemma empty_space:
  "pt_inv empty_space 0x87FFB000 [0x87FFC000, 0x87FFD000, 0x87FFE000, 0x87FFF000]"
  "pte_of (mem empty_space) 0x87FFB000 va = 0"
  "pt_pages (mem empty_space) 0x87FFB000 = {0x87FFB000}"
  "kend empty_space = 0x80021000"
proof -
  obtain r where r: "uvmcreate five_pages = (r, empty_space)" by (cases "uvmcreate five_pages") (simp add: empty_space_def)
  note u = uvmcreate_spec [OF five_pages_inv r]
  show "pt_inv empty_space 0x87FFB000 [0x87FFC000, 0x87FFD000, 0x87FFE000, 0x87FFF000]"
    "pte_of (mem empty_space) 0x87FFB000 va = 0" "pt_pages (mem empty_space) 0x87FFB000 = {0x87FFB000}"
    "kend empty_space = 0x80021000"
    using u(2,3,5,4) u(1) by (simp_all add: five_pages_def)
qed

theorem mappages_range_witness:
  "\<exists>rv s'. mappages empty_space 0x87FFB000 0x1000 (of_nat (4096 * 2)) 0x80100000 (PTE_R OR PTE_U) = Some (rv, s') \<and>
     pte_of (mem s') 0x87FFB000 0x9000 = 0"
proof -
  have "\<not> in_range 0x1000 k 0x9000" if "k \<le> 2" for k
    using that by (simp add: in_range_def PGROUNDDOWN_def)
  moreover have "page_aligned 0x1000" "unat (0x1000 :: u64) + 4096 * 2 \<le> unat MAXVA" "(0 :: nat) < 2"
    "(0x9000 :: u64) < MAXVA" by (simp_all add: page_aligned_def)
  moreover have "\<not> valid_pte (pte_of (mem empty_space) 0x87FFB000 vb)" for vb by (simp add: empty_space(2))
  ultimately show ?thesis
    using mappages_range [OF empty_space(1), of "0x1000" 2 "0x80100000" "PTE_R OR PTE_U"] empty_space(2)
    by (metis less_imp_le nle_le)
qed

text \<open>The address space after one frame is allocated and mapped at \<open>0x1000\<close>.\<close>

lemma one_page:
  obtains s1 s2 ys where "kalloc empty_space = (0x87FFC000, s1)"
    "mappages s1 0x87FFB000 0x1000 PGSIZE 0x87FFC000 (PTE_R OR PTE_W OR PTE_U) = Some (0, s2)"
    "pt_inv s1 0x87FFB000 [0x87FFD000, 0x87FFE000, 0x87FFF000]" "\<And>va. pte_of (mem s1) 0x87FFB000 va = 0"
    "pt_inv s2 0x87FFB000 ys" "0x87FFC000 \<notin> pt_pages (mem s2) 0x87FFB000 \<union> set ys" "ram_page s2 0x87FFC000"
    "pte_of (mem s2) 0x87FFB000 0x1000 = PA2PTE 0x87FFC000 OR (PTE_R OR PTE_W OR PTE_U) OR PTE_V"
proof -
  obtain s1 where k: "kalloc empty_space = (0x87FFC000, s1)"
    using kalloc_cons [OF pt_inv_kmem [OF empty_space(1)]] by simp
  note kp = kalloc_pt [OF empty_space(1) k]
  have "page_aligned 0x1000" "(0x1000 :: u64) < MAXVA" by (simp_all add: page_aligned_def)
  from mappages_one [OF kp(1) this, of "0x87FFC000" "PTE_R OR PTE_W OR PTE_U"] obtain s2 ys where
    s2: "mappages s1 0x87FFB000 0x1000 PGSIZE 0x87FFC000 (PTE_R OR PTE_W OR PTE_U) = Some (0, s2)"
      "pt_frame 0x87FFB000 s1 [0x87FFD000, 0x87FFE000, 0x87FFF000] s2 ys"
      "pte_of (mem s2) 0x87FFB000 0x1000 = PA2PTE 0x87FFC000 OR (PTE_R OR PTE_W OR PTE_U) OR PTE_V"
    using kp(2) empty_space(2) by (auto simp: page_aligned_def)
  from s2(2) obtain us where us: "[0x87FFD000, 0x87FFE000, 0x87FFF000] = us @ ys"
    "pt_pages (mem s2) 0x87FFB000 = pt_pages (mem s1) 0x87FFB000 \<union> set us" "kend s2 = kend s1"
    unfolding pt_frame_def by auto
  have "set us \<union> set ys = {0x87FFD000, 0x87FFE000, 0x87FFF000}"
    using us(1) by (metis list.set(1,2) set_append)
  then have "0x87FFC000 \<notin> pt_pages (mem s2) 0x87FFB000 \<union> set ys"
    using us(2) kp(3) empty_space(3) by auto
  moreover have "ram_page s2 0x87FFC000"
    using us(3) kalloc_kend [OF k] empty_space(4) by (simp add: ram_page_def page_aligned_def)
  ultimately show thesis
    using that [OF k s2(1) kp(1) _ pt_frame_inv [OF s2(2)] _ _ s2(3)] kp(2) empty_space(2) by simp
qed

theorem mappages_walkaddr_witness:
  "\<exists>s1 s2. mappages s1 0x87FFB000 0x1000 PGSIZE 0x87FFC000 (PTE_R OR PTE_W OR PTE_U) = Some (0, s2) \<and>
     walkaddr s2 0x87FFB000 0x1234 = Some 0x87FFC000"
proof -
  obtain s1 s2 where s: "mappages s1 0x87FFB000 0x1000 PGSIZE 0x87FFC000 (PTE_R OR PTE_W OR PTE_U) = Some (0, s2)"
    "pt_inv s1 0x87FFB000 [0x87FFD000, 0x87FFE000, 0x87FFF000]" "\<And>va. pte_of (mem s1) 0x87FFB000 va = 0"
    using one_page by metis
  have "walkaddr s2 0x87FFB000 0x1234 = Some 0x87FFC000"
    using mappages_walkaddr [OF s(2) _ _ _ _ _ _ s(1), of "0x1234"] s(3) by (simp add: page_aligned_def PGROUNDDOWN_def)
  with s(1) show ?thesis by blast
qed

theorem uvmunmap_range_witness:
  "\<exists>s2 s3. uvmunmap s2 0x87FFB000 0x1000 (of_nat 1) True = Some s3 \<and>
     pte_of (mem s2) 0x87FFB000 0x1000 \<noteq> 0 \<and> pte_of (mem s3) 0x87FFB000 0x1000 = 0"
proof -
  obtain s2 ys where s: "pt_inv s2 0x87FFB000 ys" "0x87FFC000 \<notin> pt_pages (mem s2) 0x87FFB000 \<union> set ys"
    "ram_page s2 0x87FFC000" "pte_of (mem s2) 0x87FFB000 0x1000 = PA2PTE 0x87FFC000 OR (PTE_R OR PTE_W OR PTE_U) OR PTE_V"
    by (rule one_page)
  have v: "PTE2PA (pte_of (mem s2) 0x87FFB000 0x1000) = 0x87FFC000" "valid_pte (pte_of (mem s2) 0x87FFB000 0x1000)"
    unfolding s(4) by (simp_all add: PTE2PA_def PA2PTE_def)
  have "page_aligned 0x1000" "unat (0x1000 :: u64) + 4096 * 1 \<le> unat MAXVA" "in_range 0x1000 1 0x1000"
    by (simp_all add: page_aligned_def in_range_def PGROUNDDOWN_def)
  moreover have "frames (mem s2) 0x87FFB000 0x1000 1 = [0x87FFC000]" using v by simp
  ultimately have "\<exists>s3. uvmunmap s2 0x87FFB000 0x1000 (of_nat 1) True = Some s3 \<and> pte_of (mem s3) 0x87FFB000 0x1000 = 0"
    using uvmunmap_range [OF s(1), of "0x1000" 1 "[0x87FFC000]"] s(2,3) v(2) by auto
  moreover have "pte_of (mem s2) 0x87FFB000 0x1000 \<noteq> 0" using v(2) by auto
  ultimately show ?thesis by blast
qed

end
