(* ===== verification/Fs.thy ===== *)
theory Fs
  imports Riscv
begin

text \<open>
  The file system of \<open>fs.c\<close>: block allocator, inodes, file contents, directories and path names.

  The functions run on the logical disk, the contents a \<open>bread\<close> returns: the buffer cache and the
  redo log sit below it. \<open>bread\<close> reads a block of it, \<open>set_block\<close> is a change of \<open>bp->data\<close>, and
  \<open>log_write\<close> records the block in the current transaction with the panics of \<open>log.c\<close>.
  \<open>brelse\<close> has no effect at this level. There is one disk, so the device number is kept in the
  inodes but does not index it.

  A \<open>struct inode *\<close> is an index into \<open>itable\<close>, the null pointer is \<open>None\<close> in results. A result
  \<open>None\<close> of a whole operation is a panic, or a wait that nothing can end while this operation
  runs alone: an inode lock already held, a full log in \<open>begin_op\<close>.

  Paths and names are C strings without their final NUL.
\<close>

section \<open>Blocks\<close>

type_synonym block = "nat \<Rightarrow> u8"

abbreviation BSIZE :: nat where "BSIZE \<equiv> 1024"
abbreviation NDIRECT :: nat where "NDIRECT \<equiv> 12"
abbreviation NINDIRECT :: nat where "NINDIRECT \<equiv> 256"
abbreviation MAXFILE :: nat where "MAXFILE \<equiv> 268"
abbreviation IPB :: u32 where "IPB \<equiv> 16"
abbreviation BPB :: nat where "BPB \<equiv> 8192"
abbreviation DIRSIZ :: nat where "DIRSIZ \<equiv> 14"
abbreviation ROOTDEV :: u32 where "ROOTDEV \<equiv> 1"
abbreviation ROOTINO :: u32 where "ROOTINO \<equiv> 1"
abbreviation FSMAGIC :: u32 where "FSMAGIC \<equiv> 0x10203040"
abbreviation NINODE :: nat where "NINODE \<equiv> 50"
abbreviation MAXOPBLOCKS :: int where "MAXOPBLOCKS \<equiv> 10"
abbreviation LOGBLOCKS :: int where "LOGBLOCKS \<equiv> 30"
abbreviation T_DIR :: u16 where "T_DIR \<equiv> 1"
abbreviation T_FILE :: u16 where "T_FILE \<equiv> 2"
abbreviation T_DEVICE :: u16 where "T_DEVICE \<equiv> 3"

text \<open>Little-endian fields of a block.\<close>

definition get16 :: "block \<Rightarrow> nat \<Rightarrow> u16" where
  "get16 b o' = ucast (b o') OR push_bit 8 (ucast (b (o' + 1)))"

definition get32 :: "block \<Rightarrow> nat \<Rightarrow> u32" where
  "get32 b o' = ucast (b o') OR push_bit 8 (ucast (b (o' + 1))) OR push_bit 16 (ucast (b (o' + 2)))
     OR push_bit 24 (ucast (b (o' + 3)))"

definition put16 :: "block \<Rightarrow> nat \<Rightarrow> u16 \<Rightarrow> block" where
  "put16 b o' v = b(o' := ucast v, o' + 1 := ucast (drop_bit 8 v))"

definition put32 :: "block \<Rightarrow> nat \<Rightarrow> u32 \<Rightarrow> block" where
  "put32 b o' v = b(o' := ucast v, o' + 1 := ucast (drop_bit 8 v), o' + 2 := ucast (drop_bit 16 v),
     o' + 3 := ucast (drop_bit 24 v))"

definition slice :: "block \<Rightarrow> nat \<Rightarrow> nat \<Rightarrow> u8 list" where
  "slice b o' m = map (\<lambda>i. b (o' + i)) [0..<m]"

definition splice :: "block \<Rightarrow> nat \<Rightarrow> u8 list \<Rightarrow> block" where
  "splice b o' bs = (\<lambda>i. if o' \<le> i \<and> i < o' + length bs then bs ! (i - o') else b i)"

section \<open>State\<close>

record superblock =
  magic :: u32
  sb_size :: u32
  nblocks :: u32
  ninodes :: u32
  nlog :: u32
  logstart :: u32
  inodestart :: u32
  bmapstart :: u32

record inode =
  i_dev :: u32
  i_inum :: u32
  i_ref :: int
  i_locked :: bool
  i_valid :: bool
  i_type :: u16
  i_major :: u16
  i_minor :: u16
  i_nlink :: u16
  i_size :: u32
  i_addrs :: "u32 list"

record fsys =
  sb :: superblock
  disk :: "u32 \<Rightarrow> block"
  lh_block :: "u32 list"
  outstanding :: int
  itable :: "inode list"

definition upd_inode :: "nat \<Rightarrow> (inode \<Rightarrow> inode) \<Rightarrow> fsys \<Rightarrow> fsys" where
  "upd_inode ip f s = s\<lparr>itable := (itable s)[ip := f (itable s ! ip)]\<rparr>"

section \<open>Logical disk and transactions\<close>

definition bread :: "fsys \<Rightarrow> u32 \<Rightarrow> block" where
  "bread s b = disk s b"

definition set_block :: "u32 \<Rightarrow> block \<Rightarrow> fsys \<Rightarrow> fsys" where
  "set_block b d s = s\<lparr>disk := (disk s)(b := d)\<rparr>"

definition log_write :: "fsys \<Rightarrow> u32 \<Rightarrow> fsys option" where
  "log_write s b =
     (if int (length (lh_block s)) \<ge> LOGBLOCKS then None
      else if outstanding s < 1 then None
      else if b \<in> set (lh_block s) then Some s
      else Some (s\<lparr>lh_block := lh_block s @ [b]\<rparr>))"

definition begin_op :: "fsys \<Rightarrow> fsys option" where
  "begin_op s =
     (if int (length (lh_block s)) + (outstanding s + 1) * MAXOPBLOCKS > LOGBLOCKS then None
      else Some (s\<lparr>outstanding := outstanding s + 1\<rparr>))"

definition end_op :: "fsys \<Rightarrow> fsys" where
  "end_op s =
     (let s1 = s\<lparr>outstanding := outstanding s - 1\<rparr>
      in if outstanding s1 = 0 then s1\<lparr>lh_block := []\<rparr> else s1)"

section \<open>Blocks of the disk\<close>

definition IBLOCK :: "u32 \<Rightarrow> superblock \<Rightarrow> u32" where
  "IBLOCK i b = i div IPB + inodestart b"

definition BBLOCK :: "u32 \<Rightarrow> superblock \<Rightarrow> u32" where
  "BBLOCK b sb' = b div of_nat BPB + bmapstart sb'"

definition readsb :: "fsys \<Rightarrow> superblock" where
  "readsb s =
     (let b = bread s 1
      in \<lparr>magic = get32 b 0, sb_size = get32 b 4, nblocks = get32 b 8, ninodes = get32 b 12,
          nlog = get32 b 16, logstart = get32 b 20, inodestart = get32 b 24, bmapstart = get32 b 28\<rparr>)"

definition bzero :: "fsys \<Rightarrow> u32 \<Rightarrow> fsys option" where
  "bzero s bno = log_write (set_block bno (\<lambda>_. 0) s) bno"

text \<open>The inner loop of \<open>balloc\<close>: the first clear bit from \<open>bi\<close> on, below \<open>lim\<close>.\<close>

function find_zero :: "block \<Rightarrow> nat \<Rightarrow> nat \<Rightarrow> nat option" where
  "find_zero blk bi lim =
     (if bi < lim
      then if \<not> bit (blk (bi div 8)) (bi mod 8) then Some bi else find_zero blk (bi + 1) lim
      else None)"
  by pat_completeness auto
termination by (relation "measure (\<lambda>(blk, bi, lim). lim - bi)") auto

function balloc_from :: "fsys \<Rightarrow> nat \<Rightarrow> (u32 \<times> fsys) option" where
  "balloc_from s b =
     (if b < unat (sb_size (sb s))
      then let bb = BBLOCK (of_nat b) (sb s); blk = bread s bb
           in (case find_zero blk 0 (min BPB (unat (sb_size (sb s)) - b)) of
                 Some bi \<Rightarrow> do {
                   s1 \<leftarrow> log_write (set_block bb (blk(bi div 8 := set_bit (bi mod 8) (blk (bi div 8)))) s) bb;
                   s2 \<leftarrow> bzero s1 (of_nat (b + bi));
                   Some (of_nat (b + bi), s2)
                 }
               | None \<Rightarrow> balloc_from s (b + BPB))
      else Some (0, s))"
  by pat_completeness auto
termination by (relation "measure (\<lambda>(s, b). unat (sb_size (sb s)) - b)") auto

definition balloc :: "fsys \<Rightarrow> (u32 \<times> fsys) option" where
  "balloc s = balloc_from s 0"

definition bfree :: "fsys \<Rightarrow> u32 \<Rightarrow> fsys option" where
  "bfree s b =
     (let bb = BBLOCK b (sb s); blk = bread s bb; bi = unat b mod BPB
      in if \<not> bit (blk (bi div 8)) (bi mod 8) then None
         else log_write (set_block bb (blk(bi div 8 := unset_bit (bi mod 8) (blk (bi div 8)))) s) bb)"

declare find_zero.simps [simp del] balloc_from.simps [simp del]

section \<open>Inodes\<close>

definition iinit :: "fsys \<Rightarrow> fsys" where
  "iinit s = s\<lparr>itable := map (\<lambda>i. i\<lparr>i_locked := False\<rparr>) (itable s)\<rparr>"

text \<open>The byte offset of an inode in its block.\<close>

definition doff :: "u32 \<Rightarrow> nat" where
  "doff inum = 64 * unat (inum mod IPB)"

definition iget :: "fsys \<Rightarrow> u32 \<Rightarrow> u32 \<Rightarrow> (nat \<times> fsys) option" where
  "iget s dev inum =
     (case first_idx (\<lambda>i. i_ref i > 0 \<and> i_dev i = dev \<and> i_inum i = inum) (itable s) of
        Some ip \<Rightarrow> Some (ip, upd_inode ip (\<lambda>i. i\<lparr>i_ref := i_ref i + 1\<rparr>) s)
      | None \<Rightarrow>
          (case first_idx (\<lambda>i. i_ref i = 0) (itable s) of
             None \<Rightarrow> None
           | Some ip \<Rightarrow> Some (ip, upd_inode ip (\<lambda>i. i\<lparr>i_dev := dev, i_inum := inum, i_ref := 1, i_valid := False\<rparr>) s)))"

definition idup :: "fsys \<Rightarrow> nat \<Rightarrow> fsys" where
  "idup s ip = upd_inode ip (\<lambda>i. i\<lparr>i_ref := i_ref i + 1\<rparr>) s"

text \<open>\<open>ialloc\<close> scans the inodes from number \<open>inum\<close> on.\<close>

function ialloc_from :: "fsys \<Rightarrow> u32 \<Rightarrow> u16 \<Rightarrow> nat \<Rightarrow> (nat option \<times> fsys) option" where
  "ialloc_from s dev type inum =
     (if inum < unat (ninodes (sb s))
      then let ib = IBLOCK (of_nat inum) (sb s); blk = bread s ib; o' = doff (of_nat inum)
           in if get16 blk o' = 0
              then do {
                s1 \<leftarrow> log_write (set_block ib (put16 (splice blk o' (replicate 64 0)) o' type) s) ib;
                (ip, s2) \<leftarrow> iget s1 dev (of_nat inum);
                Some (Some ip, s2)
              }
              else ialloc_from s dev type (inum + 1)
      else Some (None, s))"
  by pat_completeness auto
termination by (relation "measure (\<lambda>(s, dev, type, inum). unat (ninodes (sb s)) - inum)") auto

definition ialloc :: "fsys \<Rightarrow> u32 \<Rightarrow> u16 \<Rightarrow> (nat option \<times> fsys) option" where
  "ialloc s dev type = ialloc_from s dev type 1"

declare ialloc_from.simps [simp del]

definition put_addrs :: "block \<Rightarrow> nat \<Rightarrow> u32 list \<Rightarrow> block" where
  "put_addrs b o' as = fold (\<lambda>i b. put32 b (o' + 4 * i) (as ! i)) [0..<NDIRECT + 1] b"

definition iupdate :: "fsys \<Rightarrow> nat \<Rightarrow> fsys option" where
  "iupdate s ip =
     (let i = itable s ! ip; ib = IBLOCK (i_inum i) (sb s); o' = doff (i_inum i);
          b1 = put16 (bread s ib) o' (i_type i);
          b2 = put16 b1 (o' + 2) (i_major i);
          b3 = put16 b2 (o' + 4) (i_minor i);
          b4 = put16 b3 (o' + 6) (i_nlink i);
          b5 = put32 b4 (o' + 8) (i_size i);
          b6 = put_addrs b5 (o' + 12) (i_addrs i)
      in log_write (set_block ib b6 s) ib)"

text \<open>The fields of an inode as \<open>ilock\<close> reads them from its block.\<close>

definition load_dinode :: "block \<Rightarrow> nat \<Rightarrow> inode \<Rightarrow> inode" where
  "load_dinode b o' i = i\<lparr>i_type := get16 b o', i_major := get16 b (o' + 2), i_minor := get16 b (o' + 4),
     i_nlink := get16 b (o' + 6), i_size := get32 b (o' + 8),
     i_addrs := map (\<lambda>k. get32 b (o' + 12 + 4 * k)) [0..<NDIRECT + 1]\<rparr>"

definition ilock :: "fsys \<Rightarrow> nat \<Rightarrow> fsys option" where
  "ilock s ip =
     (let i = itable s ! ip
      in if i_ref i < 1 \<or> i_locked i then None
         else let s1 = upd_inode ip (\<lambda>i. i\<lparr>i_locked := True\<rparr>) s
              in if i_valid i then Some s1
                 else let b = bread s1 (IBLOCK (i_inum i) (sb s1));
                          s2 = upd_inode ip (\<lambda>i. (load_dinode b (doff (i_inum i)) i)\<lparr>i_valid := True\<rparr>) s1
                      in if i_type (itable s2 ! ip) = 0 then None else Some s2)"

definition iunlock :: "fsys \<Rightarrow> nat \<Rightarrow> fsys option" where
  "iunlock s ip =
     (if \<not> i_locked (itable s ! ip) \<or> i_ref (itable s ! ip) < 1 then None
      else Some (upd_inode ip (\<lambda>i. i\<lparr>i_locked := False\<rparr>) s))"

section \<open>File contents\<close>

definition bmap :: "fsys \<Rightarrow> nat \<Rightarrow> nat \<Rightarrow> (u32 \<times> fsys) option" where
  "bmap s ip bn =
     (if bn < NDIRECT
      then let addr = i_addrs (itable s ! ip) ! bn
           in if addr = 0
              then do {
                (addr, s1) \<leftarrow> balloc s;
                if addr = 0 then Some (0, s1)
                else Some (addr, upd_inode ip (\<lambda>i. i\<lparr>i_addrs := (i_addrs i)[bn := addr]\<rparr>) s1)
              }
              else Some (addr, s)
      else if bn - NDIRECT < NINDIRECT
      then do {
        (ind, s1) \<leftarrow> (if i_addrs (itable s ! ip) ! NDIRECT = 0
          then do {
            (addr, s1) \<leftarrow> balloc s;
            if addr = 0 then Some (0, s1)
            else Some (addr, upd_inode ip (\<lambda>i. i\<lparr>i_addrs := (i_addrs i)[NDIRECT := addr]\<rparr>) s1)
          }
          else Some (i_addrs (itable s ! ip) ! NDIRECT, s));
        if ind = 0 then Some (0, s1)
        else let addr = get32 (bread s1 ind) (4 * (bn - NDIRECT))
             in if addr = 0
                then do {
                  (addr, s2) \<leftarrow> balloc s1;
                  if addr = 0 then Some (0, s2)
                  else do {
                    s3 \<leftarrow> log_write (set_block ind (put32 (bread s2 ind) (4 * (bn - NDIRECT)) addr) s2) ind;
                    Some (addr, s3)
                  }
                }
                else Some (addr, s1)
      }
      else None)"

definition itrunc :: "fsys \<Rightarrow> nat \<Rightarrow> fsys option" where
  "itrunc s ip = do {
     s1 \<leftarrow> fold_opt (\<lambda>k s.
        if i_addrs (itable s ! ip) ! k \<noteq> 0
        then do {
          s' \<leftarrow> bfree s (i_addrs (itable s ! ip) ! k);
          Some (upd_inode ip (\<lambda>i. i\<lparr>i_addrs := (i_addrs i)[k := 0]\<rparr>) s')
        }
        else Some s) [0..<NDIRECT] s;
     s2 \<leftarrow> (let ind = i_addrs (itable s1 ! ip) ! NDIRECT
       in if ind \<noteq> 0
          then do {
            s' \<leftarrow> fold_opt (\<lambda>j s. if get32 (bread s1 ind) (4 * j) \<noteq> 0 then bfree s (get32 (bread s1 ind) (4 * j)) else Some s)
                   [0..<NINDIRECT] s1;
            s'' \<leftarrow> bfree s' ind;
            Some (upd_inode ip (\<lambda>i. i\<lparr>i_addrs := (i_addrs i)[NDIRECT := 0]\<rparr>) s'')
          }
          else Some s1);
     iupdate (upd_inode ip (\<lambda>i. i\<lparr>i_size := 0\<rparr>) s2) ip
   }"

definition iput :: "fsys \<Rightarrow> nat \<Rightarrow> fsys option" where
  "iput s ip =
     (let i = itable s ! ip
      in do {
        s1 \<leftarrow> (if i_ref i = 1 \<and> i_valid i \<and> i_nlink i = 0
          then if i_locked i then None
               else do {
                 s1 \<leftarrow> itrunc (upd_inode ip (\<lambda>i. i\<lparr>i_locked := True\<rparr>) s) ip;
                 s2 \<leftarrow> iupdate (upd_inode ip (\<lambda>i. i\<lparr>i_type := 0\<rparr>) s1) ip;
                 Some (upd_inode ip (\<lambda>i. i\<lparr>i_valid := False, i_locked := False\<rparr>) s2)
               }
          else Some s);
        Some (upd_inode ip (\<lambda>i. i\<lparr>i_ref := i_ref i - 1\<rparr>) s1)
      })"

definition iunlockput :: "fsys \<Rightarrow> nat \<Rightarrow> fsys option" where
  "iunlockput s ip = do { s1 \<leftarrow> iunlock s ip; iput s1 ip }"

definition ireclaim :: "fsys \<Rightarrow> u32 \<Rightarrow> fsys option" where
  "ireclaim s dev =
     fold_opt (\<lambda>inum s.
       let blk = bread s (IBLOCK (of_nat inum) (sb s)); o' = doff (of_nat inum)
       in if get16 blk o' \<noteq> 0 \<and> get16 blk (o' + 6) = 0
          then do {
            (ip, s1) \<leftarrow> iget s dev (of_nat inum);
            s2 \<leftarrow> begin_op s1;
            s3 \<leftarrow> ilock s2 ip;
            s4 \<leftarrow> iunlock s3 ip;
            s5 \<leftarrow> iput s4 ip;
            Some (end_op s5)
          }
          else Some s) [1..<unat (ninodes (sb s))] s"

text \<open>
  The log's recovery is part of \<open>Log\<close>: on the logical disk, \<open>initlog\<close> leaves an empty log and no
  operation under way.
\<close>

definition fsinit :: "fsys \<Rightarrow> u32 \<Rightarrow> fsys option" where
  "fsinit s dev =
     (let s1 = s\<lparr>sb := readsb s\<rparr>
      in if magic (sb s1) \<noteq> FSMAGIC then None
         else ireclaim (s1\<lparr>lh_block := [], outstanding := 0\<rparr>) dev)"

record stat =
  st_dev :: u32
  st_ino :: u32
  st_type :: u16
  st_nlink :: u16
  st_size :: u64

definition stati :: "fsys \<Rightarrow> nat \<Rightarrow> stat" where
  "stati s ip =
     (let i = itable s ! ip
      in \<lparr>st_dev = i_dev i, st_ino = i_inum i, st_type = i_type i, st_nlink = i_nlink i, st_size = ucast (i_size i)\<rparr>)"

text \<open>
  \<open>readi\<close> and \<open>writei\<close> take the function that moves the bytes (\<open>either_copyout\<close>, \<open>either_copyin\<close>)
  and the state \<open>e\<close> it moves them to or from as arguments: a copy to user memory may fault a page
  in and so use the file system itself. A copy-out gets the destination address and the bytes and
  returns 0 or -1; a copy-in returns that code and the bytes it moved before it stopped.
\<close>

type_synonym 'e copyout = "fsys \<Rightarrow> 'e \<Rightarrow> u64 \<Rightarrow> u8 list \<Rightarrow> (int \<times> fsys \<times> 'e) option"
type_synonym 'e copyin = "fsys \<Rightarrow> 'e \<Rightarrow> u64 \<Rightarrow> nat \<Rightarrow> (int \<times> u8 list \<times> fsys \<times> 'e) option"

definition chunk :: "u32 \<Rightarrow> u32 \<Rightarrow> u32 \<Rightarrow> u32" where
  "chunk n tot off = min (n - tot) (1024 - off mod 1024)"

lemma unat_bound32: "unat (n :: u32) < 2 ^ 32"
  using unsigned_less [of n, where 'a = nat] by simp

lemma chunk_bounds:
  assumes "tot < n"
  shows "unat (tot + chunk n tot off) = unat tot + unat (chunk n tot off)"
    and "0 < unat (chunk n tot off)" and "unat tot + unat (chunk n tot off) \<le> unat n"
    and "unat (off mod 1024) + unat (chunk n tot off) \<le> 1024"
proof -
  have o: "unat (off mod 1024) < 1024" by (simp add: unat_mod)
  then have le: "off mod 1024 \<le> 1024" by (simp add: word_le_nat_alt)
  have "unat (n - tot) = unat n - unat tot" using assms by (intro unat_sub) (rule order_less_imp_le)
  then have m: "unat (chunk n tot off) = min (unat n - unat tot) (1024 - unat (off mod 1024))"
    using le by (simp add: chunk_def min_def word_le_nat_alt unat_sub)
  have lt: "unat tot < unat n" using assms by (simp add: word_less_nat_alt)
  show "0 < unat (chunk n tot off)" "unat tot + unat (chunk n tot off) \<le> unat n"
    "unat (off mod 1024) + unat (chunk n tot off) \<le> 1024" using m lt o by simp_all
  then have "unat tot + unat (chunk n tot off) < 2 ^ 32" using unat_bound32 [of n] by simp
  then show "unat (tot + chunk n tot off) = unat tot + unat (chunk n tot off)" by (simp add: unat_word_ariths)
qed

function readi_loop :: "'e copyout \<Rightarrow> fsys \<Rightarrow> 'e \<Rightarrow> nat \<Rightarrow> u64 \<Rightarrow> u32 \<Rightarrow> u32 \<Rightarrow> u32 \<Rightarrow> (int \<times> fsys \<times> 'e) option" where
  "readi_loop cp s e ip dst off n tot =
     (if tot < n
      then Option.bind (bmap s ip (unat off div BSIZE)) (\<lambda>(addr, s1).
             if addr = 0 then Some (sint tot, s1, e)
             else let m = chunk n tot off
                  in Option.bind (cp s1 e dst (slice (bread s1 addr) (unat off mod BSIZE) (unat m))) (\<lambda>(r, s2, e2).
                       if r = -1 then Some (-1, s2, e2)
                       else readi_loop cp s2 e2 ip (dst + ucast m) (off + m) n (tot + m)))
      else Some (sint tot, s, e))"
  by pat_completeness auto
termination
proof (relation "measure (\<lambda>(cp, s, e, ip, dst, off, n, tot). unat n - unat tot)", goal_cases)
  case 1
  show ?case by (rule wf_measure)
next
  case (2 cp s e ip dst off n tot)
  then show ?case using chunk_bounds [of tot n off] by simp
qed

definition readi :: "'e copyout \<Rightarrow> fsys \<Rightarrow> 'e \<Rightarrow> nat \<Rightarrow> u64 \<Rightarrow> u32 \<Rightarrow> u32 \<Rightarrow> (int \<times> fsys \<times> 'e) option" where
  "readi cp s e ip dst off n =
     (let size = i_size (itable s ! ip)
      in if off > size \<or> off + n < off then Some (0, s, e)
         else readi_loop cp s e ip dst off (if off + n > size then size - off else n) 0)"

text \<open>The result carries the offset at which the loop stopped.\<close>

function writei_loop :: "'e copyin \<Rightarrow> fsys \<Rightarrow> 'e \<Rightarrow> nat \<Rightarrow> u64 \<Rightarrow> u32 \<Rightarrow> u32 \<Rightarrow> u32 \<Rightarrow> (u32 \<times> u32 \<times> fsys \<times> 'e) option" where
  "writei_loop cp s e ip src off n tot =
     (if tot < n
      then Option.bind (bmap s ip (unat off div BSIZE)) (\<lambda>(addr, s1).
             if addr = 0 then Some (tot, off, s1, e)
             else let m = chunk n tot off
                  in Option.bind (cp s1 e src (unat m)) (\<lambda>(r, bs, s2, e2).
                       let s3 = set_block addr (splice (bread s2 addr) (unat off mod BSIZE) bs) s2
                       in if r = -1 then Some (tot, off, s3, e2)
                          else Option.bind (log_write s3 addr) (\<lambda>s4.
                                 writei_loop cp s4 e2 ip (src + ucast m) (off + m) n (tot + m))))
      else Some (tot, off, s, e))"
  by pat_completeness auto
termination
proof (relation "measure (\<lambda>(cp, s, e, ip, src, off, n, tot). unat n - unat tot)", goal_cases)
  case 1
  show ?case by (rule wf_measure)
next
  case (2 cp s e ip src off n tot)
  then show ?case using chunk_bounds [of tot n off] by simp
qed

definition writei :: "'e copyin \<Rightarrow> fsys \<Rightarrow> 'e \<Rightarrow> nat \<Rightarrow> u64 \<Rightarrow> u32 \<Rightarrow> u32 \<Rightarrow> (int \<times> fsys \<times> 'e) option" where
  "writei cp s e ip src off n =
     (if off > i_size (itable s ! ip) \<or> off + n < off then Some (-1, s, e)
      else if unat (off + n) > MAXFILE * BSIZE then Some (-1, s, e)
      else do {
        (tot, off', s1, e1) \<leftarrow> writei_loop cp s e ip src off n 0;
        s2 \<leftarrow> iupdate (if off' > i_size (itable s1 ! ip) then upd_inode ip (\<lambda>i. i\<lparr>i_size := off'\<rparr>) s1 else s1) ip;
        Some (sint tot, s2, e1)
      })"

declare readi_loop.simps [simp del] writei_loop.simps [simp del]

section \<open>Directories\<close>

text \<open>A read into a local variable appends the bytes to it; a write from one takes them from it.\<close>

definition local_out :: "u8 list copyout" where
  "local_out s e dst bs = Some (0, s, e @ bs)"

definition local_in :: "u8 list copyin" where
  "local_in s e src m = Some (0, take m (drop (unat src) e), s, e)"

definition char_at :: "u8 list \<Rightarrow> u8" where
  "char_at cs = (case cs of [] \<Rightarrow> 0 | c # _ \<Rightarrow> c)"

primrec strncmp_list :: "u8 list \<Rightarrow> u8 list \<Rightarrow> nat \<Rightarrow> int" where
  "strncmp_list p q 0 = 0"
| "strncmp_list p q (Suc n) =
     (if char_at p \<noteq> 0 \<and> char_at p = char_at q then strncmp_list (tl p) (tl q) n
      else uint (char_at p) - uint (char_at q))"

definition namecmp :: "u8 list \<Rightarrow> u8 list \<Rightarrow> int" where
  "namecmp s t = strncmp_list s t DIRSIZ"

text \<open>A directory entry: the 16 bytes of \<open>struct dirent\<close>.\<close>

definition de_inum :: "u8 list \<Rightarrow> u16" where
  "de_inum de = ucast (de ! 0) OR push_bit 8 (ucast (de ! 1))"

definition de_name :: "u8 list \<Rightarrow> u8 list" where
  "de_name de = drop 2 de"

definition mk_dirent :: "u16 \<Rightarrow> u8 list \<Rightarrow> u8 list" where
  "mk_dirent inum name = [ucast inum, ucast (drop_bit 8 inum)] @ take DIRSIZ (name @ replicate DIRSIZ 0)"

lemma readi_no_wrap:
  assumes "readi cp s e ip dst off 16 = Some (16, s', e')"
  shows "off \<le> off + 16"
  using assms by (auto simp: readi_def Let_def split: if_splits)

lemma off_step: "off \<le> off + 16 \<Longrightarrow> 2 ^ 32 - unat (off + 16) < 2 ^ 32 - unat (off :: u32)"
  using unat_bound32 [of "off + 16"] by (simp add: word_le_nat_alt unat_plus_if' split: if_splits)

text \<open>The loop of \<open>dirlookup\<close>; the result is the inode and the offset of its entry.\<close>

function dirlookup_loop :: "fsys \<Rightarrow> nat \<Rightarrow> u8 list \<Rightarrow> u32 \<Rightarrow> ((nat \<times> u32) option \<times> fsys) option" where
  "dirlookup_loop s dp name off =
     (if off < i_size (itable s ! dp)
      then Option.bind (readi local_out s [] dp 0 off 16) (\<lambda>(r, s1, de).
             if r \<noteq> 16 then None
             else if de_inum de \<noteq> 0 \<and> namecmp name (de_name de) = 0
             then Option.bind (iget s1 (i_dev (itable s1 ! dp)) (ucast (de_inum de))) (\<lambda>(ip, s2).
                    Some (Some (ip, off), s2))
             else dirlookup_loop s1 dp name (off + 16))
      else Some (None, s))"
  by pat_completeness auto
termination
proof (relation "measure (\<lambda>(s, dp, name, off). 2 ^ 32 - unat off)", goal_cases)
  case 1
  show ?case by (rule wf_measure)
next
  case (2 s dp name off)
  then show ?case using off_step [OF readi_no_wrap, of _ _ _ _ _ off] by fastforce
qed

definition dirlookup :: "fsys \<Rightarrow> nat \<Rightarrow> u8 list \<Rightarrow> ((nat \<times> u32) option \<times> fsys) option" where
  "dirlookup s dp name =
     (if i_type (itable s ! dp) \<noteq> T_DIR then None
      else dirlookup_loop s dp name 0)"

text \<open>The loop of \<open>dirlink\<close>: the offset of the first free entry, or the end of the directory.\<close>

function dirlink_slot :: "fsys \<Rightarrow> nat \<Rightarrow> u32 \<Rightarrow> (u32 \<times> fsys) option" where
  "dirlink_slot s dp off =
     (if off < i_size (itable s ! dp)
      then Option.bind (readi local_out s [] dp 0 off 16) (\<lambda>(r, s1, de).
             if r \<noteq> 16 then None
             else if de_inum de = 0 then Some (off, s1)
             else dirlink_slot s1 dp (off + 16))
      else Some (off, s))"
  by pat_completeness auto
termination
proof (relation "measure (\<lambda>(s, dp, off). 2 ^ 32 - unat off)", goal_cases)
  case 1
  show ?case by (rule wf_measure)
next
  case (2 s dp off)
  then show ?case using off_step [OF readi_no_wrap, of _ _ _ _ _ off] by fastforce
qed

definition dirlink :: "fsys \<Rightarrow> nat \<Rightarrow> u8 list \<Rightarrow> u32 \<Rightarrow> (int \<times> fsys) option" where
  "dirlink s dp name inum = do {
     (r, s1) \<leftarrow> dirlookup s dp name;
     case r of
       Some (ip, _) \<Rightarrow> do { s2 \<leftarrow> iput s1 ip; Some (-1, s2) }
     | None \<Rightarrow> do {
         (off, s2) \<leftarrow> dirlink_slot s1 dp 0;
         (n, s3, _) \<leftarrow> writei local_in s2 (mk_dirent (ucast inum) name) dp 0 off 16;
         Some (if n \<noteq> 16 then -1 else 0, s3)
       }
   }"

declare dirlookup_loop.simps [simp del] dirlink_slot.simps [simp del]

section \<open>Paths\<close>

abbreviation slash :: u8 where "slash \<equiv> 47"

text \<open>\<open>skipelem\<close>: the rest of the path and the name, or \<open>None\<close> when there is no name left.\<close>

definition skipelem :: "u8 list \<Rightarrow> (u8 list \<times> u8 list) option" where
  "skipelem path =
     (let path1 = dropWhile (\<lambda>c. c = slash) path
      in if path1 = [] then None
         else let s = takeWhile (\<lambda>c. c \<noteq> slash) path1;
                  path2 = dropWhile (\<lambda>c. c \<noteq> slash) path1
              in Some (dropWhile (\<lambda>c. c = slash) path2, take DIRSIZ s))"

lemma skipelem_shorter:
  assumes "skipelem path = Some (path', name)"
  shows "length path' < length path"
proof -
  let ?p = "dropWhile (\<lambda>c. c = slash) path"
  have ne: "?p \<noteq> []" and path': "path' = dropWhile (\<lambda>c. c = slash) (dropWhile (\<lambda>c. c \<noteq> slash) ?p)"
    using assms by (auto simp: skipelem_def Let_def split: if_splits)
  have "hd ?p \<noteq> slash" using hd_dropWhile [OF ne] by simp
  then have "dropWhile (\<lambda>c. c \<noteq> slash) ?p = dropWhile (\<lambda>c. c \<noteq> slash) (tl ?p)"
    using ne by (cases ?p) auto
  then have "length path' \<le> length (tl ?p)"
    unfolding path' by (simp only: order_trans [OF length_dropWhile_le length_dropWhile_le])
  also have "length (tl ?p) < length ?p" using ne by simp
  also have "length ?p \<le> length path" by (rule length_dropWhile_le)
  finally show ?thesis .
qed

text \<open>The loop of \<open>namex\<close>. The result is the inode and the last name found.\<close>

function namex_loop :: "fsys \<Rightarrow> nat \<Rightarrow> u8 list \<Rightarrow> bool \<Rightarrow> u8 list \<Rightarrow> ((nat \<times> u8 list) option \<times> fsys) option" where
  "namex_loop s ip path nameiparent name =
     (case skipelem path of
        None \<Rightarrow>
          if nameiparent then Option.bind (iput s ip) (\<lambda>s1. Some (None, s1))
          else Some (Some (ip, name), s)
      | Some (path', name') \<Rightarrow>
          Option.bind (ilock s ip) (\<lambda>s1.
            if i_type (itable s1 ! ip) \<noteq> T_DIR
            then Option.bind (iunlockput s1 ip) (\<lambda>s2. Some (None, s2))
            else if nameiparent \<and> path' = []
            then Option.bind (iunlock s1 ip) (\<lambda>s2. Some (Some (ip, name'), s2))
            else Option.bind (dirlookup s1 ip name') (\<lambda>(next, s2).
                   case next of
                     None \<Rightarrow> Option.bind (iunlockput s2 ip) (\<lambda>s3. Some (None, s3))
                   | Some (next_ip, _) \<Rightarrow> Option.bind (iunlockput s2 ip) (\<lambda>s3.
                       namex_loop s3 next_ip path' nameiparent name'))))"
  by pat_completeness auto
termination
  by (relation "measure (\<lambda>(s, ip, path, nameiparent, name). length path)") (auto dest: skipelem_shorter)

definition namex :: "fsys \<Rightarrow> nat \<Rightarrow> u8 list \<Rightarrow> bool \<Rightarrow> ((nat \<times> u8 list) option \<times> fsys) option" where
  "namex s cwd path nameiparent = do {
     (ip, s1) \<leftarrow> (if char_at path = slash then iget s ROOTDEV ROOTINO else Some (cwd, idup s cwd));
     namex_loop s1 ip path nameiparent []
   }"

definition namei :: "fsys \<Rightarrow> nat \<Rightarrow> u8 list \<Rightarrow> (nat option \<times> fsys) option" where
  "namei s cwd path = do {
     (r, s1) \<leftarrow> namex s cwd path False;
     Some (map_option fst r, s1)
   }"

definition nameiparent :: "fsys \<Rightarrow> nat \<Rightarrow> u8 list \<Rightarrow> ((nat \<times> u8 list) option \<times> fsys) option" where
  "nameiparent s cwd path = namex s cwd path True"

declare namex_loop.simps [simp del]

end
