(* ===== verification/Fsinv.thy ===== *)
theory Fsinv
  imports Fs
begin

text \<open>
  The contents of a file as a function from offsets to bytes, the invariant of the block map that
  makes it meaningful, and what \<open>bmap\<close>, \<open>readi\<close> and \<open>writei\<close> do to it.
\<close>

lemma unat_of_nat32: "n < 2 ^ 32 \<Longrightarrow> unat (of_nat n :: u32) = n"
  by (simp add: unat_of_nat)

section \<open>Fields of a block\<close>

lemma get32_put32_same: "get32 (put32 b k v) k = v"
proof (rule bit_word_eqI)
  fix n assume "n < LENGTH(32)"
  then consider "n < 8" | "8 \<le> n" "n < 16" | "16 \<le> n" "n < 24" | "24 \<le> n" "n < 32" by fastforce
  then show "bit (get32 (put32 b k v) k) n = bit v n"
    by cases (auto simp: get32_def put32_def bit_simps)
qed

lemma get32_put32_other: "k + 4 \<le> j \<or> j + 4 \<le> k \<Longrightarrow> get32 (put32 b k v) j = get32 b j"
  by (auto simp: get32_def put32_def)

lemma get16_put16_same: "get16 (put16 b k v) k = v"
  by (intro bit_word_eqI) (auto simp: get16_def put16_def bit_simps)

lemma get32_zero [simp]: "get32 (\<lambda>_. 0) k = 0"
  by (simp add: get32_def)

lemma length_slice [simp]: "length (slice b k m) = m"
  by (simp add: slice_def)

section \<open>The block map and the contents of a file\<close>

definition baddr :: "fsys \<Rightarrow> nat \<Rightarrow> nat \<Rightarrow> u32" where
  "baddr s ip bn =
     (let as = i_addrs (itable s ! ip)
      in if bn < NDIRECT then as ! bn
         else if as ! NDIRECT = 0 then 0 else get32 (disk s (as ! NDIRECT)) (4 * (bn - NDIRECT)))"

definition fbyte :: "fsys \<Rightarrow> nat \<Rightarrow> nat \<Rightarrow> u8" where
  "fbyte s ip k = (if baddr s ip (k div BSIZE) = 0 then 0 else disk s (baddr s ip (k div BSIZE)) (k mod BSIZE))"

text \<open>Metadata blocks, and the blocks the free map marks in use.\<close>

definition meta :: "fsys \<Rightarrow> u32 set" where
  "meta s = {IBLOCK i (sb s) | i. i < ninodes (sb s)} \<union> {BBLOCK b (sb s) | b. b < sb_size (sb s)}"

definition marked :: "fsys \<Rightarrow> u32 \<Rightarrow> bool" where
  "marked s b \<longleftrightarrow> bit (disk s (BBLOCK b (sb s)) (unat b mod BPB div 8)) (unat b mod 8)"

definition layout_ok :: "fsys \<Rightarrow> bool" where
  "layout_ok s \<longleftrightarrow> 0 < sb_size (sb s) \<and> marked s 0 \<and> (\<forall>b \<in> meta s. b < sb_size (sb s) \<and> marked s b) \<and>
     (\<forall>i < ninodes (sb s). \<forall>b < sb_size (sb s). IBLOCK i (sb s) \<noteq> BBLOCK b (sb s))"

text \<open>The blocks of a file: its data blocks and its indirect block.\<close>

definition data_ok :: "fsys \<Rightarrow> u32 \<Rightarrow> bool" where
  "data_ok s b \<longleftrightarrow> b < sb_size (sb s) \<and> b \<notin> meta s \<and> marked s b"

definition bmap_ok :: "fsys \<Rightarrow> u32 \<Rightarrow> (nat \<Rightarrow> u32) \<Rightarrow> bool" where
  "bmap_ok s ind bm \<longleftrightarrow>
     (ind \<noteq> 0 \<longrightarrow> data_ok s ind) \<and>
     (\<forall>bn < MAXFILE. bm bn \<noteq> 0 \<longrightarrow> data_ok s (bm bn) \<and> bm bn \<noteq> ind) \<and>
     (\<forall>bn < MAXFILE. \<forall>bm' < MAXFILE. bm bn \<noteq> 0 \<longrightarrow> bm bn = bm bm' \<longrightarrow> bn = bm')"

abbreviation iaddr :: "fsys \<Rightarrow> nat \<Rightarrow> u32" where
  "iaddr s ip \<equiv> i_addrs (itable s ! ip) ! NDIRECT"

definition file_inv :: "fsys \<Rightarrow> nat \<Rightarrow> bool" where
  "file_inv s ip \<longleftrightarrow>
     ip < length (itable s) \<and> length (i_addrs (itable s ! ip)) = NDIRECT + 1 \<and>
     i_inum (itable s ! ip) < ninodes (sb s) \<and> bmap_ok s (iaddr s ip) (baddr s ip)"

lemma log_write_Some:
  assumes "log_write s b = Some s'"
  shows "disk s' = disk s" "itable s' = itable s" "sb s' = sb s" "outstanding s' = outstanding s"
  using assms by (auto simp: log_write_def split: if_splits)

lemma set_block_simps [simp]:
  "disk (set_block b d s) = (disk s)(b := d)" "itable (set_block b d s) = itable s"
  "sb (set_block b d s) = sb s" "outstanding (set_block b d s) = outstanding s"
  by (simp_all add: set_block_def)

lemma upd_inode_simps [simp]:
  "disk (upd_inode ip f s) = disk s" "sb (upd_inode ip f s) = sb s" "length (itable (upd_inode ip f s)) = length (itable s)"
  "outstanding (upd_inode ip f s) = outstanding s"
  "ip < length (itable s) \<Longrightarrow> itable (upd_inode ip f s) ! ip = f (itable s ! ip)"
  "ip \<noteq> jp \<Longrightarrow> itable (upd_inode ip f s) ! jp = itable s ! jp"
  by (simp_all add: upd_inode_def)

section \<open>balloc\<close>

lemma find_zero_Some:
  "find_zero blk bi lim = Some k \<Longrightarrow> bi \<le> k \<and> k < lim \<and> \<not> bit (blk (k div 8)) (k mod 8)"
proof (induction blk bi lim rule: find_zero.induct)
  case (1 blk bi lim)
  then show ?case by (subst (asm) (2) find_zero.simps) (auto split: if_splits)
qed

lemma balloc_from_Some:
  assumes "balloc_from s b = Some (a, s')" "8192 dvd b"
  shows "a = 0 \<and> s' = s \<or>
     (\<not> marked s a \<and> a < sb_size (sb s) \<and> itable s' = itable s \<and> sb s' = sb s \<and> outstanding s' = outstanding s \<and>
      disk s' = (disk s)(BBLOCK a (sb s) := (disk s (BBLOCK a (sb s)))
          (unat a mod BPB div 8 := set_bit (unat a mod 8) (disk s (BBLOCK a (sb s)) (unat a mod BPB div 8))), a := (\<lambda>_. 0)))"
  using assms
proof (induction s b rule: balloc_from.induct)
  case (1 s b)
  show ?case
  proof (cases "b < unat (sb_size (sb s))")
    case False
    then show ?thesis using 1 by (simp add: balloc_from.simps [of s b])
  next
    case True
    let ?bb = "BBLOCK (of_nat b) (sb s)"
    let ?z = "find_zero (bread s ?bb) 0 (min BPB (unat (sb_size (sb s)) - b))"
    show ?thesis
    proof (cases ?z)
      case None
      then show ?thesis using 1 True by (simp add: balloc_from.simps [of s b] Let_def)
    next
      case (Some bi)
      note fz = find_zero_Some [OF Some]
      have lt: "b + bi < unat (sb_size (sb s))" using fz by auto
      have u: "unat (of_nat (b + bi) :: u32) = b + bi"
        using lt unat_bound32 [of "sb_size (sb s)"] by (intro unat_of_nat32) simp
      obtain c where c: "b = 8192 * c" using "1.prems"(2) by blast
      have bi: "bi < 8192" using fz by simp
      have b8: "b + bi = bi + 8 * (1024 * c)" using c by simp
      have md: "(b + bi) mod BPB = bi" "(b + bi) mod 8 = bi mod 8" "(b + bi) div BPB = c" "b div BPB = c"
        using bi by (simp add: c, simp only: b8 mod_mult_self2, simp_all add: c)
      have "unat (of_nat b :: u32) = b"
        using lt unat_bound32 [of "sb_size (sb s)"] by (intro unat_of_nat32) simp
      then have bb: "BBLOCK (of_nat (b + bi)) (sb s) = ?bb"
        using u md(3,4) by (simp add: BBLOCK_def word_eq_iff_unat [of "of_nat (b + bi) div _"] unat_div del: of_nat_add)
      obtain s1 s2 where s1: "log_write (set_block ?bb ((bread s ?bb)
             (bi div 8 := set_bit (bi mod 8) (bread s ?bb (bi div 8)))) s) ?bb = Some s1"
        and s2: "bzero s1 (of_nat (b + bi)) = Some s2" and a: "a = of_nat (b + bi)" "s' = s2"
        using "1.prems"(1) True Some by (auto simp: balloc_from.simps [of s b] Let_def bind_eq_Some_conv)
      have "\<not> marked s a" using fz u md bb by (simp add: marked_def a bread_def)
      moreover have "a < sb_size (sb s)" using lt u by (simp add: a word_less_nat_alt)
      ultimately show ?thesis
        using log_write_Some [OF s1] log_write_Some [OF s2 [unfolded bzero_def]] u md bb
        by (simp add: a bread_def fun_eq_iff del: of_nat_add)
    qed
  qed
qed

lemma block_bit_eq:
  assumes "BBLOCK a sb' = BBLOCK b sb'" "unat a mod BPB div 8 = unat b mod BPB div 8" "unat a mod 8 = unat b mod 8"
  shows "a = b"
proof -
  have d: "unat a div 8192 = unat b div 8192"
    using assms(1) by (simp add: BBLOCK_def word_eq_iff_unat [of "a div _"] unat_div)
  have "unat a mod 8192 = unat a mod 8192 div 8 * 8 + unat a mod 8" for a :: u32
    using div_mult_mod_eq [of "unat a mod 8192" 8] by (simp add: mod_mod_cancel)
  from this [of a] this [of b] have "unat a mod 8192 = unat b mod 8192" using assms(2,3) by simp
  then have "unat a = unat b" using d by (metis div_mult_mod_eq)
  then show ?thesis by (simp add: word_eq_iff_unat)
qed

text \<open>\<open>balloc\<close> on a well-formed disk: a fresh zeroed block, or nothing.\<close>

lemma balloc_Some:
  assumes "balloc s = Some (a, s')" "layout_ok s"
  shows "itable s' = itable s" and "sb s' = sb s" and "outstanding s' = outstanding s" and "a = 0 \<Longrightarrow> s' = s"
    and "a \<noteq> 0 \<Longrightarrow> \<not> marked s a \<and> a < sb_size (sb s) \<and> a \<notin> meta s"
    and "a \<noteq> 0 \<Longrightarrow> disk s' a = (\<lambda>_. 0)"
    and "a \<noteq> 0 \<Longrightarrow> b \<noteq> a \<Longrightarrow> b \<notin> meta s \<Longrightarrow> disk s' b = disk s b"
    and "a \<noteq> 0 \<Longrightarrow> b < sb_size (sb s) \<Longrightarrow> marked s' b \<longleftrightarrow> b = a \<or> marked s b"
proof -
  note bf = balloc_from_Some [OF assms(1) [unfolded balloc_def] dvd_0_right]
  have m0: "marked s 0" using assms(2) by (simp add: layout_ok_def)
  show "itable s' = itable s" "sb s' = sb s" "outstanding s' = outstanding s" using bf by auto
  show "a = 0 \<Longrightarrow> s' = s" using bf m0 by auto
  assume a: "a \<noteq> 0"
  then have f: "\<not> marked s a" "a < sb_size (sb s)" "disk s' = (disk s)(BBLOCK a (sb s) := (disk s (BBLOCK a (sb s)))
          (unat a mod BPB div 8 := set_bit (unat a mod 8) (disk s (BBLOCK a (sb s)) (unat a mod BPB div 8))), a := (\<lambda>_. 0))"
    "sb s' = sb s" using bf by auto
  show am: "\<not> marked s a \<and> a < sb_size (sb s) \<and> a \<notin> meta s" using f assms(2) by (auto simp: layout_ok_def)
  have bm: "BBLOCK b (sb s) \<in> meta s" if "b < sb_size (sb s)" for b using that by (auto simp: meta_def)
  show "disk s' a = (\<lambda>_. 0)" by (simp add: f)
  show "b \<noteq> a \<Longrightarrow> b \<notin> meta s \<Longrightarrow> disk s' b = disk s b" using bm [OF f(2)] by (auto simp: f(3))
  assume b: "b < sb_size (sb s)"
  have ne: "BBLOCK b (sb s) \<noteq> a" using bm [OF b] am by auto
  show "marked s' b \<longleftrightarrow> b = a \<or> marked s b"
  proof (cases "BBLOCK b (sb s) = BBLOCK a (sb s)")
    case False
    then have "marked s' b \<longleftrightarrow> marked s b" using ne by (simp add: marked_def f)
    then show ?thesis using False by auto
  next
    case True
    define blk ia ja ib jb where "blk = disk s (BBLOCK a (sb s))" and "ia = unat a mod BPB div 8"
      and "ja = unat a mod 8" and "ib = unat b mod BPB div 8" and "jb = unat b mod 8"
    have "marked s' b \<longleftrightarrow> bit ((blk(ia := set_bit ja (blk ia))) ib) jb" "marked s b \<longleftrightarrow> bit (blk ib) jb"
      unfolding marked_def f(4) f(3) using True ne by (simp_all add: blk_def ia_def ja_def ib_def jb_def)
    moreover have "b = a \<longleftrightarrow> ib = ia \<and> jb = ja"
      using block_bit_eq [OF True] by (auto simp: ia_def ja_def ib_def jb_def)
    moreover have "jb < 8" by (simp add: jb_def)
    ultimately show ?thesis by (auto simp: bit_simps)
  qed
qed

section \<open>bmap\<close>

text \<open>A block that no file block map refers to.\<close>

definition fresh :: "u32 \<Rightarrow> u32 \<Rightarrow> (nat \<Rightarrow> u32) \<Rightarrow> bool" where
  "fresh a ind bm \<longleftrightarrow> a \<noteq> 0 \<and> a \<noteq> ind \<and> (\<forall>bn < MAXFILE. bm bn \<noteq> a)"

lemma bmap_ok_install:
  assumes "bmap_ok s ind bm" "data_ok s a" "fresh a ind bm"
  shows "bmap_ok s ind (bm(bn := a))" and "ind = 0 \<Longrightarrow> bmap_ok s a bm"
  using assms unfolding bmap_ok_def fresh_def by (simp_all, metis)

lemma bmap_ok_mono:
  assumes "bmap_ok s ind bm" "\<And>b. data_ok s b \<Longrightarrow> data_ok s' b"
  shows "bmap_ok s' ind bm"
  using assms by (simp add: bmap_ok_def)

lemma data_ok_cong: "disk s' = disk s \<Longrightarrow> sb s' = sb s \<Longrightarrow> data_ok s' b = data_ok s b"
  by (simp add: data_ok_def marked_def meta_def)

lemma layout_ok_cong: "disk s' = disk s \<Longrightarrow> sb s' = sb s \<Longrightarrow> layout_ok s' = layout_ok s"
  by (simp add: layout_ok_def marked_def meta_def)

lemma meta_cong: "sb s' = sb s \<Longrightarrow> meta s' = meta s"
  by (simp add: meta_def)

lemma baddr_cong:
  assumes "itable s' ! ip = itable s ! ip" "iaddr s ip \<noteq> 0 \<Longrightarrow> disk s' (iaddr s ip) = disk s (iaddr s ip)"
  shows "baddr s' ip bn = baddr s ip bn"
  using assms by (auto simp: baddr_def Let_def)

text \<open>Blocks other than \<open>a\<close> outside the metadata keep their contents when \<open>a\<close> is allocated.\<close>

lemma balloc_file:
  assumes al: "balloc s = Some (a, s')" and lo: "layout_ok s" and inv: "file_inv s ip"
  shows "layout_ok s'" and "file_inv s' ip" and "baddr s' ip = baddr s ip" and "itable s' = itable s"
    and "k div BSIZE < MAXFILE \<Longrightarrow> fbyte s' ip k = fbyte s ip k"
    and "a \<noteq> 0 \<Longrightarrow> fresh a (iaddr s ip) (baddr s ip) \<and> data_ok s' a \<and> disk s' a = (\<lambda>_. 0)"
    and "data_ok s b \<Longrightarrow> data_ok s' b \<and> disk s' b = disk s b"
proof -
  note b = balloc_Some [OF al lo]
  show it: "itable s' = itable s" by (rule b(1))
  have meta: "meta s' = meta s" by (rule meta_cong [OF b(2)])
  show dk: "data_ok s' b \<and> disk s' b = disk s b" if "data_ok s b" for b
  proof (cases "a = 0")
    case True
    then show ?thesis using b(4) that by simp
  next
    case False
    moreover have "b \<noteq> a" using b(5) [OF False] that by (auto simp: data_ok_def)
    ultimately show ?thesis using b(7,8) [OF False, of b] b(2) that meta by (auto simp: data_ok_def)
  qed
  show "layout_ok s'"
  proof (cases "a = 0")
    case True
    then show ?thesis using b(4) lo by simp
  next
    case False
    then have "0 < sb_size (sb s)" using b(5) word_gt_0 by fastforce
    then show ?thesis using lo b(2) b(8) [OF False] meta by (auto simp: layout_ok_def)
  qed
  have iok: "data_ok s (iaddr s ip)" if "iaddr s ip \<noteq> 0" using inv that by (simp add: file_inv_def bmap_ok_def)
  show ba: "baddr s' ip = baddr s ip" using baddr_cong [of s' ip s] it dk iok by auto
  show "file_inv s' ip"
    using inv it ba b(2) bmap_ok_mono [of s _ _ s'] dk by (simp add: file_inv_def)
  show "fbyte s' ip k = fbyte s ip k" if "k div BSIZE < MAXFILE"
    using inv that dk ba by (simp add: fbyte_def file_inv_def bmap_ok_def)
  assume a: "a \<noteq> 0"
  have "data_ok s' a" using b(2,5) b(8) [OF a, of a] a meta by (simp add: data_ok_def)
  moreover have "fresh a (iaddr s ip) (baddr s ip)"
    using inv b(5) [OF a] a unfolding fresh_def file_inv_def bmap_ok_def data_ok_def by metis
  ultimately show "fresh a (iaddr s ip) (baddr s ip) \<and> data_ok s' a \<and> disk s' a = (\<lambda>_. 0)" using b(6) [OF a] by simp
qed

text \<open>
  \<open>fext\<close>: the file may have gained blocks, which were free, but its contents, every other inode
  field and every data block other than its indirect block are as before.
\<close>

definition gained :: "fsys \<Rightarrow> u32 \<Rightarrow> u32 \<Rightarrow> bool" where
  "gained s a a' \<longleftrightarrow> a' = a \<or> (a = 0 \<and> \<not> data_ok s a')"

definition fext :: "nat \<Rightarrow> fsys \<Rightarrow> fsys \<Rightarrow> bool" where
  "fext ip s s' \<longleftrightarrow>
     layout_ok s' \<and> file_inv s' ip \<and> sb s' = sb s \<and> outstanding s' = outstanding s \<and>
     itable s' = (itable s)[ip := (itable s ! ip)\<lparr>i_addrs := i_addrs (itable s' ! ip)\<rparr>] \<and>
     (\<forall>bn < MAXFILE. gained s (baddr s ip bn) (baddr s' ip bn)) \<and>
     gained s (iaddr s ip) (iaddr s' ip) \<and>
     (\<forall>k. k div BSIZE < MAXFILE \<longrightarrow> fbyte s' ip k = fbyte s ip k) \<and>
     (\<forall>b. data_ok s b \<longrightarrow> data_ok s' b \<and> (b \<noteq> iaddr s ip \<longrightarrow> disk s' b = disk s b))"

lemma fext_refl: "layout_ok s \<Longrightarrow> file_inv s ip \<Longrightarrow> fext ip s s"
  by (simp add: fext_def gained_def)

lemma gained_trans:
  "gained s a b \<Longrightarrow> gained s1 b c \<Longrightarrow> (\<And>b. data_ok s b \<Longrightarrow> data_ok s1 b) \<Longrightarrow> gained s a c"
  by (auto simp: gained_def)

lemma addrs_overwrite: "x = y\<lparr>i_addrs := a\<rparr> \<Longrightarrow> x\<lparr>i_addrs := b\<rparr> = y\<lparr>i_addrs := b\<rparr>"
  by simp

lemma update_twice: "l1 = l[i := x] \<Longrightarrow> l2 = l1[i := y] \<Longrightarrow> y = z \<Longrightarrow> l2 = l[i := z]"
  by simp

lemma fext_trans:
  assumes 1: "fext ip s s1" and 2: "fext ip s1 s2" and ip: "ip < length (itable s)"
  shows "fext ip s s2"
proof -
  have dk: "data_ok s b \<Longrightarrow> data_ok s1 b" for b using 1 by (simp add: fext_def)
  have d: "disk s2 b = disk s b" if b: "data_ok s b" "b \<noteq> iaddr s ip" for b
  proof -
    have "disk s1 b = disk s b" using 1 b by (simp add: fext_def)
    moreover have "b \<noteq> iaddr s1 ip" using 1 b by (auto simp: fext_def gained_def)
    ultimately show ?thesis using 2 dk [OF b(1)] by (simp add: fext_def)
  qed
  have it1: "itable s1 = (itable s)[ip := (itable s ! ip)\<lparr>i_addrs := i_addrs (itable s1 ! ip)\<rparr>]"
    and it2: "itable s2 = (itable s1)[ip := (itable s1 ! ip)\<lparr>i_addrs := i_addrs (itable s2 ! ip)\<rparr>]"
    using 1 2 by (simp_all add: fext_def)
  have "itable s1 ! ip = (itable s ! ip)\<lparr>i_addrs := i_addrs (itable s1 ! ip)\<rparr>"
    using arg_cong [OF it1, of "\<lambda>l. l ! ip"] ip by simp
  then have "(itable s1 ! ip)\<lparr>i_addrs := i_addrs (itable s2 ! ip)\<rparr> = (itable s ! ip)\<lparr>i_addrs := i_addrs (itable s2 ! ip)\<rparr>"
    by (rule addrs_overwrite)
  then have it: "itable s2 = (itable s)[ip := (itable s ! ip)\<lparr>i_addrs := i_addrs (itable s2 ! ip)\<rparr>]"
    by (rule update_twice [OF it1 it2])
  have g: "gained s (iaddr s ip) (iaddr s2 ip)" "\<And>bn. bn < MAXFILE \<Longrightarrow> gained s (baddr s ip bn) (baddr s2 ip bn)"
    using 1 2 dk gained_trans unfolding fext_def by blast+
  show ?thesis
    unfolding fext_def using it g d 1 2 dk by (simp add: fext_def)
qed

lemma marked_same:
  assumes "sb s' = sb s" "disk s' (BBLOCK b (sb s)) = disk s (BBLOCK b (sb s))"
  shows "marked s' b = marked s b"
  using assms by (simp add: marked_def)

text \<open>A change that leaves the metadata blocks alone keeps the layout.\<close>

lemma meta_frame:
  assumes "sb s' = sb s" "\<And>b. b \<in> meta s \<Longrightarrow> disk s' b = disk s b"
  shows "b < sb_size (sb s) \<Longrightarrow> marked s' b = marked s b" "data_ok s' b = data_ok s b"
    and "layout_ok s \<Longrightarrow> layout_ok s'"
proof -
  show m: "marked s' b = marked s b" if "b < sb_size (sb s)" for b
    using assms that by (intro marked_same) (auto simp: meta_def)
  show "data_ok s' b = data_ok s b" using m assms(1) meta_cong [OF assms(1)] by (auto simp: data_ok_def)
  assume lo: "layout_ok s"
  then have "marked s' 0 = marked s 0" using m by (simp add: layout_ok_def)
  then show "layout_ok s'" using lo m assms(1) meta_cong [OF assms(1)] by (auto simp: layout_ok_def)
qed

lemma install:
  assumes al: "balloc s = Some (a, s1)" "a \<noteq> 0" and lo: "layout_ok s" and inv: "file_inv s ip"
    and s2: "sb s2 = sb s1" "outstanding s2 = outstanding s1" "length as = NDIRECT + 1"
      "itable s2 = (itable s1)[ip := (itable s1 ! ip)\<lparr>i_addrs := as\<rparr>]"
    and dsk: "\<And>b. iaddr s ip = 0 \<or> b \<noteq> iaddr s ip \<Longrightarrow> disk s2 b = disk s1 b"
    and new: "iaddr s2 ip = iaddr s ip \<and> baddr s ip bn = 0 \<and> baddr s2 ip = (baddr s ip)(bn := a) \<or>
       iaddr s ip = 0 \<and> iaddr s2 ip = a \<and> baddr s2 ip = baddr s ip"
  shows "fext ip s s2"
proof -
  note b = balloc_file [OF al(1) lo inv]
  note bs = balloc_Some [OF al(1) lo]
  have sb: "sb s2 = sb s" using s2(1) bs(2) by simp
  have fr: "fresh a (iaddr s ip) (baddr s ip)" "data_ok s1 a" "disk s1 a = (\<lambda>_. 0)" using b(6) [OF al(2)] by auto
  have ind: "data_ok s (iaddr s ip)" if "iaddr s ip \<noteq> 0" using inv that by (simp add: file_inv_def bmap_ok_def)
  have mt: "disk s2 b = disk s1 b" if "b \<in> meta s1" for b
    using that ind meta_cong [OF bs(2)] by (intro dsk) (auto simp: data_ok_def)
  note mf = meta_frame [OF s2(1) mt]
  have lo2: "layout_ok s2" using mf(3) b(1) by simp
  have dk: "data_ok s2 b" if "data_ok s b" for b using b(7) [OF that] mf(2) by simp
  have ipl: "ip < length (itable s)" using inv by (simp add: file_inv_def)
  have i2: "itable s2 ! ip = (itable s ! ip)\<lparr>i_addrs := as\<rparr>" using s2(4) b(4) ipl by simp
  have it: "itable s2 = (itable s)[ip := (itable s ! ip)\<lparr>i_addrs := i_addrs (itable s2 ! ip)\<rparr>]"
    using s2(4) b(4) i2 by simp
  have bok: "bmap_ok s2 (iaddr s ip) (baddr s ip)"
    using inv bmap_ok_mono [of s _ _ s2] dk by (simp add: file_inv_def)
  have "bmap_ok s2 (iaddr s2 ip) (baddr s2 ip)"
    using new bmap_ok_install [OF bok _ fr(1)] mf(2) fr(2) by metis
  then have inv2: "file_inv s2 ip" using inv it i2 s2(3) sb ipl by (simp add: file_inv_def)
  have na: "\<not> data_ok s a" using bs(5) [OF al(2)] by (simp add: data_ok_def)
  have gn: "gained s (iaddr s ip) (iaddr s2 ip)" "gained s (baddr s ip n) (baddr s2 ip n)" for n
    using new na by (auto simp: gained_def split: if_splits)
  have dd: "disk s2 b = disk s b" if "data_ok s b" "b \<noteq> iaddr s ip" for b using dsk that b(7) by simp
  have fb: "fbyte s2 ip k = fbyte s ip k" if k: "k div BSIZE < MAXFILE" for k
  proof (cases "baddr s2 ip (k div BSIZE) = baddr s ip (k div BSIZE)")
    case True
    have "disk s2 (baddr s ip (k div BSIZE)) = disk s (baddr s ip (k div BSIZE))" if "baddr s ip (k div BSIZE) \<noteq> 0"
      using inv k that by (intro dd) (auto simp: file_inv_def bmap_ok_def)
    then show ?thesis using True by (simp add: fbyte_def)
  next
    case False
    then have "baddr s ip (k div BSIZE) = 0" "baddr s2 ip (k div BSIZE) = a" using new by (auto split: if_splits)
    moreover have "disk s2 a = (\<lambda>_. 0)" using dsk fr(1,3) by (simp add: fresh_def)
    ultimately show ?thesis by (simp add: fbyte_def)
  qed
  show ?thesis
    unfolding fext_def using lo2 inv2 sb s2(2) bs(3) it gn dk dd fb by simp
qed

lemma baddr_upd_direct:
  assumes "ip < length (itable s)" "bn < NDIRECT" "length (i_addrs (itable s ! ip)) = NDIRECT + 1"
  shows "baddr (upd_inode ip (\<lambda>i. i\<lparr>i_addrs := (i_addrs i)[bn := a]\<rparr>) s) ip = (baddr s ip)(bn := a)"
  using assms by (auto simp: fun_eq_iff baddr_def Let_def)

lemma bmap_direct:
  assumes lo: "layout_ok s" and inv: "file_inv s ip" and bn: "bn < NDIRECT" and b: "bmap s ip bn = Some (a, s')"
  shows "fext ip s s'" and "a \<noteq> 0 \<Longrightarrow> baddr s' ip bn = a"
proof -
  have ip: "ip < length (itable s)" "length (i_addrs (itable s ! ip)) = NDIRECT + 1" using inv by (auto simp: file_inv_def)
  have "fext ip s s' \<and> (a \<noteq> 0 \<longrightarrow> baddr s' ip bn = a)"
  proof (cases "i_addrs (itable s ! ip) ! bn = 0")
    case False
    then show ?thesis using b bn fext_refl [OF lo inv] by (auto simp: bmap_def baddr_def)
  next
    case True
    then obtain a1 s1 where al: "balloc s = Some (a1, s1)" and
      r: "if a1 = 0 then a = 0 \<and> s' = s1 else a = a1 \<and> s' = upd_inode ip (\<lambda>i. i\<lparr>i_addrs := (i_addrs i)[bn := a1]\<rparr>) s1"
      using b bn by (auto simp: bmap_def bind_eq_Some_conv split: if_splits)
    show ?thesis
    proof (cases "a1 = 0")
      case True
      then show ?thesis using r fext_refl [OF lo inv] balloc_Some(4) [OF al lo] by simp
    next
      case False
      note bf = balloc_file [OF al lo inv]
      have ba: "baddr s' ip = (baddr s ip)(bn := a1)"
        using r False baddr_upd_direct [of ip s1 bn a1] bf(3,4) ip bn by simp
      have "fext ip s s'"
        by (rule install [OF al False lo inv, of s' "(i_addrs (itable s ! ip))[bn := a1]" bn])
          (use r False ba True bn ip bf(4) in \<open>auto simp: upd_inode_def baddr_def\<close>)
      then show ?thesis using ba r False by simp
    qed
  qed
  then show "fext ip s s'" "a \<noteq> 0 \<Longrightarrow> baddr s' ip bn = a" by auto
qed

text \<open>The indirect block of a file, allocated when it is missing: the first half of \<open>bmap\<close>.\<close>

definition get_indirect :: "fsys \<Rightarrow> nat \<Rightarrow> (u32 \<times> fsys) option" where
  "get_indirect s ip =
     (if iaddr s ip = 0
      then do {
        (addr, s1) \<leftarrow> balloc s;
        if addr = 0 then Some (0, s1)
        else Some (addr, upd_inode ip (\<lambda>i. i\<lparr>i_addrs := (i_addrs i)[NDIRECT := addr]\<rparr>) s1)
      }
      else Some (iaddr s ip, s))"

lemma get_indirect_spec:
  assumes lo: "layout_ok s" and inv: "file_inv s ip" and g: "get_indirect s ip = Some (ind, s1)"
  shows "fext ip s s1" and "ind \<noteq> 0 \<Longrightarrow> iaddr s1 ip = ind"
proof -
  have ip: "ip < length (itable s)" "length (i_addrs (itable s ! ip)) = NDIRECT + 1" using inv by (auto simp: file_inv_def)
  have "fext ip s s1 \<and> (ind \<noteq> 0 \<longrightarrow> iaddr s1 ip = ind)"
  proof (cases "iaddr s ip = 0")
    case False
    then show ?thesis using g fext_refl [OF lo inv] by (auto simp: get_indirect_def)
  next
    case True
    then obtain a1 s2 where al: "balloc s = Some (a1, s2)" and
      r: "if a1 = 0 then ind = 0 \<and> s1 = s2 else ind = a1 \<and> s1 = upd_inode ip (\<lambda>i. i\<lparr>i_addrs := (i_addrs i)[NDIRECT := a1]\<rparr>) s2"
      using g by (auto simp: get_indirect_def bind_eq_Some_conv split: if_splits)
    show ?thesis
    proof (cases "a1 = 0")
      case True
      then show ?thesis using r fext_refl [OF lo inv] balloc_Some(4) [OF al lo] by simp
    next
      case False
      note bf = balloc_file [OF al lo inv]
      have ia: "iaddr s1 ip = a1" using r False ip bf(4) by simp
      have "disk s1 a1 = (\<lambda>_. 0)" using r False bf(6) by simp
      then have ba: "baddr s1 ip = baddr s ip"
        using r False ip bf(4) ia True by (intro ext) (simp add: baddr_def Let_def)
      have "fext ip s s1"
        by (rule install [OF al False lo inv, of s1 "(i_addrs (itable s ! ip))[NDIRECT := a1]"])
          (use r False ba True ip bf(4) ia in \<open>auto simp: upd_inode_def\<close>)
      then show ?thesis using ia r False by simp
    qed
  qed
  then show "fext ip s s1" "ind \<noteq> 0 \<Longrightarrow> iaddr s1 ip = ind" by auto
qed

lemma bmap_indirect_step:
  assumes lo: "layout_ok s" and inv: "file_inv s ip" and bn: "bn < NINDIRECT" and ind: "iaddr s ip \<noteq> 0"
    and z: "baddr s ip (NDIRECT + bn) = 0" and al: "balloc s = Some (a, s1)" "a \<noteq> 0"
    and lw: "log_write (set_block (iaddr s ip) (put32 (bread s1 (iaddr s ip)) (4 * bn) a) s1) (iaddr s ip) = Some s2"
  shows "fext ip s s2" and "baddr s2 ip (NDIRECT + bn) = a"
proof -
  have ip: "ip < length (itable s)" "length (i_addrs (itable s ! ip)) = NDIRECT + 1" using inv by (auto simp: file_inv_def)
  note bf = balloc_file [OF al(1) lo inv] and l = log_write_Some [OF lw]
  have d: "disk s1 (iaddr s ip) = disk s (iaddr s ip)" using bf(7) inv ind by (simp add: file_inv_def bmap_ok_def)
  have "baddr s2 ip n = ((baddr s ip)(NDIRECT + bn := a)) n" for n
  proof (cases "n < NDIRECT")
    case True
    then show ?thesis using l bf(4) by (simp add: baddr_def)
  next
    case False
    then have "n = NDIRECT + bn \<or> 4 * bn + 4 \<le> 4 * (n - NDIRECT) \<or> 4 * (n - NDIRECT) + 4 \<le> 4 * bn" by auto
    then show ?thesis using l bf(4) False ind d
      by (auto simp: baddr_def Let_def get32_put32_same get32_put32_other bread_def)
  qed
  then have ba: "baddr s2 ip = (baddr s ip)(NDIRECT + bn := a)" by blast
  then show "baddr s2 ip (NDIRECT + bn) = a" by simp
  show "fext ip s s2"
    by (rule install [OF al lo inv, of s2 "i_addrs (itable s ! ip)" "NDIRECT + bn"])
      (use l bf(4) ip z ba ind in auto)
qed

theorem bmap_spec:
  assumes lo: "layout_ok s" and inv: "file_inv s ip" and b: "bmap s ip bn = Some (a, s')"
  shows "fext ip s s'" and "a \<noteq> 0 \<Longrightarrow> baddr s' ip bn = a" and "bn < MAXFILE"
proof -
  have ip: "ip < length (itable s)" using inv by (auto simp: file_inv_def)
  have "fext ip s s' \<and> (a \<noteq> 0 \<longrightarrow> baddr s' ip bn = a) \<and> bn < MAXFILE"
  proof (cases "bn < NDIRECT")
    case True
    then show ?thesis using bmap_direct [OF lo inv True b] by simp
  next
    case False
    then have bn: "bn - NDIRECT < NINDIRECT" "NDIRECT + (bn - NDIRECT) = bn"
      using b by (auto simp: bmap_def split: if_splits)
    from False bn(1) b obtain ind s1 where g: "get_indirect s ip = Some (ind, s1)"
      and r: "(if ind = 0 then Some (0, s1)
        else let addr = get32 (bread s1 ind) (4 * (bn - NDIRECT))
             in if addr = 0
                then do {
                  (addr, s2) \<leftarrow> balloc s1;
                  if addr = 0 then Some (0, s2)
                  else do {
                    s3 \<leftarrow> log_write (set_block ind (put32 (bread s2 ind) (4 * (bn - NDIRECT)) addr) s2) ind;
                    Some (addr, s3)
                  }
                }
                else Some (addr, s1)) = Some (a, s')"
      unfolding bmap_def get_indirect_def [symmetric] by (auto simp: bind_eq_Some_conv)
    note gs = get_indirect_spec [OF lo inv g]
    have lo1: "layout_ok s1" and inv1: "file_inv s1 ip" using gs(1) by (auto simp: fext_def)
    have "fext ip s1 s' \<and> (a \<noteq> 0 \<longrightarrow> baddr s' ip bn = a)"
    proof (cases "ind = 0 \<or> baddr s1 ip bn \<noteq> 0")
      case True
      then show ?thesis using r gs(2) fext_refl [OF lo1 inv1] False by (auto simp: baddr_def Let_def bread_def split: if_splits)
    next
      case nz: False
      then have ia: "ind \<noteq> 0" "iaddr s1 ip = ind" "get32 (bread s1 ind) (4 * (bn - NDIRECT)) = 0"
        using gs(2) False by (auto simp: baddr_def Let_def bread_def)
      then obtain a2 s2 where al: "balloc s1 = Some (a2, s2)" and
        r2: "if a2 = 0 then a = 0 \<and> s' = s2 else a = a2 \<and>
           log_write (set_block ind (put32 (bread s2 ind) (4 * (bn - NDIRECT)) a2) s2) ind = Some s'"
        using r by (auto simp: Let_def bind_eq_Some_conv split: if_splits)
      show ?thesis
      proof (cases "a2 = 0")
        case True
        then show ?thesis using r2 fext_refl [OF lo1 inv1] balloc_Some(4) [OF al lo1] by simp
      next
        case a2: False
        then show ?thesis
          using bmap_indirect_step [OF lo1 inv1 bn(1) _ _ al a2, of s'] r2 ia nz bn(2) by simp
      qed
    qed
    then show ?thesis using fext_trans [OF gs(1) _ ip] bn by auto
  qed
  then show "fext ip s s'" "a \<noteq> 0 \<Longrightarrow> baddr s' ip bn = a" "bn < MAXFILE" by auto
qed

end
