(* ===== verification/Fsrw.thy ===== *)
theory Fsrw
  imports Fsinv Kalloc
begin

text \<open>
  \<open>readi\<close> and \<open>writei\<close> between files and kernel memory, in terms of the contents of the file.
\<close>

section \<open>Copies to and from kernel memory\<close>

text \<open>
  \<open>store_bytes\<close> is the \<open>memmove\<close> of \<open>either_copyout\<close> with \<open>user_dst\<close> 0: kernel addresses are
  physical addresses. \<open>mem_in\<close> is \<open>either_copyin\<close> with \<open>user_src\<close> 0.
\<close>

definition store_bytes :: "memory \<Rightarrow> u64 \<Rightarrow> u8 list \<Rightarrow> memory" where
  "store_bytes m a bs = (\<lambda>x. if unat (x - a) < length bs then bs ! unat (x - a) else m x)"

definition mem_put :: "phys \<Rightarrow> u64 \<Rightarrow> u8 list \<Rightarrow> phys" where
  "mem_put e a bs = e\<lparr>mem := store_bytes (mem e) a bs\<rparr>"

definition mem_bytes :: "memory \<Rightarrow> u64 \<Rightarrow> nat \<Rightarrow> u8 list" where
  "mem_bytes m a n = map (\<lambda>i. m (a + of_nat i)) [0..<n]"

definition mem_out :: "phys copyout" where
  "mem_out s e dst bs = Some (0, s, mem_put e dst bs)"

definition mem_in :: "phys copyin" where
  "mem_in s e src m = Some (0, mem_bytes (mem e) src m, s, e)"

lemma block_offset:
  assumes "off mod BSIZE + i < BSIZE"
  shows "(off + i) div BSIZE = off div BSIZE" "(off + i) mod BSIZE = off mod BSIZE + i"
proof -
  obtain q r where qr: "off = 1024 * q + r" "r < 1024" using mult_div_mod_eq [of 1024 off] by (metis mod_less_divisor zero_less_numeral)
  then have "off div 1024 = q" "off mod 1024 = r" by simp_all
  moreover have "(1024 * q + (r + i)) div 1024 = q" "(1024 * q + (r + i)) mod 1024 = r + i"
    using assms calculation by simp_all
  ultimately show "(off + i) div BSIZE = off div BSIZE" "(off + i) mod BSIZE = off mod BSIZE + i"
    using qr(1) by (simp_all add: add.assoc)
qed

lemma slice_fbyte:
  assumes "baddr s ip (off div BSIZE) = a" "a \<noteq> 0" "off mod BSIZE + m \<le> BSIZE"
  shows "slice (disk s a) (off mod BSIZE) m = map (fbyte s ip) [off..<off + m]"
proof (rule nth_equalityI)
  show "length (slice (disk s a) (off mod BSIZE) m) = length (map (fbyte s ip) [off..<off + m])" by simp
  fix i assume "i < length (slice (disk s a) (off mod BSIZE) m)"
  then have i: "i < m" by simp
  have "off mod BSIZE + i < BSIZE" using assms(3) i by simp
  note block_offset [OF this]
  then show "slice (disk s a) (off mod BSIZE) m ! i = map (fbyte s ip) [off..<off + m] ! i"
    using i assms(1,2) by (simp add: slice_def fbyte_def)
qed

lemma bmap_present: "bn < MAXFILE \<Longrightarrow> baddr s ip bn \<noteq> 0 \<Longrightarrow> bmap s ip bn = Some (baddr s ip bn, s)"
  by (auto simp: bmap_def baddr_def Let_def bread_def split: if_splits)

text \<open>What a kernel-side destination does with consecutive copies.\<close>

locale byte_sink =
  fixes put :: "'e \<Rightarrow> u64 \<Rightarrow> u8 list \<Rightarrow> 'e"
  assumes put_nil: "put e a [] = e"
    and put_append: "length xs + length ys < 2 ^ 32 \<Longrightarrow>
      put (put e a xs) (a + of_nat (length xs)) ys = put e a (xs @ ys)"
begin

definition sink :: "'e copyout" where
  "sink s e a bs = Some (0, s, put e a bs)"

lemma readi_loop_bytes:
  assumes "layout_ok s" "file_inv s ip" "unat off + (unat n - unat tot) < 2 ^ 32" "unat n < 2 ^ 31" "tot \<le> n"
    and "readi_loop sink s e ip dst off n tot = Some (r, s', e')"
  shows "\<exists>m. m \<le> unat n - unat tot \<and> r = int (unat tot + m) \<and> fext ip s s' \<and>
           (\<forall>k \<in> {unat off..<unat off + m}. k div BSIZE < MAXFILE) \<and>
           e' = put e dst (map (fbyte s ip) [unat off..<unat off + m])"
  using assms
proof (induction "unat n - unat tot" arbitrary: s e dst off tot rule: less_induct)
  case less
  have tot: "sint tot = int (unat tot)" using less.prems(4,5) by (intro sint_small) (simp add: word_le_nat_alt)
  show ?case
  proof (cases "tot < n")
    case False
    then show ?thesis
      using less.prems tot fext_refl [OF less.prems(1,2)] by (intro exI [of _ 0]) (simp add: readi_loop.simps [of sink] put_nil)
  next
    case lt: True
    note ch = chunk_bounds [OF lt, of off]
    let ?m = "chunk n tot off"
    obtain a s1 where b: "bmap s ip (unat off div BSIZE) = Some (a, s1)"
      and r: "(if a = 0 then Some (sint tot, s1, e)
         else readi_loop sink s1 (put e dst (slice (bread s1 a) (unat off mod BSIZE) (unat ?m))) ip
           (dst + ucast ?m) (off + ?m) n (tot + ?m)) = Some (r, s', e')"
      using less.prems(6) lt by (subst (asm) readi_loop.simps) (auto simp: Let_def sink_def bind_eq_Some_conv split: if_splits)
    note bs = bmap_spec [OF less.prems(1,2) b]
    have lo1: "layout_ok s1" and inv1: "file_inv s1 ip" using bs(1) by (auto simp: fext_def)
    show ?thesis
    proof (cases "a = 0")
      case True
      then show ?thesis using r tot bs(1) by (intro exI [of _ 0]) (auto simp: put_nil)
    next
      case False
      have om: "unat (off mod 1024) = unat off mod BSIZE" by (simp add: unat_mod)
      have off: "unat (off + ?m) = unat off + unat ?m"
        using less.prems(3) ch(3) by (simp add: unat_word_ariths)
      have fb: "fbyte s1 ip k = fbyte s ip k" if "k div BSIZE < MAXFILE" for k using bs(1) that by (simp add: fext_def)
      have sl: "slice (bread s1 a) (unat off mod BSIZE) (unat ?m) = map (fbyte s1 ip) [unat off..<unat off + unat ?m]"
        using slice_fbyte [OF bs(2) [OF False] False] ch(4) om by (simp add: bread_def)
      have p1: "unat n - unat (tot + ?m) < unat n - unat tot" using ch by simp
      have p3: "unat (off + ?m) + (unat n - unat (tot + ?m)) < 2 ^ 32" using less.prems(3) ch off by simp
      have p5: "tot + ?m \<le> n" using ch by (simp add: word_le_nat_alt)
      have rr: "readi_loop sink s1 (put e dst (slice (bread s1 a) (unat off mod BSIZE) (unat ?m))) ip
           (dst + ucast ?m) (off + ?m) n (tot + ?m) = Some (r, s', e')" using r False by simp
      obtain m where m: "m \<le> unat n - unat (tot + ?m)" "r = int (unat (tot + ?m) + m)" "fext ip s1 s'"
        "\<forall>k \<in> {unat (off + ?m)..<unat (off + ?m) + m}. k div BSIZE < MAXFILE"
        "e' = put (put e dst (slice (bread s1 a) (unat off mod BSIZE) (unat ?m))) (dst + ucast ?m)
               (map (fbyte s1 ip) [unat (off + ?m)..<unat (off + ?m) + m])"
        using less.hyps [OF p1 lo1 inv1 p3 less.prems(4) p5 rr] by blast
      have "k div BSIZE < MAXFILE" if "k \<in> {unat off..<unat off + unat ?m}" for k
        using block_offset(1) [of "unat off" "k - unat off"] that ch(4) om bs(3) by auto
      then have all: "\<forall>k \<in> {unat off..<unat off + (unat ?m + m)}. k div BSIZE < MAXFILE"
        using m(4) off by (auto simp: not_less)
      have "map (fbyte s1 ip) [unat off..<unat off + unat ?m] @ map (fbyte s1 ip) [unat (off + ?m)..<unat (off + ?m) + m]
          = map (fbyte s1 ip) [unat off..<unat off + (unat ?m + m)]"
        unfolding off using upt_add_eq_append [of "unat off" "unat off + unat ?m" m] by (simp add: add.assoc)
      also have "\<dots> = map (fbyte s ip) [unat off..<unat off + (unat ?m + m)]" using all fb by auto
      finally have "e' = put e dst (map (fbyte s ip) [unat off..<unat off + (unat ?m + m)])"
        using m(1,5) put_append [of "map (fbyte s1 ip) [unat off..<unat off + unat ?m]"
          "map (fbyte s1 ip) [unat (off + ?m)..<unat (off + ?m) + m]" e dst] ch less.prems(4)
        by (simp add: sl)
      moreover have "fext ip s s'" using fext_trans [OF bs(1) m(3)] less.prems(2) by (simp add: file_inv_def)
      ultimately show ?thesis using m(1,2) ch all by (intro exI [of _ "unat ?m + m"]) simp
    qed
  qed
qed

text \<open>When every block of the range exists, the read is complete and changes nothing on the disk.\<close>

lemma readi_loop_present:
  assumes "unat off + (unat n - unat tot) < 2 ^ 32" "unat n < 2 ^ 31" "tot \<le> n"
    and "\<And>k. k \<in> {unat off..<unat off + (unat n - unat tot)} \<Longrightarrow> k div BSIZE < MAXFILE \<and> baddr s ip (k div BSIZE) \<noteq> 0"
  shows "readi_loop sink s e ip dst off n tot =
     Some (int (unat n), s, put e dst (map (fbyte s ip) [unat off..<unat off + (unat n - unat tot)]))"
  using assms
proof (induction "unat n - unat tot" arbitrary: e dst off tot rule: less_induct)
  case less
  show ?case
  proof (cases "tot < n")
    case False
    then have "tot = n" using less.prems(3) by simp
    then show ?thesis using less.prems(2) by (simp add: readi_loop.simps [of sink] put_nil sint_small)
  next
    case lt: True
    note ch = chunk_bounds [OF lt, of off]
    let ?m = "chunk n tot off" and ?bn = "unat off div BSIZE"
    have om: "unat (off mod 1024) = unat off mod BSIZE" by (simp add: unat_mod)
    have off: "unat (off + ?m) = unat off + unat ?m"
      using less.prems(1) ch(3) by (simp add: unat_word_ariths)
    have bn: "?bn < MAXFILE" "baddr s ip ?bn \<noteq> 0"
      using less.prems(4) [of "unat off"] lt by (simp_all add: word_less_nat_alt)
    have sl: "slice (disk s (baddr s ip ?bn)) (unat off mod BSIZE) (unat ?m) = map (fbyte s ip) [unat off..<unat off + unat ?m]"
      using slice_fbyte [OF refl bn(2)] ch(4) om by simp
    have "readi_loop sink s e ip dst off n tot =
        readi_loop sink s (put e dst (map (fbyte s ip) [unat off..<unat off + unat ?m])) ip (dst + ucast ?m) (off + ?m) n (tot + ?m)"
      using lt bn sl bmap_present [OF bn] by (subst readi_loop.simps) (simp add: sink_def bread_def Let_def)
    also have "\<dots> = Some (int (unat n), s, put (put e dst (map (fbyte s ip) [unat off..<unat off + unat ?m])) (dst + ucast ?m)
        (map (fbyte s ip) [unat (off + ?m)..<unat (off + ?m) + (unat n - unat (tot + ?m))]))"
      using less.prems(1,2,4) ch off by (intro less.hyps) (simp_all add: word_le_nat_alt)
    also have "\<dots> = Some (int (unat n), s, put e dst (map (fbyte s ip) [unat off..<unat off + (unat n - unat tot)]))"
      using put_append [of "map (fbyte s ip) [unat off..<unat off + unat ?m]"
          "map (fbyte s ip) [unat (off + ?m)..<unat (off + ?m) + (unat n - unat (tot + ?m))]" e dst]
        upt_add_eq_append [of "unat off" "unat off + unat ?m" "unat n - unat (tot + ?m)"] ch less.prems(2)
      by (simp add: off flip: map_append)
    finally show ?thesis .
  qed
qed

lemma readi_present:
  assumes "unat off + unat n \<le> unat (i_size (itable s ! ip))" "unat n < 2 ^ 31"
    and "\<And>k. k \<in> {unat off..<unat off + unat n} \<Longrightarrow> k div BSIZE < MAXFILE \<and> baddr s ip (k div BSIZE) \<noteq> 0"
  shows "readi sink s e ip dst off n = Some (int (unat n), s, put e dst (map (fbyte s ip) [unat off..<unat off + unat n]))"
proof -
  have lt: "unat off + unat n < 2 ^ 32" using assms(1) unat_bound32 [of "i_size (itable s ! ip)"] by simp
  then have "unat (off + n) = unat off + unat n" by (simp add: unat_word_ariths)
  then have "readi sink s e ip dst off n = readi_loop sink s e ip dst off n 0"
    using assms(1) by (simp add: readi_def word_less_nat_alt not_less Let_def)
  then show ?thesis using readi_loop_present [of off n 0 s ip e dst] assms(2,3) lt by simp
qed

end

interpretation mem_sink: byte_sink mem_put
proof
  show "mem_put e a [] = e" for e a by (simp add: mem_put_def store_bytes_def)
  fix xs ys :: "u8 list" and e a
  assume l: "length xs + length ys < 2 ^ 32"
  have "store_bytes (store_bytes m a xs) (a + of_nat (length xs)) ys x = store_bytes m a (xs @ ys) x" for m x
  proof -
    define d where "d = x - a"
    have xa: "x - (a + of_nat (length xs)) = d - of_nat (length xs)" by (simp add: d_def)
    have ul: "unat (of_nat (length xs) :: u64) = length xs" using l by (simp add: unat_of_nat)
    have "unat (d - of_nat (length xs)) = (if length xs \<le> unat d then unat d - length xs else 2 ^ 64 + unat d - length xs)"
      using ul by (auto simp: unat_sub_if_size word_size)
    then show ?thesis using l unfolding store_bytes_def xa d_def [symmetric] by (auto simp: nth_append)
  qed
  then show "mem_put (mem_put e a xs) (a + of_nat (length xs)) ys = mem_put e a (xs @ ys)"
    by (simp add: mem_put_def fun_eq_iff)
qed

interpretation local_sink: byte_sink "\<lambda>e a bs. e @ bs"
  by unfold_locales simp_all

lemma sinks: "mem_sink.sink = mem_out" "local_sink.sink = local_out"
  by (simp_all add: fun_eq_iff mem_sink.sink_def mem_out_def local_sink.sink_def local_out_def)

section \<open>Writing\<close>

definition fblocks :: "fsys \<Rightarrow> nat \<Rightarrow> u32 set" where
  "fblocks s ip = insert (iaddr s ip) {baddr s ip bn | bn. bn < MAXFILE}"

text \<open>
  \<open>fupd ip s s' f\<close>: the contents of the file have become \<open>f\<close>; every other inode field and every
  data block of another file is as before.
\<close>

definition fupd :: "nat \<Rightarrow> fsys \<Rightarrow> fsys \<Rightarrow> (nat \<Rightarrow> u8) \<Rightarrow> bool" where
  "fupd ip s s' f \<longleftrightarrow>
     layout_ok s' \<and> file_inv s' ip \<and> sb s' = sb s \<and> outstanding s' = outstanding s \<and>
     itable s' = (itable s)[ip := (itable s ! ip)\<lparr>i_addrs := i_addrs (itable s' ! ip)\<rparr>] \<and>
     (\<forall>bn < MAXFILE. gained s (baddr s ip bn) (baddr s' ip bn)) \<and> gained s (iaddr s ip) (iaddr s' ip) \<and>
     (\<forall>k. k div BSIZE < MAXFILE \<longrightarrow> fbyte s' ip k = f k) \<and>
     (\<forall>b. data_ok s b \<longrightarrow> data_ok s' b \<and> (b \<notin> fblocks s ip \<longrightarrow> disk s' b = disk s b))"

lemma fext_fupd: "fext ip s s' \<Longrightarrow> fupd ip s s' (fbyte s ip)"
  by (simp add: fext_def fupd_def fblocks_def)

lemma fupd_cong: "fupd ip s s' f \<Longrightarrow> (\<And>k. k div BSIZE < MAXFILE \<Longrightarrow> f k = g k) \<Longrightarrow> fupd ip s s' g"
  by (simp add: fupd_def)

lemma fupd_trans:
  assumes 1: "fupd ip s s1 f" and 2: "fupd ip s1 s2 g" and ip: "ip < length (itable s)"
  shows "fupd ip s s2 g"
proof -
  have dk: "data_ok s b \<Longrightarrow> data_ok s1 b" for b using 1 by (simp add: fupd_def)
  have d: "disk s2 b = disk s b" if b: "data_ok s b" "b \<notin> fblocks s ip" for b
  proof -
    have "disk s1 b = disk s b" using 1 b by (simp add: fupd_def)
    moreover have "b \<notin> fblocks s1 ip" using 1 b unfolding fupd_def gained_def fblocks_def by (smt (verit) insert_iff mem_Collect_eq)
    ultimately show ?thesis using 2 dk [OF b(1)] by (simp add: fupd_def)
  qed
  have it1: "itable s1 = (itable s)[ip := (itable s ! ip)\<lparr>i_addrs := i_addrs (itable s1 ! ip)\<rparr>]"
    and it2: "itable s2 = (itable s1)[ip := (itable s1 ! ip)\<lparr>i_addrs := i_addrs (itable s2 ! ip)\<rparr>]"
    using 1 2 by (simp_all add: fupd_def)
  have "itable s1 ! ip = (itable s ! ip)\<lparr>i_addrs := i_addrs (itable s1 ! ip)\<rparr>"
    using arg_cong [OF it1, of "\<lambda>l. l ! ip"] ip by simp
  then have "(itable s1 ! ip)\<lparr>i_addrs := i_addrs (itable s2 ! ip)\<rparr> = (itable s ! ip)\<lparr>i_addrs := i_addrs (itable s2 ! ip)\<rparr>"
    by (rule addrs_overwrite)
  then have it: "itable s2 = (itable s)[ip := (itable s ! ip)\<lparr>i_addrs := i_addrs (itable s2 ! ip)\<rparr>]"
    by (rule update_twice [OF it1 it2])
  have g: "gained s (iaddr s ip) (iaddr s2 ip)" "\<And>bn. bn < MAXFILE \<Longrightarrow> gained s (baddr s ip bn) (baddr s2 ip bn)"
    using 1 2 dk gained_trans unfolding fupd_def by blast+
  show ?thesis unfolding fupd_def using it g d 1 2 dk by (simp add: fupd_def)
qed

text \<open>The new contents after the bytes \<open>bs\<close> are written at \<open>off\<close>.\<close>

definition over :: "(nat \<Rightarrow> u8) \<Rightarrow> nat \<Rightarrow> u8 list \<Rightarrow> nat \<Rightarrow> u8" where
  "over f off bs k = (if off \<le> k \<and> k < off + length bs then bs ! (k - off) else f k)"

lemma over_append: "over (over f off xs) (off + length xs) ys = over f off (xs @ ys)"
  by (auto simp: fun_eq_iff over_def nth_append)

lemma length_mem_bytes [simp]: "length (mem_bytes m a n) = n"
  by (simp add: mem_bytes_def)

lemma mem_bytes_add: "mem_bytes m a (i + j) = mem_bytes m a i @ mem_bytes m (a + of_nat i) j"
  by (rule nth_equalityI) (auto simp: mem_bytes_def nth_append)

text \<open>One block written through the cache.\<close>

lemma block_write:
  assumes lo: "layout_ok s" and inv: "file_inv s ip" and bn: "off div BSIZE < MAXFILE"
    and a: "baddr s ip (off div BSIZE) = a" "a \<noteq> 0" and len: "off mod BSIZE + length bs \<le> BSIZE"
  shows "fupd ip s (set_block a (splice (bread s a) (off mod BSIZE) bs) s) (over (fbyte s ip) off bs)"
    (is "fupd ip s ?s _")
proof -
  have aok: "data_ok s a" "a \<noteq> iaddr s ip" using inv bn a by (auto simp: file_inv_def bmap_ok_def)
  have mt: "disk ?s b = disk s b" if "b \<in> meta s" for b using that aok(1) by (auto simp: data_ok_def)
  note mf = meta_frame [OF set_block_simps(3) mt]
  have ba: "baddr ?s ip = baddr s ip" using aok(2) by (auto simp: fun_eq_iff baddr_def Let_def)
  have inv': "file_inv ?s ip" using inv ba mf(2) by (simp add: file_inv_def bmap_ok_def)
  have fb: "fbyte ?s ip k = over (fbyte s ip) off bs k" if k: "k div BSIZE < MAXFILE" for k
  proof (cases "k div BSIZE = off div BSIZE")
    case True
    have "off \<le> k \<and> k < off + length bs \<longleftrightarrow> off mod BSIZE \<le> k mod BSIZE \<and> k mod BSIZE < off mod BSIZE + length bs"
      "off \<le> k \<Longrightarrow> k - off = k mod BSIZE - off mod BSIZE"
      using True div_mult_mod_eq [of k BSIZE] div_mult_mod_eq [of off BSIZE] by linarith+
    then show ?thesis using True a ba by (auto simp: fbyte_def over_def splice_def bread_def)
  next
    case False
    have ne: "baddr s ip (k div BSIZE) = 0 \<or> baddr s ip (k div BSIZE) \<noteq> a"
      using inv k bn a False unfolding file_inv_def bmap_ok_def by metis
    have "\<not> (off \<le> k \<and> k < off + length bs)"
    proof
      assume k': "off \<le> k \<and> k < off + length bs"
      then have "off mod BSIZE + (k - off) < BSIZE" using len by linarith
      then show False using block_offset(1) False k' by fastforce
    qed
    then show ?thesis using ne ba by (auto simp: fbyte_def over_def)
  qed
  show ?thesis
    unfolding fupd_def using mf(2,3) lo inv' ba fb a bn by (auto simp: gained_def fblocks_def)
qed

lemma log_write_file:
  assumes "log_write s b = Some s'" "fupd ip s0 s f"
  shows "fupd ip s0 s' f"
proof -
  note l = log_write_Some [OF assms(1)]
  have "layout_ok s' = layout_ok s" "\<And>b. data_ok s' b = data_ok s b"
    by (rule layout_ok_cong [OF l(1,3)], rule data_ok_cong [OF l(1,3)])
  moreover have ba: "baddr s' ip = baddr s ip" by (intro ext) (simp add: baddr_def Let_def l)
  moreover have "fbyte s' ip = fbyte s ip" by (intro ext) (simp add: fbyte_def ba l)
  moreover have "file_inv s' ip = file_inv s ip" using ba calculation(2) l by (simp add: file_inv_def bmap_ok_def)
  ultimately show ?thesis using assms(2) l by (simp add: fupd_def)
qed

text \<open>The loop of \<open>writei\<close> from kernel memory.\<close>

lemma writei_loop_bytes:
  assumes "layout_ok s" "file_inv s ip" "unat off + (unat n - unat tot) < 2 ^ 32" "tot \<le> n"
    and "writei_loop mem_in s e ip src off n tot = Some (tot', off', s', e')"
  shows "\<exists>m. m \<le> unat n - unat tot \<and> unat tot' = unat tot + m \<and> unat off' = unat off + m \<and> e' = e \<and>
           fupd ip s s' (over (fbyte s ip) (unat off) (mem_bytes (mem e) src m)) \<and>
           (\<forall>k \<in> {unat off..<unat off + m}. k div BSIZE < MAXFILE \<and> baddr s' ip (k div BSIZE) \<noteq> 0)"
  using assms
proof (induction "unat n - unat tot" arbitrary: s src off tot rule: less_induct)
  case less
  have none: "over f off (mem_bytes m a 0) = f" for f off m a by (auto simp: fun_eq_iff over_def)
  show ?case
  proof (cases "tot < n")
    case False
    then show ?thesis using less.prems fext_fupd [OF fext_refl [OF less.prems(1,2)]]
      by (intro exI [of _ 0]) (simp add: writei_loop.simps [of mem_in] none)
  next
    case lt: True
    note ch = chunk_bounds [OF lt, of off]
    let ?m = "chunk n tot off" and ?bs = "mem_bytes (mem e) src (unat (chunk n tot off))"
    let ?set = "\<lambda>a s1. set_block a (splice (bread s1 a) (unat off mod BSIZE) ?bs) s1"
    obtain a s1 where b: "bmap s ip (unat off div BSIZE) = Some (a, s1)"
      and r: "(if a = 0 then Some (tot, off, s1, e)
         else Option.bind (log_write (?set a s1) a) (\<lambda>s4.
            writei_loop mem_in s4 e ip (src + ucast ?m) (off + ?m) n (tot + ?m))) = Some (tot', off', s', e')"
      using less.prems(5) lt by (subst (asm) writei_loop.simps) (auto simp: Let_def mem_in_def bind_eq_Some_conv split: if_splits)
    note bs = bmap_spec [OF less.prems(1,2) b]
    have lo1: "layout_ok s1" and inv1: "file_inv s1 ip" using bs(1) by (auto simp: fext_def)
    show ?thesis
    proof (cases "a = 0")
      case True
      then show ?thesis using r fext_fupd [OF bs(1)] by (intro exI [of _ 0]) (auto simp: none)
    next
      case False
      have om: "unat (off mod 1024) = unat off mod BSIZE" by (simp add: unat_mod)
      have off: "unat (off + ?m) = unat off + unat ?m"
        using less.prems(3) ch(3) by (simp add: unat_word_ariths)
      have ip: "ip < length (itable s)" using less.prems(2) by (simp add: file_inv_def)
      obtain s2 where lw: "log_write (?set a s1) a = Some s2"
        and rr: "writei_loop mem_in s2 e ip (src + ucast ?m) (off + ?m) n (tot + ?m) = Some (tot', off', s', e')"
        using r False by (auto simp: bind_eq_Some_conv)
      have f1: "fupd ip s1 s2 (over (fbyte s1 ip) (unat off) ?bs)"
        using log_write_file [OF lw] block_write [OF lo1 inv1 bs(3) bs(2) [OF False] False, of ?bs] ch(4) om
        by (simp add: mem_bytes_def)
      then have f2: "fupd ip s s2 (over (fbyte s1 ip) (unat off) ?bs)"
        by (rule fupd_trans [OF fext_fupd [OF bs(1)] _ ip])
      have lo2: "layout_ok s2" and inv2: "file_inv s2 ip" using f2 by (auto simp: fupd_def)
      have p1: "unat n - unat (tot + ?m) < unat n - unat tot" using ch by simp
      have p3: "unat (off + ?m) + (unat n - unat (tot + ?m)) < 2 ^ 32" using less.prems(3) ch off by simp
      have p5: "tot + ?m \<le> n" using ch by (simp add: word_le_nat_alt)
      obtain m where m: "m \<le> unat n - unat (tot + ?m)" "unat tot' = unat (tot + ?m) + m"
        "unat off' = unat (off + ?m) + m" "e' = e"
        "fupd ip s2 s' (over (fbyte s2 ip) (unat (off + ?m)) (mem_bytes (mem e) (src + ucast ?m) m))"
        "\<forall>k \<in> {unat (off + ?m)..<unat (off + ?m) + m}. k div BSIZE < MAXFILE \<and> baddr s' ip (k div BSIZE) \<noteq> 0"
        using less.hyps [OF p1 lo2 inv2 p3 p5 rr] by blast
      have bn: "baddr s' ip (unat off div BSIZE) = a"
        using f1 m(5) bs(2) [OF False] bs(3) False unfolding fupd_def gained_def by metis
      have k1: "k div BSIZE < MAXFILE \<and> baddr s' ip (k div BSIZE) \<noteq> 0" if "k \<in> {unat off..<unat off + (unat ?m + m)}" for k
      proof (cases "k < unat off + unat ?m")
        case True
        then have "k div BSIZE = unat off div BSIZE"
          using block_offset(1) [of "unat off" "k - unat off"] that ch(4) om by auto
        then show ?thesis using bn bs(3) False by simp
      next
        case False
        then show ?thesis using m(6) that off by simp
      qed
      have mb: "?bs @ mem_bytes (mem e) (src + ucast ?m) m = mem_bytes (mem e) src (unat ?m + m)"
        using mem_bytes_add [of "mem e" src "unat ?m" m] by simp
      have "over (fbyte s2 ip) (unat (off + ?m)) (mem_bytes (mem e) (src + ucast ?m) m) k =
          over (fbyte s ip) (unat off) (mem_bytes (mem e) src (unat ?m + m)) k" if k: "k div BSIZE < MAXFILE" for k
      proof -
        have "fbyte s2 ip k = over (fbyte s ip) (unat off) ?bs k"
          using f1 bs(1) k by (simp add: fupd_def fext_def over_def)
        then have "over (fbyte s2 ip) (unat (off + ?m)) (mem_bytes (mem e) (src + ucast ?m) m) k =
            over (over (fbyte s ip) (unat off) ?bs) (unat off + length ?bs) (mem_bytes (mem e) (src + ucast ?m) m) k"
          by (simp add: over_def off mem_bytes_def)
        then show ?thesis by (simp only: over_append mb)
      qed
      then have "fupd ip s s' (over (fbyte s ip) (unat off) (mem_bytes (mem e) src (unat ?m + m)))"
        using fupd_cong [OF fupd_trans [OF f2 m(5) ip]] by blast
      then show ?thesis using m(1-4) ch off k1 by (intro exI [of _ "unat ?m + m"]) simp
    qed
  qed
qed

text \<open>\<open>iupdate\<close> writes the inode's own block only, which no file block and no bitmap block is.\<close>

lemma iupdate_frame:
  assumes lo: "layout_ok s" and ip: "i_inum (itable s ! ip) < ninodes (sb s)" and u: "iupdate s ip = Some s'"
  shows "layout_ok s'" and "itable s' = itable s" and "sb s' = sb s" and "outstanding s' = outstanding s"
    and "data_ok s' b = data_ok s b" and "data_ok s b \<Longrightarrow> disk s' b = disk s b"
proof -
  let ?ib = "IBLOCK (i_inum (itable s ! ip)) (sb s)"
  obtain d where "log_write (set_block ?ib d s) ?ib = Some s'" using u by (auto simp: iupdate_def Let_def)
  note l = log_write_Some [OF this]
  show it: "itable s' = itable s" and sb: "sb s' = sb s" and "outstanding s' = outstanding s" using l by simp_all
  have ib: "?ib \<in> meta s" using ip by (auto simp: meta_def)
  have m: "marked s' b = marked s b" if "b < sb_size (sb s)" for b
  proof (rule marked_same [OF sb])
    have "?ib \<noteq> BBLOCK b (sb s)" using lo ip that by (simp add: layout_ok_def)
    then show "disk s' (BBLOCK b (sb s)) = disk s (BBLOCK b (sb s))" using l by simp
  qed
  show "data_ok s' b = data_ok s b" using m sb meta_cong [OF sb] by (auto simp: data_ok_def)
  show "layout_ok s'" using lo m sb meta_cong [OF sb] by (auto simp: layout_ok_def)
  show "data_ok s b \<Longrightarrow> disk s' b = disk s b" using l ib by (auto simp: data_ok_def)
qed

lemma iupdate_file:
  assumes lo: "layout_ok s" and inv: "file_inv s ip" and u: "iupdate s ip = Some s'"
  shows "file_inv s' ip" and "baddr s' ip = baddr s ip" and "k div BSIZE < MAXFILE \<Longrightarrow> fbyte s' ip k = fbyte s ip k"
proof -
  have "i_inum (itable s ! ip) < ninodes (sb s)" using inv by (simp add: file_inv_def)
  note f = iupdate_frame [OF lo this u]
  have "disk s' (iaddr s ip) = disk s (iaddr s ip)" if "iaddr s ip \<noteq> 0"
    using inv that by (intro f(6)) (simp add: file_inv_def bmap_ok_def)
  then show ba: "baddr s' ip = baddr s ip" using baddr_cong [of s' ip s] f(2) by auto
  show "file_inv s' ip" using inv ba f by (simp add: file_inv_def bmap_ok_def)
  show "fbyte s' ip k = fbyte s ip k" if "k div BSIZE < MAXFILE"
    using f(6) inv that ba by (simp add: fbyte_def file_inv_def bmap_ok_def)
qed

lemma set_size:
  assumes "ip < length (itable s)"
  shows "layout_ok (upd_inode ip (\<lambda>i. i\<lparr>i_size := z\<rparr>) s) = layout_ok s"
    and "file_inv (upd_inode ip (\<lambda>i. i\<lparr>i_size := z\<rparr>) s) ip = file_inv s ip"
    and "baddr (upd_inode ip (\<lambda>i. i\<lparr>i_size := z\<rparr>) s) ip = baddr s ip"
    and "fbyte (upd_inode ip (\<lambda>i. i\<lparr>i_size := z\<rparr>) s) ip = fbyte s ip"
    and "data_ok (upd_inode ip (\<lambda>i. i\<lparr>i_size := z\<rparr>) s) b = data_ok s b"
proof -
  let ?s = "upd_inode ip (\<lambda>i. i\<lparr>i_size := z\<rparr>) s"
  show "layout_ok ?s = layout_ok s" by (rule layout_ok_cong) simp_all
  have d: "data_ok ?s b = data_ok s b" for b by (rule data_ok_cong) simp_all
  then show "data_ok ?s b = data_ok s b" .
  show ba: "baddr ?s ip = baddr s ip" using assms by (intro ext) (simp add: baddr_def Let_def)
  then show "fbyte ?s ip = fbyte s ip" by (intro ext) (simp add: fbyte_def)
  show "file_inv ?s ip = file_inv s ip" using assms ba d by (simp add: file_inv_def bmap_ok_def)
qed

lemma writei_bytes:
  assumes lo: "layout_ok s" and inv: "file_inv s ip"
    and g: "unat off \<le> unat (i_size (itable s ! ip))" "unat off + unat n \<le> MAXFILE * BSIZE"
    and w: "writei mem_in s e ip src off n = Some (r, s', e')"
  shows "\<exists>m \<le> unat n. r = int m \<and> e' = e \<and> layout_ok s' \<and> file_inv s' ip \<and> sb s' = sb s \<and>
     outstanding s' = outstanding s \<and>
     itable s' = (itable s)[ip := (itable s ! ip)\<lparr>i_addrs := i_addrs (itable s' ! ip), i_size := i_size (itable s' ! ip)\<rparr>] \<and>
     (\<forall>k. k div BSIZE < MAXFILE \<longrightarrow> fbyte s' ip k = over (fbyte s ip) (unat off) (mem_bytes (mem e) src m) k) \<and>
     unat (i_size (itable s' ! ip)) = max (unat (i_size (itable s ! ip))) (unat off + m) \<and>
     (\<forall>k \<in> {unat off..<unat off + m}. k div BSIZE < MAXFILE \<and> baddr s' ip (k div BSIZE) \<noteq> 0) \<and>
     (\<forall>bn < MAXFILE. baddr s ip bn \<noteq> 0 \<longrightarrow> baddr s' ip bn = baddr s ip bn)"
proof -
  have ip: "ip < length (itable s)" using inv by (simp add: file_inv_def)
  have "unat (off + n) = unat off + unat n" using g(2) by (simp add: unat_word_ariths)
  then obtain tot off' s1 e1 where lp: "writei_loop mem_in s e ip src off n 0 = Some (tot, off', s1, e1)"
    and u: "iupdate (if off' > i_size (itable s1 ! ip) then upd_inode ip (\<lambda>i. i\<lparr>i_size := off'\<rparr>) s1 else s1) ip = Some s'"
    and r: "r = sint tot" "e' = e1"
    using w g by (auto simp: writei_def word_less_nat_alt not_less bind_eq_Some_conv split: if_splits)
  obtain m where m: "m \<le> unat n" "unat tot = m" "unat off' = unat off + m" "e1 = e"
    "fupd ip s s1 (over (fbyte s ip) (unat off) (mem_bytes (mem e) src m))"
    "\<forall>k \<in> {unat off..<unat off + m}. k div BSIZE < MAXFILE \<and> baddr s1 ip (k div BSIZE) \<noteq> 0"
    using writei_loop_bytes [OF lo inv _ _ lp] g(2) by auto
  have it1: "itable s1 = (itable s)[ip := (itable s ! ip)\<lparr>i_addrs := i_addrs (itable s1 ! ip)\<rparr>]"
    using m(5) by (simp add: fupd_def)
  have i1: "itable s1 ! ip = (itable s ! ip)\<lparr>i_addrs := i_addrs (itable s1 ! ip)\<rparr>"
    using arg_cong [OF it1, of "\<lambda>l. l ! ip"] ip by simp
  then have sz: "i_size (itable s1 ! ip) = i_size (itable s ! ip)"
    by (metis inode.select_convs(10) inode.surjective inode.update_convs(11))
  have ip1: "ip < length (itable s1)" using arg_cong [OF it1, of length] ip by simp
  let ?s2 = "if off' > i_size (itable s1 ! ip) then upd_inode ip (\<lambda>i. i\<lparr>i_size := off'\<rparr>) s1 else s1"
  have s2: "layout_ok ?s2" "file_inv ?s2 ip" "baddr ?s2 ip = baddr s1 ip" "fbyte ?s2 ip = fbyte s1 ip"
    using m(5) set_size [OF ip1] by (auto simp: fupd_def)
  have "i_inum (itable ?s2 ! ip) < ninodes (sb ?s2)" using s2(2) by (simp add: file_inv_def)
  note uf = iupdate_frame [OF s2(1) this u] and ui = iupdate_file [OF s2(1,2) u]
  have size: "unat (i_size (itable s' ! ip)) = max (unat (i_size (itable s ! ip))) (unat off + m)"
    using uf(2) ip1 m(3) sz by (auto simp: word_less_nat_alt)
  have "itable ?s2 = (itable s)[ip := (itable s ! ip)\<lparr>i_addrs := i_addrs (itable ?s2 ! ip), i_size := i_size (itable ?s2 ! ip)\<rparr>]"
  proof -
    define j where "j = itable ?s2 ! ip"
    have l: "itable ?s2 = (itable s)[ip := j]"
    proof (cases "off' > i_size (itable s1 ! ip)")
      case True then show ?thesis
        using ip ip1 arg_cong [OF it1, of "\<lambda>l. l[ip := (itable s1 ! ip)\<lparr>i_size := off'\<rparr>]"]
        unfolding j_def by (simp add: upd_inode_def)
    next
      case False then show ?thesis unfolding j_def using it1 i1 by simp
    qed
    have j: "j = (itable s ! ip)\<lparr>i_addrs := i_addrs j, i_size := i_size j\<rparr>"
      unfolding j_def using ip1 by (subst i1) (auto simp: upd_inode_def i1 [symmetric])
    show ?thesis by (rule trans [OF l arg_cong [OF j, of "\<lambda>j. (itable s)[ip := j]"], unfolded j_def])
  qed
  then have it: "itable s' = (itable s)[ip := (itable s ! ip)\<lparr>i_addrs := i_addrs (itable s' ! ip), i_size := i_size (itable s' ! ip)\<rparr>]"
    using uf(2) by simp
  have "r = int m" using r(1) m(1,2) g(2) by (simp add: sint_small)
  then show ?thesis
    using m(1,4,5,6) r(2) uf(1,3,4) ui s2 size it
    by (intro exI [of _ m]) (auto simp: fupd_def gained_def split: if_splits)
qed

section \<open>Write, then read\<close>

lemma mem_bytes_put:
  assumes "length bs < 2 ^ 32" shows "mem_bytes (mem (mem_put e a bs)) a (length bs) = bs"
  using assms by (intro nth_equalityI) (simp_all add: mem_bytes_def mem_put_def store_bytes_def unat_of_nat)

text \<open>
  C9: what \<open>writei\<close> stores is what \<open>readi\<close> returns. On a file system whose free map is sound, for
  a file whose block map is injective, a complete write of \<open>n\<close> bytes at an offset inside the file
  leaves the invariants in place, and a read of the same range succeeds, leaves the file system as
  it is and delivers the written bytes. The bytes of the file outside the range are as before and
  the size is the larger of the old size and the end of the range.
\<close>

theorem writei_readi:
  assumes "layout_ok s" "file_inv s ip" "unat off \<le> unat (i_size (itable s ! ip))"
    and "unat off + unat n \<le> MAXFILE * BSIZE"
    and "writei mem_in s e ip src off n = Some (int (unat n), s', e')"
  shows "layout_ok s' \<and> file_inv s' ip \<and>
     unat (i_size (itable s' ! ip)) = max (unat (i_size (itable s ! ip))) (unat off + unat n) \<and>
     (\<forall>k. k div BSIZE < MAXFILE \<longrightarrow> k < unat off \<or> unat off + unat n \<le> k \<longrightarrow> fbyte s' ip k = fbyte s ip k) \<and>
     (\<exists>e2. readi mem_out s' e' ip dst off n = Some (int (unat n), s', e2) \<and>
           mem_bytes (mem e2) dst (unat n) = mem_bytes (mem e) src (unat n))"
proof -
  obtain m where nm: "int (unat n) = int m" and inv: "layout_ok s'" "file_inv s' ip"
    and w: "\<forall>k. k div BSIZE < MAXFILE \<longrightarrow> fbyte s' ip k = over (fbyte s ip) (unat off) (mem_bytes (mem e) src m) k"
      "unat (i_size (itable s' ! ip)) = max (unat (i_size (itable s ! ip))) (unat off + m)"
      "\<forall>k \<in> {unat off..<unat off + m}. k div BSIZE < MAXFILE \<and> baddr s' ip (k div BSIZE) \<noteq> 0"
    using writei_bytes [OF assms] by blast
  have m: "m = unat n" using nm by (simp only: of_nat_eq_iff)
  note w = w [unfolded m]
  have n: "unat n < 2 ^ 31" using assms(4) by simp
  let ?bs = "map (fbyte s' ip) [unat off..<unat off + unat n]"
  have "readi mem_out s' e' ip dst off n = Some (int (unat n), s', mem_put e' dst ?bs)"
    unfolding sinks(1) [symmetric] using w n by (intro mem_sink.readi_present) auto
  moreover have "?bs = mem_bytes (mem e) src (unat n)"
    using w by (intro nth_equalityI) (auto simp: over_def length_mem_bytes)
  then have "mem_bytes (mem (mem_put e' dst ?bs)) dst (unat n) = mem_bytes (mem e) src (unat n)"
    using mem_bytes_put [of ?bs e' dst] n by simp
  ultimately show ?thesis using w inv by (auto simp: over_def length_mem_bytes)
qed

definition small_fs :: fsys where
  "small_fs = \<lparr>sb = \<lparr>magic = FSMAGIC, sb_size = 4, nblocks = 1, ninodes = 1, nlog = 0, logstart = 0, inodestart = 1, bmapstart = 2\<rparr>,
     disk = (\<lambda>b k. if b = 2 \<and> k = 0 then 15 else 0), lh_block = [], outstanding = 1,
     itable = [\<lparr>i_dev = 1, i_inum = 0, i_ref = 1, i_locked = True, i_valid = True, i_type = T_FILE, i_major = 0, i_minor = 0,
                i_nlink = 1, i_size = 0, i_addrs = 3 # replicate 12 0\<rparr>]\<rparr>"

definition small_mem :: phys where
  "small_mem = \<lparr>mem = (\<lambda>a. ucast a), freelist = 0, kend = 0x80000000\<rparr>"

lemma below_four: "b < 4 \<Longrightarrow> b = 0 \<or> b = 1 \<or> b = 2 \<or> b = (3::u32)"
  by unat_arith

lemma small_fs_ok: "layout_ok small_fs" "file_inv small_fs 0"
proof -
  show "layout_ok small_fs"
    by (auto simp: layout_ok_def marked_def meta_def IBLOCK_def BBLOCK_def small_fs_def dest: below_four)
  have b: "baddr small_fs 0 bn = (if bn = 0 then 3 else 0)" if "bn < MAXFILE" for bn
    by (cases bn) (simp_all add: baddr_def small_fs_def Let_def)
  have "data_ok small_fs 3"
    by (auto simp: data_ok_def marked_def meta_def IBLOCK_def BBLOCK_def small_fs_def dest: below_four)
  then have "bmap_ok small_fs 0 (baddr small_fs 0)"
    unfolding bmap_ok_def by (auto simp: b split: if_splits)
  moreover have "iaddr small_fs 0 = 0" by (simp add: small_fs_def)
  ultimately show "file_inv small_fs 0"
    by (simp add: file_inv_def small_fs_def)
qed

lemma small_fs_write: "\<exists>s' e'. writei mem_in small_fs small_mem 0 5 0 3 = Some (3, s', e')"
proof -
  have "bmap small_fs 0 0 = Some (3, small_fs)" by (simp add: bmap_def small_fs_def)
  then show ?thesis
    unfolding writei_def
    by (subst writei_loop.simps, subst writei_loop.simps)
      (simp add: Let_def chunk_def mem_in_def small_fs_def log_write_def set_block_def iupdate_def upd_inode_def)
qed

theorem writei_readi_witness:
  "\<exists>s' e' e2. writei mem_in small_fs small_mem 0 5 0 3 = Some (3, s', e') \<and>
     readi mem_out s' e' 0 0x100 0 3 = Some (3, s', e2) \<and> mem_bytes (mem e2) 0x100 3 = [5, 6, 7]"
proof -
  obtain s' e' where w: "writei mem_in small_fs small_mem 0 5 0 3 = Some (3, s', e')"
    using small_fs_write by blast
  have "mem_bytes (mem small_mem) 5 3 = [5, 6, 7]" by (simp add: mem_bytes_def small_mem_def upt_rec)
  then show ?thesis
    using writei_readi [OF small_fs_ok, of 0 3 small_mem 5 s' e' "0x100"] w by auto
qed

end
