(* ===== verification/Userspace.thy ===== *)
theory Userspace
  imports Vmspec Fsrw
begin

text \<open>
  User pages: the contents of a process's memory as its page table presents it. \<open>space_ok\<close> is the
  invariant that makes user pages independent of each other, of the page tables and of the free
  list; \<open>page_of\<close> is the contents of a mapped user page. The lemmas say what taking a free frame,
  mapping it, unmapping a page and freeing its frame do to them.
\<close>

definition user_pte :: "u64 \<Rightarrow> bool" where
  "user_pte e \<longleftrightarrow> e AND PTE_V \<noteq> 0 \<and> e AND PTE_U \<noteq> 0"

definition upage :: "phys \<Rightarrow> u64 \<Rightarrow> u64 \<Rightarrow> bool" where
  "upage s r va \<longleftrightarrow> page_aligned va \<and> va < MAXVA \<and> user_pte (pte_of (mem s) r va)"

definition frame_of :: "phys \<Rightarrow> u64 \<Rightarrow> u64 \<Rightarrow> u64" where
  "frame_of s r va = PTE2PA (pte_of (mem s) r va)"

definition space_ok :: "phys \<Rightarrow> u64 \<Rightarrow> u64 list \<Rightarrow> bool" where
  "space_ok s r xs \<longleftrightarrow> pt_inv s r xs
   \<and> (\<forall>va. upage s r va \<longrightarrow> ram_page s (frame_of s r va) \<and> frame_of s r va \<notin> pt_pages (mem s) r \<union> set xs)
   \<and> (\<forall>va vb. upage s r va \<longrightarrow> upage s r vb \<longrightarrow> frame_of s r va = frame_of s r vb \<longrightarrow> va = vb)"

definition page_of :: "phys \<Rightarrow> u64 \<Rightarrow> u64 \<Rightarrow> u8 list option" where
  "page_of s r va = (if upage s r va then Some (mem_bytes (mem s) (frame_of s r va) 4096) else None)"

definition unmapped_kept :: "phys \<Rightarrow> phys \<Rightarrow> u64 \<Rightarrow> bool" where
  "unmapped_kept s s' r \<longleftrightarrow> (\<forall>va < MAXVA. \<not> valid_pte (pte_of (mem s) r va) \<longrightarrow> \<not> valid_pte (pte_of (mem s') r va))"

lemma space_okD:
  assumes "space_ok s r xs"
  shows "pt_inv s r xs" "upage s r va \<Longrightarrow> ram_page s (frame_of s r va)"
    "upage s r va \<Longrightarrow> frame_of s r va \<notin> pt_pages (mem s) r" "upage s r va \<Longrightarrow> frame_of s r va \<notin> set xs"
    "upage s r va \<Longrightarrow> upage s r vb \<Longrightarrow> frame_of s r va = frame_of s r vb \<Longrightarrow> va = vb"
  using assms unfolding space_ok_def by blast+

lemma page_offset: "page_aligned p \<Longrightarrow> i < 4096 \<Longrightarrow> PGROUNDDOWN (p + of_nat i) = p"
  using in_page_iff [of p "p + of_nat i"] by (simp add: word_less_nat_alt unat_of_nat)

lemma page_bytes_cong:
  assumes "page_aligned p" "\<And>y. PGROUNDDOWN y = p \<Longrightarrow> m' y = m y"
  shows "mem_bytes m' p 4096 = mem_bytes m p 4096"
  using assms page_offset [OF assms(1)] by (simp add: mem_bytes_def)

lemma page_bytes_const:
  assumes "page_aligned p" "\<And>y. PGROUNDDOWN y = p \<Longrightarrow> m y = c"
  shows "mem_bytes m p 4096 = replicate 4096 c"
  using assms page_offset [OF assms(1)] by (intro nth_equalityI) (simp_all add: mem_bytes_def)

text \<open>An operation that keeps the leaf entries of the pages in \<open>A\<close> and the contents of their frames.\<close>

lemma page_of_cong:
  assumes "pte_of (mem s') r va = pte_of (mem s) r va"
    and "\<And>y. upage s r va \<Longrightarrow> PGROUNDDOWN y = frame_of s r va \<Longrightarrow> mem s' y = mem s y" and "space_ok s r xs"
  shows "page_of s' r va = page_of s r va"
proof (cases "upage s r va")
  case True
  then have "page_aligned (frame_of s r va)"
    using space_okD(2) [OF assms(3)] by blast
  from page_bytes_cong [OF this assms(2) [OF True]] True show ?thesis
    using assms(1) by (simp add: page_of_def upage_def frame_of_def)
next
  case False
  then show ?thesis
    using assms(1) by (auto simp: page_of_def upage_def)
qed

lemma space_same:
  assumes ok: "space_ok s r xs" and inv: "pt_inv s' r ys" and e: "kend s' = kend s"
    and pte: "\<And>va. va < MAXVA \<Longrightarrow> pte_of (mem s') r va = pte_of (mem s) r va"
    and fr: "\<And>va. upage s r va \<Longrightarrow> frame_of s r va \<notin> pt_pages (mem s') r \<union> set ys"
    and m: "\<And>va y. upage s r va \<Longrightarrow> PGROUNDDOWN y = frame_of s r va \<Longrightarrow> mem s' y = mem s y"
  shows "space_ok s' r ys" "page_of s' r = page_of s r"
proof -
  have up: "upage s' r va = upage s r va" for va
    using pte [of va] by (auto simp: upage_def)
  have f: "frame_of s' r va = frame_of s r va" if "upage s r va" for va
    using pte [of va] that by (auto simp: frame_of_def upage_def)
  show "space_ok s' r ys"
    unfolding space_ok_def using inv fr space_okD(2,5) [OF ok] up f e by (auto simp: ram_page_def)
  show "page_of s' r = page_of s r"
  proof
    fix va
    show "page_of s' r va = page_of s r va"
    proof (cases "va < MAXVA")
      case True
      then show ?thesis by (intro page_of_cong [OF pte m ok])
    next
      case False
      then show ?thesis by (simp add: page_of_def upage_def)
    qed
  qed
qed

lemma kalloc_space:
  assumes ok: "space_ok s r (x # xs)" and k: "kalloc s = (p, s')"
  shows "p = x" "space_ok s' r xs" "page_of s' r = page_of s r" "ram_page s' x" "x \<notin> pt_pages (mem s') r \<union> set xs"
    "\<And>va. upage s' r va \<Longrightarrow> frame_of s' r va \<noteq> x" "x \<noteq> 0" "unmapped_kept s s' r"
proof -
  note inv = space_okD(1) [OF ok]
  note k1 = kalloc_inv_cons [OF pt_inv_kmem [OF inv] k] and k2 = kalloc_pt [OF inv k]
  show p: "p = x" by (rule k1(1))
  have m: "mem s' y = mem s y" if "PGROUNDDOWN y \<noteq> x" for y
    using kalloc_frame [OF pt_inv_kmem [OF inv] k] that p by blast
  have fx: "frame_of s r va \<noteq> x" if "upage s r va" for va
    using space_okD(4) [OF ok that] by auto
  show "space_ok s' r xs" "page_of s' r = page_of s r"
    using space_same [OF ok k2(1) kalloc_kend [OF k] k2(2)] space_okD(3,4) [OF ok] k2(3) m fx by auto
  show "ram_page s' x"
    using k1(3) kalloc_kend [OF k] by (simp add: ram_page_def)
  show "x \<notin> pt_pages (mem s') r \<union> set xs"
    using inv k2(3) k1(4) by (auto simp: pt_inv_def)
  show "frame_of s' r va \<noteq> x" if "upage s' r va" for va
    using fx [of va] that k2(2) [of va] by (simp add: upage_def frame_of_def)
  show "unmapped_kept s s' r"
    using k2(2) by (simp add: unmapped_kept_def)
  show "x \<noteq> 0"
    using k1(3) pt_inv_kmem [OF inv] by (auto simp: ram_page_def kmem_inv_def)
qed

text \<open>Writing a frame that is neither a table page, nor free, nor mapped.\<close>

lemma frame_write:
  assumes ok: "space_ok s r xs" and x: "ram_page s x" "x \<notin> pt_pages (mem s) r \<union> set xs"
    "\<And>va. upage s r va \<Longrightarrow> frame_of s r va \<noteq> x" and m: "\<And>y. PGROUNDDOWN y \<noteq> x \<Longrightarrow> m' y = mem s y"
  shows "space_ok (s\<lparr>mem := m'\<rparr>) r xs" "page_of (s\<lparr>mem := m'\<rparr>) r = page_of s r"
    "pt_pages m' r = pt_pages (mem s) r" "\<And>va. pte_of m' r va = pte_of (mem s) r va"
proof -
  note inv = space_okD(1) [OF ok]
  have t: "m' y = mem s y" if "PGROUNDDOWN y \<in> pt_pages (mem s) r" for y
    using m [of y] that x(2) by auto
  have free: "free_chain m' (freelist s) xs = free_chain (mem s) (freelist s) xs"
  proof (rule free_chain_cong)
    show "m' y = mem s y" if "z \<in> set xs" "PGROUNDDOWN y = z" for z y
      using that x(2) by (intro m) auto
  qed (use pt_inv_kmem [OF inv] in \<open>auto simp: kmem_inv_def ram_page_def\<close>)
  then have km: "kmem_inv (s\<lparr>mem := m'\<rparr>) xs"
    using pt_inv_kmem [OF inv] by (simp add: kmem_inv_def)
  show pp: "pt_pages m' r = pt_pages (mem s) r" and pe: "pte_of m' r va = pte_of (mem s) r va" for va
    using pt_same [OF inv t] by auto
  have inv': "pt_inv (s\<lparr>mem := m'\<rparr>) r xs"
    by (rule pt_inv_same [OF inv _ km]) (use t inv in \<open>auto simp: pt_inv_def\<close>)
  show "space_ok (s\<lparr>mem := m'\<rparr>) r xs" "page_of (s\<lparr>mem := m'\<rparr>) r = page_of s r"
    using space_same [OF ok inv'] pe pp space_okD(3,4) [OF ok] x(3) m by auto
qed

lemma map_space:
  assumes ok: "space_ok s r xs" and va: "page_aligned va" "va < MAXVA" "\<not> valid_pte (pte_of (mem s) r va)"
    and x: "ram_page s x" "x \<notin> pt_pages (mem s) r \<union> set xs" "\<And>va. upage s r va \<Longrightarrow> frame_of s r va \<noteq> x"
    and perm: "perm < 0x400" "perm AND PTE_U \<noteq> 0"
  shows "\<exists>rv s' ys. mappages s r va PGSIZE x perm = Some (rv, s') \<and> (rv = 0 \<or> rv = -1 \<and> length xs < 2)
     \<and> space_ok s' r ys \<and> (\<exists>us. xs = us @ ys) \<and> kend s' = kend s
     \<and> page_of s' r = (if rv = 0 then (page_of s r)(va \<mapsto> mem_bytes (mem s) x 4096) else page_of s r)
     \<and> (rv = -1 \<longrightarrow> x \<notin> pt_pages (mem s') r \<union> set ys \<and> (\<forall>va. upage s' r va \<longrightarrow> frame_of s' r va \<noteq> x))
     \<and> (rv = 0 \<longrightarrow> frame_of s' r va = x \<and> pte_of (mem s') r va = PA2PTE x OR perm OR PTE_V)"
proof -
  note inv = space_okD(1) [OF ok]
  obtain rv s' ys where c: "mappages s r va PGSIZE x perm = Some (rv, s')" "pt_frame r s xs s' ys" "rv = 0 \<or> rv = -1 \<and> length xs < 2"
    and pte: "\<And>vb. vb < MAXVA \<Longrightarrow> pte_of (mem s') r vb = (if rv = 0 \<and> PGROUNDDOWN vb = va then PA2PTE x OR (perm OR PTE_V) else pte_of (mem s) r vb)"
    using mappages_one [OF inv va, of x perm] by (auto simp: or.assoc)
  obtain us where us: "xs = us @ ys" "pt_pages (mem s') r = pt_pages (mem s) r \<union> set us" "kend s' = kend s"
    and m: "\<And>y. PGROUNDDOWN y \<notin> pt_pages (mem s) r \<union> set xs \<Longrightarrow> mem s' y = mem s y"
    using c(2) by (auto simp: pt_frame_def)
  note inv' = pt_frame_inv [OF c(2)]
  have fr: "frame_of s r vb \<notin> pt_pages (mem s') r \<union> set ys" if "upage s r vb" for vb
    using space_okD(3,4) [OF ok that] us by auto
  have mf: "mem s' y = mem s y" if "upage s r vb" "PGROUNDDOWN y = frame_of s r vb" for vb y
    using m [of y] that space_okD(3,4) [OF ok that(1)] by auto
  have nx: "x \<notin> pt_pages (mem s') r \<union> set ys"
    using x(2) us by auto
  show ?thesis
  proof (cases "rv = 0")
    case False
    then have rv: "rv = -1" "length xs < 2" using c(3) by auto
    have pte': "pte_of (mem s') r vb = pte_of (mem s) r vb" if "vb < MAXVA" for vb
      using pte [OF that] rv by simp
    have "frame_of s' r vb \<noteq> x" if "upage s' r vb" for vb
      using x(3) [of vb] that pte' by (auto simp: upage_def frame_of_def)
    then show ?thesis
      using space_same [OF ok inv' us(3) pte' fr mf] c(1) rv us(1,3) nx
      by (intro exI [of _ rv] exI [of _ s'] exI [of _ ys]) auto
  next
    case True
    let ?e = "PA2PTE x OR (perm OR PTE_V)"
    have ex: "PTE2PA ?e = x"
      using x(1) perm(1) by (intro PTE2PA_PA2PTE flags_or_V) auto
    have eu: "user_pte ?e"
      using perm(2) by (simp add: user_pte_def PTE_tests bit_simps)
    have pte': "pte_of (mem s') r vb = (if vb = va then ?e else pte_of (mem s) r vb)" if "vb < MAXVA" "page_aligned vb" for vb
      using pte [OF that(1)] that(2) True by simp
    have up: "upage s' r vb \<longleftrightarrow> vb = va \<or> upage s r vb" for vb
      using pte' [of vb] va(1,2) eu by (auto simp: upage_def)
    have fo: "frame_of s' r vb = (if vb = va then x else frame_of s r vb)" if "vb = va \<or> upage s r vb" for vb
      using pte' [of vb] that va(1,2) ex by (auto simp: frame_of_def upage_def)
    have "\<not> upage s r va"
      using va(3) by (auto simp: upage_def user_pte_def)
    then have sp: "space_ok s' r ys"
      unfolding space_ok_def using inv' up fo fr nx x(1,3) space_okD(2,5) [OF ok] us(3) by (auto simp: ram_page_def)
    have xb: "mem_bytes (mem s') x 4096 = mem_bytes (mem s) x 4096"
      by (rule page_bytes_cong) (use x(1,2) m in \<open>auto simp: ram_page_def\<close>)
    have "page_of s' r vb = ((page_of s r)(va \<mapsto> mem_bytes (mem s) x 4096)) vb" for vb
    proof (cases "vb = va")
      case True
      then show ?thesis using up [of va] fo [of va] xb by (simp add: page_of_def)
    next
      case False
      show ?thesis
      proof (cases "upage s r vb")
        case True
        then have "mem_bytes (mem s') (frame_of s r vb) 4096 = mem_bytes (mem s) (frame_of s r vb) 4096"
          using space_okD(2) [OF ok True] mf by (intro page_bytes_cong) auto
        then show ?thesis
          using False True up [of vb] fo [of vb] by (simp add: page_of_def)
      qed (use False up [of vb] in \<open>simp add: page_of_def\<close>)
    qed
    then have "page_of s' r = (page_of s r)(va \<mapsto> mem_bytes (mem s) x 4096)" ..
    moreover have "pte_of (mem s') r va = PA2PTE x OR perm OR PTE_V"
      using pte' [OF va(2,1)] by (simp add: or.assoc)
    ultimately show ?thesis
      using True c(1) us(1,3) sp fo [of va] by (intro exI [of _ rv] exI [of _ s'] exI [of _ ys]) auto
  qed
qed

lemma kfree_space:
  assumes ok: "space_ok s r xs" and x: "ram_page s x" "x \<notin> pt_pages (mem s) r \<union> set xs" "\<And>va. upage s r va \<Longrightarrow> frame_of s r va \<noteq> x"
  shows "\<exists>s'. kfree s x = Some s' \<and> space_ok s' r (x # xs) \<and> page_of s' r = page_of s r \<and> unmapped_kept s s' r"
proof -
  obtain s' where k: "kfree s x = Some s'"
    using kfree_Some [OF x(1)] by blast
  note inv = space_okD(1) [OF ok]
  note kp = kfree_pt [OF inv x(1) _ _ k] and kd = kfree_SomeD [OF k]
  have "space_ok s' r (x # xs) \<and> page_of s' r = page_of s r"
    using space_same [OF ok kp(1) kd(2) kp(2)] x kp(3) space_okD(3,4) [OF ok] kd(3) by auto
  moreover have "unmapped_kept s s' r"
    using kp(2) x(2) by (simp add: unmapped_kept_def)
  ultimately show ?thesis using k by blast
qed

lemma clear_space:
  assumes ok: "space_ok s r xs" and va: "upage s r va"
  shows "\<exists>pte. walk s r va False = Some (pte, s) \<and> pte \<noteq> 0 \<and> load64 (mem s) pte = pte_of (mem s) r va
     \<and> space_ok (s\<lparr>mem := store64 (mem s) pte 0\<rparr>) r xs
     \<and> page_of (s\<lparr>mem := store64 (mem s) pte 0\<rparr>) r = (page_of s r)(va := None)
     \<and> frame_of s r va \<notin> pt_pages (store64 (mem s) pte 0) r \<union> set xs
     \<and> (\<forall>vb. upage (s\<lparr>mem := store64 (mem s) pte 0\<rparr>) r vb \<longrightarrow> frame_of (s\<lparr>mem := store64 (mem s) pte 0\<rparr>) r vb \<noteq> frame_of s r va)
     \<and> unmapped_kept s (s\<lparr>mem := store64 (mem s) pte 0\<rparr>) r"
proof -
  note inv = space_okD(1) [OF ok]
  have a: "page_aligned va" "va < MAXVA" "valid_pte (pte_of (mem s) r va)"
    using va by (auto simp: upage_def user_pte_def)
  from inv a(2) show ?thesis
  proof (cases rule: walk_lookup)
    case absent
    then show ?thesis using a(3) by simp
  next
    case (entry pte t)
    let ?m = "store64 (mem s) pte 0"
    let ?s = "s\<lparr>mem := ?m\<rparr>"
    note ls = leaf_store [where v = 0, OF inv entry(4) a(2), folded entry(5)]
    have pte: "pte_of ?m r vb = (if vb = va then 0 else pte_of (mem s) r vb)" if "vb < MAXVA" "page_aligned vb" for vb
      using ls(2) [OF that(1)] that(2) a(1) by simp
    have up: "upage ?s r vb \<longleftrightarrow> vb \<noteq> va \<and> upage s r vb" for vb
      using pte [of vb] by (auto simp: upage_def user_pte_def split: if_splits)
    have fo: "frame_of ?s r vb = frame_of s r vb" if "vb \<noteq> va" "upage s r vb" for vb
      using pte [of vb] that by (simp add: frame_of_def upage_def)
    have "space_ok ?s r xs"
      unfolding space_ok_def using ls(1,3) up fo space_okD(2-5) [OF ok] by auto
    moreover have "page_of ?s r vb = ((page_of s r)(va := None)) vb" for vb
    proof (cases "vb \<noteq> va \<and> upage s r vb")
      case True
      then have "mem_bytes ?m (frame_of s r vb) 4096 = mem_bytes (mem s) (frame_of s r vb) 4096"
        using space_okD(2,3) [OF ok, of vb] ls(4) by (intro page_bytes_cong) auto
      then show ?thesis using True up [of vb] fo [of vb] by (simp add: page_of_def)
    qed (use up [of vb] in \<open>auto simp: page_of_def\<close>)
    moreover have "frame_of ?s r vb \<noteq> frame_of s r va" if "upage ?s r vb" for vb
      using that up [of vb] fo [of vb] space_okD(5) [OF ok, of vb va] va by auto
    moreover have "unmapped_kept s ?s r"
      using ls(2) by (auto simp: unmapped_kept_def)
    ultimately show ?thesis
      using entry(1-3) ls(3) space_okD(3,4) [OF ok va] by (intro exI [of _ pte]) auto
  qed
qed

text \<open>The frame freed last is the one allocated next.\<close>

lemma evict_space:
  assumes ok: "space_ok s r xs" and va: "upage s r va"
  obtains pte s1 s2 where "walk s r va False = Some (pte, s)" "pte \<noteq> 0" "load64 (mem s) pte = pte_of (mem s) r va"
    "kfree (s\<lparr>mem := store64 (mem s) pte 0\<rparr>) (frame_of s r va) = Some s1" "kalloc s1 = (frame_of s r va, s2)"
    "space_ok s2 r xs" "page_of s2 r = (page_of s r)(va := None)" "frame_of s r va \<noteq> 0"
    "ram_page s2 (frame_of s r va)" "frame_of s r va \<notin> pt_pages (mem s2) r \<union> set xs"
    "\<And>vb. upage s2 r vb \<Longrightarrow> frame_of s2 r vb \<noteq> frame_of s r va" "unmapped_kept s s2 r"
proof -
  obtain pte where c: "walk s r va False = Some (pte, s)" "pte \<noteq> 0" "load64 (mem s) pte = pte_of (mem s) r va"
      "space_ok (s\<lparr>mem := store64 (mem s) pte 0\<rparr>) r xs" "page_of (s\<lparr>mem := store64 (mem s) pte 0\<rparr>) r = (page_of s r)(va := None)"
      "frame_of s r va \<notin> pt_pages (store64 (mem s) pte 0) r \<union> set xs"
      "\<And>vb. upage (s\<lparr>mem := store64 (mem s) pte 0\<rparr>) r vb \<Longrightarrow> frame_of (s\<lparr>mem := store64 (mem s) pte 0\<rparr>) r vb \<noteq> frame_of s r va"
      "unmapped_kept s (s\<lparr>mem := store64 (mem s) pte 0\<rparr>) r"
    using clear_space [OF ok va] by blast
  obtain s1 where s1: "kfree (s\<lparr>mem := store64 (mem s) pte 0\<rparr>) (frame_of s r va) = Some s1"
      "space_ok s1 r (frame_of s r va # xs)" "page_of s1 r = (page_of s r)(va := None)"
      "unmapped_kept (s\<lparr>mem := store64 (mem s) pte 0\<rparr>) s1 r"
    using kfree_space [OF c(4)] space_okD(2) [OF ok va] c(5,6,7) by auto
  obtain q s2 where k: "kalloc s1 = (q, s2)" by (cases "kalloc s1")
  note ks = kalloc_space [OF s1(2) k]
  have "unmapped_kept s s2 r"
    using c(8) s1(4) ks(8) by (simp add: unmapped_kept_def)
  then show thesis
    using that [OF c(1-3) s1(1)] k ks s1(3) by simp
qed

section \<open>Concrete spaces\<close>

lemma empty_space_ok: "space_ok empty_space 0x87FFB000 [0x87FFC000, 0x87FFD000, 0x87FFE000, 0x87FFF000]"
  using empty_space(1,2) by (simp add: space_ok_def upage_def user_pte_def)

lemma one_user_page:
  obtains s ys where "space_ok s 0x87FFB000 ys" "\<And>va. upage s 0x87FFB000 va \<longleftrightarrow> va = 0x1000"
    "pte_of (mem s) 0x87FFB000 0x1000 = PA2PTE 0x87FFC000 OR (PTE_R OR PTE_W OR PTE_U) OR PTE_V"
proof -
  obtain q s where k: "kalloc empty_space = (q, s)" by (cases "kalloc empty_space")
  note ks = kalloc_space [OF empty_space_ok k]
  have e: "pte_of (mem s) 0x87FFB000 va = 0" for va
    using kalloc_pt(2) [OF empty_space(1) k, of va] empty_space(2) by simp
  have al: "page_aligned 0x1000" "(0x1000 :: u64) < MAXVA" by (simp_all add: page_aligned_def)
  have "\<not> valid_pte (pte_of (mem s) 0x87FFB000 0x1000)" "PTE_R OR PTE_W OR PTE_U < 0x400" "(PTE_R OR PTE_W OR PTE_U) AND PTE_U \<noteq> 0"
    using e by simp_all
  note ms = map_space [OF ks(2) al this(1) ks(4,5) _ this(2,3)]
  obtain s1 ys where s1: "space_ok s1 0x87FFB000 ys"
     "page_of s1 0x87FFB000 = (page_of s 0x87FFB000)(0x1000 \<mapsto> mem_bytes (mem s) 0x87FFC000 4096)"
     "pte_of (mem s1) 0x87FFB000 0x1000 = PA2PTE 0x87FFC000 OR (PTE_R OR PTE_W OR PTE_U) OR PTE_V"
    using ms [OF ks(6)] by simp metis
  have "page_of s 0x87FFB000 va = None" for va
    using e by (simp add: page_of_def upage_def user_pte_def)
  then have "upage s1 0x87FFB000 va \<longleftrightarrow> va = 0x1000" for va
    using fun_cong [OF s1(2), of va] by (auto simp: page_of_def split: if_split_asm)
  with s1(1) show thesis using s1(3) by (rule that)
qed

end
