(* ===== verification/Memstat.thy ===== *)
theory Memstat
  imports Riscv
begin

text \<open>
  The per-process page metadata of \<open>memstat.h\<close>, the functions of \<open>vm.c\<close> that maintain it, and
  the two victim selections: FIFO (\<open>vm.c\<close>) and clean-first FIFO (\<open>vm_bonus.c\<close>).

  The sequence numbers are C \<open>int\<close>s that the code always compares as \<open>uint\<close>; they are 32-bit
  words here. The functions take the \<open>memstat\<close> field of the process instead of the process.
\<close>

section \<open>Data\<close>

abbreviation MAX_PAGES_INFO :: nat where
  "MAX_PAGES_INFO \<equiv> 128"

datatype page_state = UNMAPPED | RESIDENT | SWAPPED

record page_stat =
  ps_va :: u32
  ps_state :: page_state
  ps_dirty :: bool
  ps_seq :: u32
  ps_slot :: int

record proc_mem_stat =
  ms_pid :: int
  num_pages_total :: int
  num_resident_pages :: int
  ms_num_swapped_pages :: int
  next_fifo_seq :: u32
  ms_pages :: "page_stat list"

text \<open>Writing one field of one entry.\<close>

definition upd_page :: "nat \<Rightarrow> (page_stat \<Rightarrow> page_stat) \<Rightarrow> proc_mem_stat \<Rightarrow> proc_mem_stat" where
  "upd_page i f ms = ms\<lparr>ms_pages := (ms_pages ms)[i := f (ms_pages ms ! i)]\<rparr>"

section \<open>Operations\<close>

text \<open>
  \<open>memstat_find_index\<close>: the live entry of the page, or the first unused entry, which is given
  the page's address; \<open>None\<close> is the result -1.
\<close>

definition memstat_find_index :: "proc_mem_stat \<Rightarrow> u64 \<Rightarrow> nat option \<times> proc_mem_stat" where
  "memstat_find_index ms va =
     (case first_idx (\<lambda>p. ps_state p \<noteq> UNMAPPED \<and> ps_va p = ucast va) (ms_pages ms) of
        Some i \<Rightarrow> (Some i, ms)
      | None \<Rightarrow>
          (case first_idx (\<lambda>p. ps_state p = UNMAPPED) (ms_pages ms) of
             Some i \<Rightarrow> (Some i, upd_page i (\<lambda>p. p\<lparr>ps_va := ucast va\<rparr>) ms)
           | None \<Rightarrow> (None, ms)))"

definition memstat_mark_resident :: "proc_mem_stat \<Rightarrow> u64 \<Rightarrow> u32 \<Rightarrow> proc_mem_stat" where
  "memstat_mark_resident ms va seq =
     (case memstat_find_index ms va of
        (None, ms1) \<Rightarrow> ms1
      | (Some idx, ms1) \<Rightarrow>
          let ms2 = (if ps_state (ms_pages ms1 ! idx) \<noteq> RESIDENT
                     then ms1\<lparr>num_resident_pages := num_resident_pages ms1 + 1\<rparr> else ms1)
          in upd_page idx (\<lambda>p. p\<lparr>ps_state := RESIDENT, ps_seq := seq, ps_dirty := False, ps_slot := -1\<rparr>) ms2)"

definition memstat_mark_unmapped :: "proc_mem_stat \<Rightarrow> u64 \<Rightarrow> proc_mem_stat" where
  "memstat_mark_unmapped ms va =
     (case memstat_find_index ms va of
        (None, ms1) \<Rightarrow> ms1
      | (Some idx, ms1) \<Rightarrow>
          let ms2 = (if ps_state (ms_pages ms1 ! idx) = RESIDENT \<and> num_resident_pages ms1 > 0
                     then ms1\<lparr>num_resident_pages := num_resident_pages ms1 - 1\<rparr> else ms1)
          in upd_page idx (\<lambda>p. p\<lparr>ps_state := UNMAPPED, ps_slot := -1\<rparr>) ms2)"

definition memstat_mark_swapped :: "proc_mem_stat \<Rightarrow> u64 \<Rightarrow> int \<Rightarrow> proc_mem_stat" where
  "memstat_mark_swapped ms va slot =
     (case memstat_find_index ms va of
        (None, ms1) \<Rightarrow> ms1
      | (Some idx, ms1) \<Rightarrow>
          let ms2 = (if ps_state (ms_pages ms1 ! idx) = RESIDENT \<and> num_resident_pages ms1 > 0
                     then ms1\<lparr>num_resident_pages := num_resident_pages ms1 - 1\<rparr> else ms1)
          in upd_page idx (\<lambda>p. p\<lparr>ps_state := SWAPPED, ps_slot := slot\<rparr>) ms2)"

text \<open>
  The loop body of the victim selections. The accumulator is the index of the best candidate so
  far (\<open>None\<close> for -1), its sequence number and its address.
\<close>

type_synonym candidate = "nat option \<times> u32 \<times> u32"

fun better :: "page_stat \<Rightarrow> candidate \<Rightarrow> bool" where
  "better p (victim, victim_seq, victim_va) \<longleftrightarrow>
     victim = None \<or> ps_seq p < victim_seq \<or> (ps_seq p = victim_seq \<and> ps_va p < victim_va)"

definition fifo_step :: "page_stat list \<Rightarrow> nat \<Rightarrow> candidate \<Rightarrow> candidate" where
  "fifo_step ps i c =
     (if ps_state (ps ! i) = RESIDENT \<and> better (ps ! i) c
      then (Some i, ps_seq (ps ! i), ps_va (ps ! i)) else c)"

definition select_victim_fifo_index :: "proc_mem_stat \<Rightarrow> nat option" where
  "select_victim_fifo_index ms = fst (fold (fifo_step (ms_pages ms)) [0..<MAX_PAGES_INFO] (None, 0, 0))"

definition cleanfifo_step :: "page_stat list \<Rightarrow> nat \<Rightarrow> candidate \<times> candidate \<Rightarrow> candidate \<times> candidate" where
  "cleanfifo_step ps i c =
     (case c of (clean, fifo) \<Rightarrow>
        if ps_state (ps ! i) = RESIDENT
        then ((if \<not> ps_dirty (ps ! i) \<and> better (ps ! i) clean
               then (Some i, ps_seq (ps ! i), ps_va (ps ! i)) else clean),
              (if better (ps ! i) fifo then (Some i, ps_seq (ps ! i), ps_va (ps ! i)) else fifo))
        else (clean, fifo))"

text \<open>The result is the victim and the flag \<open>chose_clean\<close>.\<close>

definition select_victim_cleanfifo_index :: "proc_mem_stat \<Rightarrow> nat option \<times> bool" where
  "select_victim_cleanfifo_index ms =
     (case fold (cleanfifo_step (ms_pages ms)) [0..<MAX_PAGES_INFO] ((None, 0, 0), (None, 0, 0)) of
        ((clean, _), (fifo, _)) \<Rightarrow> (if clean \<noteq> None then clean else fifo, clean \<noteq> None))"

section \<open>Victim selection\<close>

text \<open>The oldest page among those that satisfy \<open>Q\<close>, ties broken by address, then by index.\<close>

definition older :: "page_stat \<Rightarrow> page_stat \<Rightarrow> bool" where
  "older p q \<longleftrightarrow> ps_seq p < ps_seq q \<or> (ps_seq p = ps_seq q \<and> ps_va p < ps_va q)"

definition oldest :: "(page_stat \<Rightarrow> bool) \<Rightarrow> page_stat list \<Rightarrow> nat option \<Rightarrow> bool" where
  "oldest Q ps r \<longleftrightarrow>
     (case r of
        None \<Rightarrow> \<forall>p \<in> set ps. \<not> Q p
      | Some i \<Rightarrow> i < length ps \<and> Q (ps ! i) \<and>
          (\<forall>j < length ps. Q (ps ! j) \<longrightarrow> \<not> older (ps ! j) (ps ! i) \<and> (j < i \<longrightarrow> older (ps ! i) (ps ! j))))"

definition best_step :: "(page_stat \<Rightarrow> bool) \<Rightarrow> page_stat list \<Rightarrow> nat \<Rightarrow> candidate \<Rightarrow> candidate" where
  "best_step Q ps i c = (if Q (ps ! i) \<and> better (ps ! i) c then (Some i, ps_seq (ps ! i), ps_va (ps ! i)) else c)"

lemma older_trans: "older p q \<Longrightarrow> older q r \<Longrightarrow> older p r"
  by (auto simp: older_def)

lemma older_total: "\<not> older p q \<Longrightarrow> \<not> older q p \<Longrightarrow> older q r \<Longrightarrow> older p r"
  by (auto simp: older_def not_less)

lemma not_older_trans: "\<not> older q p \<Longrightarrow> older q r \<Longrightarrow> older p r"
  by (auto simp: older_def not_less)

lemma best_step_inv:
  assumes "n \<le> length ps" "fold (best_step Q ps) [0..<n] (None, 0, 0) = (v, s, a)"
  shows "case v of
      None \<Rightarrow> \<forall>j < n. \<not> Q (ps ! j)
    | Some i \<Rightarrow> i < n \<and> Q (ps ! i) \<and> s = ps_seq (ps ! i) \<and> a = ps_va (ps ! i) \<and>
        (\<forall>j < n. Q (ps ! j) \<longrightarrow> \<not> older (ps ! j) (ps ! i) \<and> (j < i \<longrightarrow> older (ps ! i) (ps ! j)))"
  using assms
proof (induction n arbitrary: v s a)
  case 0
  then show ?case by simp
next
  case (Suc n)
  obtain v1 s1 a1 where f: "fold (best_step Q ps) [0..<n] (None, 0, 0) = (v1, s1, a1)"
    using prod_cases3 by blast
  note IH = Suc.IH [OF Suc_leD [OF Suc.prems(1)] f]
  have step: "best_step Q ps n (v1, s1, a1) = (v, s, a)" using Suc.prems(2) f by simp
  show ?case
  proof (cases "Q (ps ! n) \<and> better (ps ! n) (v1, s1, a1)")
    case False
    then have "v = v1" "s = s1" "a = a1" using step by (auto simp: best_step_def)
    then show ?thesis using IH False
      by (auto simp: older_def less_Suc_eq split: option.splits)
  next
    case True
    then have v: "v = Some n" "s = ps_seq (ps ! n)" "a = ps_va (ps ! n)" using step by (auto simp: best_step_def)
    have "\<not> older (ps ! j) (ps ! n) \<and> older (ps ! n) (ps ! j)" if j: "j < n" "Q (ps ! j)" for j
    proof (cases v1)
      case None
      then show ?thesis using IH j by simp
    next
      case (Some i)
      then have "older (ps ! n) (ps ! i)" "\<not> older (ps ! j) (ps ! i)"
        using True IH j by (auto simp: older_def)
      then show ?thesis using not_older_trans older_trans by blast
    qed
    then show ?thesis using v True by (auto simp: less_Suc_eq older_def)
  qed
qed

lemma best_step_oldest:
  "length ps = n \<Longrightarrow> oldest Q ps (fst (fold (best_step Q ps) [0..<n] (None, 0, 0)))"
  using best_step_inv [of n ps Q]
  by (cases "fold (best_step Q ps) [0..<n] (None, 0, 0)") (auto simp: oldest_def in_set_conv_nth split: option.splits)

lemma oldest_unique:
  assumes "oldest Q ps (Some i)" "oldest Q ps (Some j)"
  shows "i = j"
  using assms by (cases i j rule: linorder_cases) (auto simp: oldest_def)

lemma fifo_step_best: "fifo_step = best_step (\<lambda>p. ps_state p = RESIDENT)"
  by (auto simp: fun_eq_iff fifo_step_def best_step_def)

lemma fold_cleanfifo:
  "fold (cleanfifo_step ps) is (c, f) =
     (fold (best_step (\<lambda>p. ps_state p = RESIDENT \<and> \<not> ps_dirty p) ps) is c,
      fold (best_step (\<lambda>p. ps_state p = RESIDENT) ps) is f)"
  by (induction "is" arbitrary: c f) (auto simp: cleanfifo_step_def best_step_def)

text \<open>
  What page replacement needs of a selection: it names a resident page whenever there is one.
\<close>

locale replacement_policy =
  fixes select :: "proc_mem_stat \<Rightarrow> nat option"
  assumes select_resident: "length (ms_pages ms) = MAX_PAGES_INFO \<Longrightarrow> select ms = Some i \<Longrightarrow>
      i < MAX_PAGES_INFO \<and> ps_state (ms_pages ms ! i) = RESIDENT"
    and select_None: "length (ms_pages ms) = MAX_PAGES_INFO \<Longrightarrow>
      select ms = None \<longleftrightarrow> (\<forall>p \<in> set (ms_pages ms). ps_state p \<noteq> RESIDENT)"

lemma fifo_oldest:
  assumes "length (ms_pages ms) = MAX_PAGES_INFO"
  shows "oldest (\<lambda>p. ps_state p = RESIDENT) (ms_pages ms) (select_victim_fifo_index ms)"
  unfolding select_victim_fifo_index_def fifo_step_best by (rule best_step_oldest [OF assms])

interpretation fifo: replacement_policy select_victim_fifo_index
proof
  fix ms :: proc_mem_stat and i
  assume len: "length (ms_pages ms) = MAX_PAGES_INFO"
  note o = fifo_oldest [OF len]
  show "select_victim_fifo_index ms = Some i \<Longrightarrow> i < MAX_PAGES_INFO \<and> ps_state (ms_pages ms ! i) = RESIDENT"
    using o len by (simp add: oldest_def)
  show "select_victim_fifo_index ms = None \<longleftrightarrow> (\<forall>p \<in> set (ms_pages ms). ps_state p \<noteq> RESIDENT)"
    using o len by (auto simp: oldest_def split: option.splits)
qed

lemma cleanfifo_oldest:
  assumes "length (ms_pages ms) = MAX_PAGES_INFO"
  shows "snd (select_victim_cleanfifo_index ms) \<longleftrightarrow> (\<exists>p \<in> set (ms_pages ms). ps_state p = RESIDENT \<and> \<not> ps_dirty p)"
    and "oldest (\<lambda>p. ps_state p = RESIDENT \<and> (snd (select_victim_cleanfifo_index ms) \<longrightarrow> \<not> ps_dirty p))
           (ms_pages ms) (fst (select_victim_cleanfifo_index ms))"
proof -
  let ?P = "\<lambda>p. ps_state p = RESIDENT \<and> \<not> ps_dirty p" and ?Q = "\<lambda>p. ps_state p = RESIDENT"
  obtain c cs ca where c: "fold (best_step ?P (ms_pages ms)) [0..<MAX_PAGES_INFO] (None, 0, 0) = (c, cs, ca)"
    using prod_cases3 by blast
  obtain f fs fa where f: "fold (best_step ?Q (ms_pages ms)) [0..<MAX_PAGES_INFO] (None, 0, 0) = (f, fs, fa)"
    using prod_cases3 by blast
  have sel: "select_victim_cleanfifo_index ms = (if c \<noteq> None then c else f, c \<noteq> None)"
    unfolding select_victim_cleanfifo_index_def fold_cleanfifo c f by simp
  have oc: "oldest ?P (ms_pages ms) c" using best_step_oldest [OF assms, of ?P] c by simp
  have of: "oldest ?Q (ms_pages ms) f" using best_step_oldest [OF assms, of ?Q] f by simp
  show "snd (select_victim_cleanfifo_index ms) \<longleftrightarrow> (\<exists>p \<in> set (ms_pages ms). ?P p)"
    using oc unfolding sel by (cases c) (auto simp: oldest_def)
  show "oldest (\<lambda>p. ps_state p = RESIDENT \<and> (snd (select_victim_cleanfifo_index ms) \<longrightarrow> \<not> ps_dirty p))
           (ms_pages ms) (fst (select_victim_cleanfifo_index ms))"
    using oc of unfolding sel by (cases c) simp_all
qed

interpretation cleanfifo: replacement_policy "\<lambda>ms. fst (select_victim_cleanfifo_index ms)"
proof
  fix ms :: proc_mem_stat and i
  assume len: "length (ms_pages ms) = MAX_PAGES_INFO"
  note o = cleanfifo_oldest [OF len]
  show "fst (select_victim_cleanfifo_index ms) = Some i \<Longrightarrow> i < MAX_PAGES_INFO \<and> ps_state (ms_pages ms ! i) = RESIDENT"
    using o(2) len by (simp add: oldest_def)
  show "fst (select_victim_cleanfifo_index ms) = None \<longleftrightarrow> (\<forall>p \<in> set (ms_pages ms). ps_state p \<noteq> RESIDENT)"
    using o len by (auto simp: oldest_def split: option.splits)
qed

section \<open>The metadata invariant\<close>

text \<open>
  \<open>ms_inv\<close>: the table has its 128 entries, and no entry in front of a live one carries the same
  address. So live addresses are distinct, and a loop that searches by address alone, without
  looking at the state, stops at the live entry of the page.
\<close>

definition live :: "page_stat \<Rightarrow> bool" where
  "live p \<longleftrightarrow> ps_state p \<noteq> UNMAPPED"

definition ms_inv :: "proc_mem_stat \<Rightarrow> bool" where
  "ms_inv ms \<longleftrightarrow> length (ms_pages ms) = MAX_PAGES_INFO \<and>
     (\<forall>i < MAX_PAGES_INFO. \<forall>j < i. live (ms_pages ms ! i) \<longrightarrow> ps_va (ms_pages ms ! j) \<noteq> ps_va (ms_pages ms ! i))"

text \<open>The live entry of a page.\<close>

definition entry_of :: "proc_mem_stat \<Rightarrow> u32 \<Rightarrow> page_stat option" where
  "entry_of ms v = map_option ((!) (ms_pages ms)) (first_idx (\<lambda>p. live p \<and> ps_va p = v) (ms_pages ms))"

lemma first_by_va:
  assumes "ms_inv ms" "i < MAX_PAGES_INFO" "live (ms_pages ms ! i)"
  shows "first_idx (\<lambda>p. ps_va p = ps_va (ms_pages ms ! i)) (ms_pages ms) = Some i"
  using assms by (auto simp: first_idx_Some_iff ms_inv_def)

lemma ms_inv_length: "ms_inv ms \<Longrightarrow> length (ms_pages ms) = MAX_PAGES_INFO"
  by (simp add: ms_inv_def)

lemma ms_inv_unique:
  assumes "ms_inv ms" "i < MAX_PAGES_INFO" "j < MAX_PAGES_INFO" "live (ms_pages ms ! i)" "live (ms_pages ms ! j)"
    and "ps_va (ms_pages ms ! i) = ps_va (ms_pages ms ! j)"
  shows "i = j"
  using assms unfolding ms_inv_def by (metis nat_neq_iff)

lemma entry_of_Some_iff:
  assumes "ms_inv ms"
  shows "entry_of ms v = Some p \<longleftrightarrow> (\<exists>i < MAX_PAGES_INFO. ms_pages ms ! i = p \<and> live p \<and> ps_va p = v)"
proof
  assume "entry_of ms v = Some p"
  then show "\<exists>i < MAX_PAGES_INFO. ms_pages ms ! i = p \<and> live p \<and> ps_va p = v"
    using ms_inv_length [OF assms] by (auto simp: entry_of_def first_idx_Some_iff)
next
  assume "\<exists>i < MAX_PAGES_INFO. ms_pages ms ! i = p \<and> live p \<and> ps_va p = v"
  then obtain i where i: "i < MAX_PAGES_INFO" "ms_pages ms ! i = p" "live p" "ps_va p = v" by blast
  then have "first_idx (\<lambda>p. live p \<and> ps_va p = v) (ms_pages ms) = Some i"
    using assms by (auto simp: first_idx_Some_iff ms_inv_def)
  then show "entry_of ms v = Some p" using i by (simp add: entry_of_def)
qed

lemma entry_of_None_iff:
  assumes "ms_inv ms"
  shows "entry_of ms v = None \<longleftrightarrow> (\<forall>i < MAX_PAGES_INFO. \<not> (live (ms_pages ms ! i) \<and> ps_va (ms_pages ms ! i) = v))"
  using entry_of_Some_iff [OF assms, of v] by (metis not_None_eq)

text \<open>Writing entry \<open>i\<close>, when no entry in front of it has the new entry's address and no other live
  entry has it, keeps the invariant and changes the entry of that address only.\<close>

definition set_ok :: "proc_mem_stat \<Rightarrow> nat \<Rightarrow> u32 \<Rightarrow> bool" where
  "set_ok ms i v \<longleftrightarrow> i < MAX_PAGES_INFO \<and> (live (ms_pages ms ! i) \<longrightarrow> ps_va (ms_pages ms ! i) = v) \<and>
     (\<forall>j < i. ps_va (ms_pages ms ! j) \<noteq> v) \<and>
     (\<forall>j < MAX_PAGES_INFO. j \<noteq> i \<longrightarrow> live (ms_pages ms ! j) \<longrightarrow> ps_va (ms_pages ms ! j) \<noteq> v)"

lemma set_entry:
  assumes inv: "ms_inv ms" and ok: "set_ok ms i v" and q: "ps_va q = v"
    and ms': "ms_pages ms' = (ms_pages ms)[i := q]"
  shows "ms_inv ms'"
    and "entry_of ms' w = (if w = v then if live q then Some q else None else entry_of ms w)"
proof -
  note len = ms_inv_length [OF inv]
  have nth: "ms_pages ms' ! j = (if j = i then q else ms_pages ms ! j)" if "j < MAX_PAGES_INFO" for j
    using ok len that by (simp add: ms' set_ok_def)
  show inv': "ms_inv ms'"
    unfolding ms_inv_def
  proof (intro conjI allI impI)
    show "length (ms_pages ms') = MAX_PAGES_INFO" using len by (simp add: ms')
    fix a b assume "a < MAX_PAGES_INFO" "b < a" "live (ms_pages ms' ! a)"
    then show "ps_va (ms_pages ms' ! b) \<noteq> ps_va (ms_pages ms' ! a)"
      using inv ok q nth [of a] nth [of b] by (auto simp: ms_inv_def set_ok_def)
  qed
  show "entry_of ms' w = (if w = v then if live q then Some q else None else entry_of ms w)"
  proof (cases "w = v")
    case True
    have i: "i < MAX_PAGES_INFO" "ms_pages ms' ! i = q" using ok nth by (auto simp: set_ok_def)
    have "\<not> (live (ms_pages ms' ! j) \<and> ps_va (ms_pages ms' ! j) = v)" if "j < MAX_PAGES_INFO" "j \<noteq> i" for j
      using ok that nth [OF that(1)] by (simp add: set_ok_def)
    then have "entry_of ms' v = None" if "\<not> live q"
      using that i(2) entry_of_None_iff [OF inv'] by metis
    moreover have "entry_of ms' v = Some q" if "live q"
      using that i q entry_of_Some_iff [OF inv'] by blast
    ultimately show ?thesis using True by simp
  next
    case False
    have "(ms_pages ms' ! j = p \<and> live p \<and> ps_va p = w) \<longleftrightarrow> (ms_pages ms ! j = p \<and> live p \<and> ps_va p = w)"
      if "j < MAX_PAGES_INFO" for j p
      using ok q False nth [OF that] by (cases "j = i") (auto simp: set_ok_def)
    then have "entry_of ms' w = Some p \<longleftrightarrow> entry_of ms w = Some p" for p
      unfolding entry_of_Some_iff [OF inv] entry_of_Some_iff [OF inv'] by metis
    then show ?thesis using False by (metis option.exhaust)
  qed
qed

lemma find_index_spec:
  assumes inv: "ms_inv ms" and f: "memstat_find_index ms va = (r, ms1)"
  shows "case r of
      None \<Rightarrow> ms1 = ms \<and> entry_of ms (ucast va) = None \<and> (\<forall>p \<in> set (ms_pages ms). live p)
    | Some i \<Rightarrow> set_ok ms i (ucast va) \<and> ps_va (ms_pages ms1 ! i) = ucast va \<and>
        num_resident_pages ms1 = num_resident_pages ms \<and>
        next_fifo_seq ms1 = next_fifo_seq ms \<and>
        ms_pages ms1 = (ms_pages ms)[i := (ms_pages ms ! i)\<lparr>ps_va := ucast va\<rparr>] \<and>
        entry_of ms (ucast va) = (if live (ms_pages ms ! i) then Some (ms_pages ms ! i) else None)"
proof (cases "first_idx (\<lambda>p. ps_state p \<noteq> UNMAPPED \<and> ps_va p = ucast va) (ms_pages ms)")
  case (Some i)
  note len = ms_inv_length [OF inv]
  have r: "r = Some i" "ms1 = ms" using f Some by (simp_all add: memstat_find_index_def)
  have i: "i < MAX_PAGES_INFO" "live (ms_pages ms ! i)" "ps_va (ms_pages ms ! i) = ucast va"
    using first_idx_SomeD [OF Some] len by (auto simp: live_def)
  have "set_ok ms i (ucast va)"
    using i inv ms_inv_unique [OF inv] by (auto simp: set_ok_def ms_inv_def)
  moreover have "entry_of ms (ucast va) = Some (ms_pages ms ! i)" using i entry_of_Some_iff [OF inv] by blast
  moreover have "(ms_pages ms ! i)\<lparr>ps_va := ucast va\<rparr> = ms_pages ms ! i"
    using i(3) by (cases "ms_pages ms ! i") simp
  then have "ms_pages ms = (ms_pages ms)[i := (ms_pages ms ! i)\<lparr>ps_va := ucast va\<rparr>]"
    by (simp only: list_update_id)
  ultimately show ?thesis using i r by simp
next
  case None
  note len = ms_inv_length [OF inv]
  have nl: "\<not> (live p \<and> ps_va p = ucast va)" if "p \<in> set (ms_pages ms)" for p using None that by (auto simp: live_def)
  then have e: "entry_of ms (ucast va) = None" using len by (simp add: entry_of_None_iff [OF inv])
  show ?thesis
  proof (cases "first_idx (\<lambda>p. ps_state p = UNMAPPED) (ms_pages ms)")
    case full: None
    have "r = None" "ms1 = ms" unfolding atomize_conj using f unfolding memstat_find_index_def None full by simp
    then show ?thesis using full e by (auto simp: live_def)
  next
    case (Some i)
    have r: "r = Some i" "ms1 = upd_page i (\<lambda>p. p\<lparr>ps_va := ucast va\<rparr>) ms"
      using f None Some by (simp_all add: memstat_find_index_def)
    have i: "i < MAX_PAGES_INFO" "\<not> live (ms_pages ms ! i)" "\<And>j. j < i \<Longrightarrow> live (ms_pages ms ! j)"
      using first_idx_SomeD [OF Some] len by (auto simp: live_def)
    then have "set_ok ms i (ucast va)" using nl len by (auto simp: set_ok_def)
    then show ?thesis using i r e len by (simp add: upd_page_def)
  qed
qed

lemma mark_entry:
  assumes inv: "ms_inv ms" and f: "memstat_find_index ms va = (Some i, ms1)"
    and ms2: "ms_pages ms2 = ms_pages ms1" and va: "\<And>p. ps_va (g p) = ps_va p"
    and q: "q = g ((ms_pages ms ! i)\<lparr>ps_va := ucast va\<rparr>)"
  shows "ms_inv (upd_page i g ms2)"
    and "entry_of (upd_page i g ms2) w = (if w = ucast va then if live q then Some q else None else entry_of ms w)"
proof -
  note sp = find_index_spec [OF inv f, simplified]
  have i: "i < MAX_PAGES_INFO" and ok: "set_ok ms i (ucast va)" using sp by (auto simp: set_ok_def)
  have "ms_pages (upd_page i g ms2) = (ms_pages ms)[i := q]"
    using sp i ms_inv_length [OF inv] by (simp add: upd_page_def ms2 q)
  moreover have "ps_va q = ucast va" by (simp add: q va)
  ultimately show "ms_inv (upd_page i g ms2)"
    "entry_of (upd_page i g ms2) w = (if w = ucast va then if live q then Some q else None else entry_of ms w)"
    using set_entry [OF inv ok] by blast+
qed

lemma find_index_room:
  assumes "ms_inv ms" "entry_of ms (ucast va) \<noteq> None \<or> (\<exists>p \<in> set (ms_pages ms). \<not> live p)"
  obtains i ms1 where "memstat_find_index ms va = (Some i, ms1)"
  using assms find_index_spec [OF assms(1)] by (cases "memstat_find_index ms va") (fastforce split: option.splits)

lemmas mark_defs = memstat_mark_resident_def memstat_mark_unmapped_def memstat_mark_swapped_def

lemma mark_inv:
  assumes "ms_inv ms"
  shows "ms_inv (memstat_mark_resident ms va seq)" and "ms_inv (memstat_mark_unmapped ms va)"
    and "ms_inv (memstat_mark_swapped ms va slot)"
proof -
  obtain r ms1 where f: "memstat_find_index ms va = (r, ms1)" by (cases "memstat_find_index ms va")
  have None: "r = None \<Longrightarrow> ms1 = ms" using find_index_spec [OF assms f] by simp
  show "ms_inv (memstat_mark_resident ms va seq)"
    using assms f None mark_entry(1) [OF assms, of va _ ms1]
    by (cases r) (auto simp: memstat_mark_resident_def Let_def)
  show "ms_inv (memstat_mark_unmapped ms va)"
    using assms f None mark_entry(1) [OF assms, of va _ ms1]
    by (cases r) (auto simp: memstat_mark_unmapped_def Let_def)
  show "ms_inv (memstat_mark_swapped ms va slot)"
    using assms f None mark_entry(1) [OF assms, of va _ ms1]
    by (cases r) (auto simp: memstat_mark_swapped_def Let_def)
qed

lemma mark_resident_entry:
  assumes "ms_inv ms" "entry_of ms (ucast va) \<noteq> None \<or> (\<exists>p \<in> set (ms_pages ms). \<not> live p)"
  shows "entry_of (memstat_mark_resident ms va seq) w =
     (if w = ucast va
      then Some \<lparr>ps_va = ucast va, ps_state = RESIDENT, ps_dirty = False, ps_seq = seq, ps_slot = -1\<rparr>
      else entry_of ms w)"
proof -
  obtain i ms1 where f: "memstat_find_index ms va = (Some i, ms1)" using find_index_room [OF assms] .
  let ?g = "\<lambda>p. p\<lparr>ps_state := RESIDENT, ps_seq := seq, ps_dirty := False, ps_slot := -1\<rparr>"
  let ?ms2 = "if ps_state (ms_pages ms1 ! i) \<noteq> RESIDENT
              then ms1\<lparr>num_resident_pages := num_resident_pages ms1 + 1\<rparr> else ms1"
  have "memstat_mark_resident ms va seq = upd_page i ?g ?ms2" using f by (simp add: memstat_mark_resident_def)
  then show ?thesis using mark_entry(2) [OF assms(1) f, of ?ms2 ?g _ w] by (simp add: live_def)
qed

lemma mark_unmapped_entry:
  assumes "ms_inv ms"
  shows "entry_of (memstat_mark_unmapped ms va) w = (if w = ucast va then None else entry_of ms w)"
proof (cases "memstat_find_index ms va")
  case (Pair r ms1)
  show ?thesis
  proof (cases r)
    case None
    then show ?thesis using find_index_spec [OF assms Pair] Pair by (simp add: memstat_mark_unmapped_def)
  next
    case (Some i)
    let ?g = "\<lambda>p. p\<lparr>ps_state := UNMAPPED, ps_slot := -1\<rparr>"
    let ?ms2 = "if ps_state (ms_pages ms1 ! i) = RESIDENT \<and> num_resident_pages ms1 > 0
                then ms1\<lparr>num_resident_pages := num_resident_pages ms1 - 1\<rparr> else ms1"
    have "memstat_mark_unmapped ms va = upd_page i ?g ?ms2" using Pair Some by (simp add: memstat_mark_unmapped_def)
    then show ?thesis using mark_entry(2) [OF assms Pair [unfolded Some], of ?ms2 ?g _ w] by (simp add: live_def)
  qed
qed

lemma mark_swapped_entry:
  assumes "ms_inv ms" "entry_of ms (ucast va) = Some p"
  shows "entry_of (memstat_mark_swapped ms va slot) w =
     (if w = ucast va then Some (p\<lparr>ps_state := SWAPPED, ps_slot := slot\<rparr>) else entry_of ms w)"
proof -
  obtain i ms1 where f: "memstat_find_index ms va = (Some i, ms1)" using find_index_room [OF assms(1)] assms(2) by blast
  let ?g = "\<lambda>p. p\<lparr>ps_state := SWAPPED, ps_slot := slot\<rparr>"
  let ?ms2 = "if ps_state (ms_pages ms1 ! i) = RESIDENT \<and> num_resident_pages ms1 > 0
              then ms1\<lparr>num_resident_pages := num_resident_pages ms1 - 1\<rparr> else ms1"
  have "p = ms_pages ms ! i" using find_index_spec [OF assms(1) f] assms(2) by (simp split: if_splits)
  moreover have "ps_va p = ucast va" using assms entry_of_Some_iff by blast
  ultimately have "?g ((ms_pages ms ! i)\<lparr>ps_va := ucast va\<rparr>) = ?g p" by (cases p) simp
  moreover have "memstat_mark_swapped ms va slot = upd_page i ?g ?ms2" using f by (simp add: memstat_mark_swapped_def)
  ultimately show ?thesis using mark_entry(2) [OF assms(1) f, of ?ms2 ?g _ w] by (simp add: live_def)
qed

section \<open>The resident counter\<close>

definition resident_count :: "proc_mem_stat \<Rightarrow> nat" where
  "resident_count ms = count_if (\<lambda>p. ps_state p = RESIDENT) (ms_pages ms)"

lemma resident_count_update:
  assumes "i < length (ms_pages ms)" "ms_pages ms' = (ms_pages ms)[i := q]"
  shows "resident_count ms' + (if ps_state (ms_pages ms ! i) = RESIDENT then 1 else 0) =
         resident_count ms + (if ps_state q = RESIDENT then 1 else 0)"
  unfolding resident_count_def assms(2) by (rule count_if_update [OF assms(1)])

lemma find_index_pages:
  assumes "ms_inv ms" "memstat_find_index ms va = (Some i, ms1)"
  shows "i < length (ms_pages ms)" "length (ms_pages ms1) = length (ms_pages ms)"
    and "ps_state (ms_pages ms1 ! i) = ps_state (ms_pages ms ! i)"
    and "resident_count ms1 = resident_count ms" "num_resident_pages ms1 = num_resident_pages ms"
proof -
  note sp = find_index_spec [OF assms, simplified]
  show i: "i < length (ms_pages ms)" using sp ms_inv_length [OF assms(1)] by (auto simp: set_ok_def)
  show "length (ms_pages ms1) = length (ms_pages ms)" "num_resident_pages ms1 = num_resident_pages ms"
    using sp by auto
  show "ps_state (ms_pages ms1 ! i) = ps_state (ms_pages ms ! i)" using sp i by auto
  show "resident_count ms1 = resident_count ms"
    using resident_count_update [OF i, of ms1 "(ms_pages ms ! i)\<lparr>ps_va := ucast va\<rparr>"] sp by (auto split: if_splits)
qed

lemma count_upd_page:
  assumes "ms_inv ms" "memstat_find_index ms va = (Some i, ms1)" "ms_pages ms2 = ms_pages ms1"
  shows "int (resident_count (upd_page i g ms2)) = int (resident_count ms)
       - (if ps_state (ms_pages ms1 ! i) = RESIDENT then 1 else 0)
       + (if ps_state (g (ms_pages ms1 ! i)) = RESIDENT then 1 else 0)"
    and "ps_state (ms_pages ms1 ! i) = RESIDENT \<Longrightarrow> 0 < resident_count ms"
    and "num_resident_pages (upd_page i g ms2) = num_resident_pages ms2"
proof -
  note fp = find_index_pages [OF assms(1,2)]
  have i: "i < length (ms_pages ms2)" using fp(1,2) assms(3) by simp
  have c: "resident_count ms2 = resident_count ms1" by (simp add: resident_count_def assms(3))
  show "int (resident_count (upd_page i g ms2)) = int (resident_count ms)
       - (if ps_state (ms_pages ms1 ! i) = RESIDENT then 1 else 0)
       + (if ps_state (g (ms_pages ms1 ! i)) = RESIDENT then 1 else 0)"
    using resident_count_update [OF i, of "upd_page i g ms2" "g (ms_pages ms2 ! i)"] fp(4) c assms(3)
    by (auto simp: upd_page_def split: if_splits)
  show "ps_state (ms_pages ms1 ! i) = RESIDENT \<Longrightarrow> 0 < resident_count ms"
    using fp(1,3) count_if_pos [of i "ms_pages ms" "\<lambda>p. ps_state p = RESIDENT"] by (simp add: resident_count_def)
  show "num_resident_pages (upd_page i g ms2) = num_resident_pages ms2" by (simp add: upd_page_def)
qed

lemma mark_count:
  assumes "ms_inv ms" "num_resident_pages ms = int (resident_count ms)"
  shows "num_resident_pages (memstat_mark_resident ms va seq) = int (resident_count (memstat_mark_resident ms va seq))"
    and "num_resident_pages (memstat_mark_unmapped ms va) = int (resident_count (memstat_mark_unmapped ms va))"
    and "num_resident_pages (memstat_mark_swapped ms va slot) = int (resident_count (memstat_mark_swapped ms va slot))"
proof (atomize (full), cases "memstat_find_index ms va")
  case (Pair r ms1)
  show "num_resident_pages (memstat_mark_resident ms va seq) = int (resident_count (memstat_mark_resident ms va seq)) \<and>
    num_resident_pages (memstat_mark_unmapped ms va) = int (resident_count (memstat_mark_unmapped ms va)) \<and>
    num_resident_pages (memstat_mark_swapped ms va slot) = int (resident_count (memstat_mark_swapped ms va slot))"
  proof (cases r)
    case None
    then have "ms1 = ms" using find_index_spec [OF assms(1) Pair] by simp
    then show ?thesis using Pair None assms(2) by (simp add: mark_defs)
  next
    case (Some i)
    note f = Pair [unfolded Some]
    have n: "num_resident_pages ms1 = int (resident_count ms)" using find_index_pages(5) [OF assms(1) f] assms(2) by simp
    show ?thesis
      using n count_upd_page(2) [OF assms(1) f refl]
      by (simp add: mark_defs f Let_def count_upd_page [OF assms(1) f])
  qed
qed

section \<open>Properties\<close>

text \<open>
  C23: the FIFO selection returns -1 exactly when no page is resident; otherwise it returns the
  resident entry with the smallest (unsigned) sequence number. Among entries with the same sequence
  number it returns the one with the smallest address; only entries that agree in both are told
  apart by their position in the table, and then the first is returned.
\<close>

theorem fifo_victim:
  assumes "length (ms_pages ms) = MAX_PAGES_INFO"
  shows "oldest (\<lambda>p. ps_state p = RESIDENT) (ms_pages ms) (select_victim_fifo_index ms)"
  by (rule fifo_oldest [OF assms])

text \<open>
  C24: the clean-first selection reports a clean choice exactly when some resident page is clean,
  and returns the oldest clean resident page then, the oldest resident page otherwise, and -1
  exactly when no page is resident.
\<close>

theorem cleanfifo_victim:
  assumes "length (ms_pages ms) = MAX_PAGES_INFO" "select_victim_cleanfifo_index ms = (r, chose_clean)"
  shows "(chose_clean \<longleftrightarrow> (\<exists>p \<in> set (ms_pages ms). ps_state p = RESIDENT \<and> \<not> ps_dirty p)) \<and>
     oldest (\<lambda>p. ps_state p = RESIDENT \<and> (chose_clean \<longrightarrow> \<not> ps_dirty p)) (ms_pages ms) r"
  using cleanfifo_oldest [OF assms(1)] assms(2) by simp

text \<open>
  C22: seen as a map from page addresses to live entries, the metadata table implements its three
  updates: \<open>memstat_mark_resident\<close> binds the address to a clean resident entry (when the address
  is live or an entry is free), \<open>memstat_mark_unmapped\<close> removes it, \<open>memstat_mark_swapped\<close> turns a
  live entry into a swapped one with its slot. No other address is affected, the well-formedness
  of the table is kept, and so is the agreement of \<open>num_resident_pages\<close> with the table.
\<close>

theorem memstat_refines_map:
  assumes "ms_inv ms" "num_resident_pages ms = int (resident_count ms)"
    and "entry_of ms (ucast va) = Some p \<or> (\<exists>q \<in> set (ms_pages ms). ps_state q = UNMAPPED)"
  shows "entry_of (memstat_mark_resident ms va seq) = (entry_of ms)(ucast va \<mapsto>
        \<lparr>ps_va = ucast va, ps_state = RESIDENT, ps_dirty = False, ps_seq = seq, ps_slot = -1\<rparr>) \<and>
     entry_of (memstat_mark_unmapped ms va) = (entry_of ms)(ucast va := None) \<and>
     (entry_of ms (ucast va) = Some e \<longrightarrow> entry_of (memstat_mark_swapped ms va slot) =
        (entry_of ms)(ucast va \<mapsto> e\<lparr>ps_state := SWAPPED, ps_slot := slot\<rparr>)) \<and>
     list_all (\<lambda>ms'. ms_inv ms' \<and> num_resident_pages ms' = int (resident_count ms'))
       [memstat_mark_resident ms va seq, memstat_mark_unmapped ms va, memstat_mark_swapped ms va slot]"
proof -
  have room: "entry_of ms (ucast va) \<noteq> None \<or> (\<exists>q \<in> set (ms_pages ms). \<not> live q)"
    using assms(3) by (auto simp: live_def)
  show ?thesis
    using mark_unmapped_entry [OF assms(1)] mark_swapped_entry [OF assms(1)] mark_inv [OF assms(1)]
      mark_count [OF assms(1,2)]
    by (simp add: fun_eq_iff mark_resident_entry [OF assms(1) room])
qed

section \<open>Witnesses\<close>

text \<open>A fresh table, as \<open>allocproc\<close> leaves it.\<close>

definition fresh_memstat :: proc_mem_stat where
  "fresh_memstat = \<lparr>ms_pid = 1, num_pages_total = 0, num_resident_pages = 0, ms_num_swapped_pages = 0,
     next_fifo_seq = 0, ms_pages = replicate MAX_PAGES_INFO
       \<lparr>ps_va = 0, ps_state = UNMAPPED, ps_dirty = False, ps_seq = 0, ps_slot = -1\<rparr>\<rparr>"

lemma fresh_memstat_inv:
  "ms_inv fresh_memstat" "resident_count fresh_memstat = 0" "length (ms_pages fresh_memstat) = MAX_PAGES_INFO"
  by (simp_all add: ms_inv_def fresh_memstat_def live_def resident_count_def)

text \<open>Three resident pages, two of the same age; the one at \<open>0x2000\<close> is dirty.\<close>

definition entry_in :: "u32 \<Rightarrow> bool \<Rightarrow> u32 \<Rightarrow> page_stat" where
  "entry_in va d seq = \<lparr>ps_va = va, ps_state = RESIDENT, ps_dirty = d, ps_seq = seq, ps_slot = -1\<rparr>"

definition three_resident :: proc_mem_stat where
  "three_resident = fresh_memstat\<lparr>num_resident_pages := 3, ms_pages :=
     [entry_in 0x3000 False 1, entry_in 0x1000 False 2, entry_in 0x2000 True 1] @
     replicate 125 \<lparr>ps_va = 0, ps_state = UNMAPPED, ps_dirty = False, ps_seq = 0, ps_slot = -1\<rparr>\<rparr>"

lemma three_entries:
  "length (ms_pages three_resident) = MAX_PAGES_INFO"
  "ms_pages three_resident ! 0 = entry_in 0x3000 False 1" "ms_pages three_resident ! 1 = entry_in 0x1000 False 2"
  "ms_pages three_resident ! 2 = entry_in 0x2000 True 1" "3 \<le> i \<Longrightarrow> i < MAX_PAGES_INFO \<Longrightarrow> ps_state (ms_pages three_resident ! i) = UNMAPPED"
  by (simp_all add: three_resident_def nth_append)

lemma below_three: "i < 3 \<or> 3 \<le> (i :: nat)" "i < 3 \<Longrightarrow> i = 0 \<or> i = 1 \<or> i = (2 :: nat)"
  by linarith+

lemma three_resident_inv: "ms_inv three_resident" "num_resident_pages three_resident = int (resident_count three_resident)"
proof -
  have "ps_va (ms_pages three_resident ! j) \<noteq> ps_va (ms_pages three_resident ! i)"
    if "i < MAX_PAGES_INFO" "j < i" "live (ms_pages three_resident ! i)" for i j
  proof -
    have "i < 3" using that three_entries(5) [of i] below_three(1) [of i] by (auto simp: live_def)
    then show ?thesis using that(2) below_three(2) [of i] below_three(2) [of j] three_entries(2-4) by (auto simp: entry_in_def)
  qed
  then show "ms_inv three_resident" using three_entries(1) by (simp add: ms_inv_def)
  show "num_resident_pages three_resident = int (resident_count three_resident)"
    by (simp add: three_resident_def resident_count_def entry_in_def)
qed

lemma oldest_least: "oldest Q ps (Some i) \<Longrightarrow> j < length ps \<Longrightarrow> Q (ps ! j) \<Longrightarrow> \<not> older (ps ! j) (ps ! i)"
  by (simp add: oldest_def)

lemma three_oldest:
  assumes "oldest Q (ms_pages three_resident) r" "\<And>p. Q p \<Longrightarrow> ps_state p = RESIDENT"
  shows "Q (entry_in 0x2000 True 1) \<Longrightarrow> r = Some 2"
    "\<not> Q (entry_in 0x2000 True 1) \<Longrightarrow> Q (entry_in 0x3000 False 1) \<Longrightarrow> r = Some 0"
proof -
  let ?ps = "ms_pages three_resident"
  have mem: "entry_in 0x2000 True 1 \<in> set ?ps" "entry_in 0x3000 False 1 \<in> set ?ps"
    by (simp_all add: three_resident_def)
  have i3: "i = 0 \<or> i = 1 \<or> i = 2" if "r = Some i" for i
  proof -
    have "i < MAX_PAGES_INFO" "ps_state (?ps ! i) = RESIDENT"
      using assms that three_entries(1) by (auto simp: oldest_def)
    then show ?thesis using three_entries(5) [of i] below_three [of i] by auto
  qed
  show "r = Some 2" if q: "Q (entry_in 0x2000 True 1)"
  proof -
    obtain i where r: "r = Some i" using assms(1) mem(1) q by (cases r) (auto simp: oldest_def)
    have "\<not> older (?ps ! 2) (?ps ! i)" using oldest_least [OF assms(1) [unfolded r], of 2] q three_entries(1,4) by simp
    then show ?thesis using i3 [OF r] r three_entries(2-4) by (auto simp: older_def entry_in_def)
  qed
  show "r = Some 0" if q: "\<not> Q (entry_in 0x2000 True 1)" "Q (entry_in 0x3000 False 1)"
  proof -
    obtain i where r: "r = Some i" using assms(1) mem(2) q by (cases r) (auto simp: oldest_def)
    have "\<not> older (?ps ! 0) (?ps ! i)" "Q (?ps ! i)"
      using oldest_least [OF assms(1) [unfolded r], of 0] q three_entries(1,2) assms(1) r by (simp_all add: oldest_def)
    then show ?thesis using q(1) i3 [OF r] r three_entries(2-4) by (auto simp: older_def entry_in_def)
  qed
qed

text \<open>Of the two oldest pages the one with the smaller address is chosen, although its entry comes last.\<close>

theorem fifo_victim_witness: "select_victim_fifo_index three_resident = Some 2"
  using three_oldest(1) [OF fifo_victim [OF three_entries(1)]] by (simp add: entry_in_def)

text \<open>The clean-first selection passes it over, since it is dirty.\<close>

theorem cleanfifo_victim_witness: "select_victim_cleanfifo_index three_resident = (Some 0, True)"
proof -
  obtain r c where s: "select_victim_cleanfifo_index three_resident = (r, c)" by fastforce
  note v = cleanfifo_victim [OF three_entries(1) s]
  have "c" using v by (auto simp: three_resident_def entry_in_def)
  moreover have "r = Some 0"
    using three_oldest(2) [OF conjunct2 [OF v]] \<open>c\<close> by (simp add: entry_in_def)
  ultimately show ?thesis using s by simp
qed

theorem memstat_refines_map_witness:
  "entry_of (memstat_mark_swapped three_resident 0x2000 5) 0x2000 = Some \<lparr>ps_va = 0x2000, ps_state = SWAPPED, ps_dirty = True, ps_seq = 1, ps_slot = 5\<rparr> \<and>
   entry_of (memstat_mark_swapped three_resident 0x2000 5) 0x1000 = Some (entry_in 0x1000 False 2) \<and>
   entry_of (memstat_mark_unmapped three_resident 0x2000) 0x2000 = None \<and>
   num_resident_pages (memstat_mark_resident three_resident 0x2000 7) = int (resident_count (memstat_mark_resident three_resident 0x2000 7))"
proof -
  have e: "entry_of three_resident 0x2000 = Some (entry_in 0x2000 True 1)" "entry_of three_resident 0x1000 = Some (entry_in 0x1000 False 2)"
    by (simp_all add: entry_of_def three_resident_def entry_in_def live_def)
  have u: "(ucast (0x2000 :: u64) :: u32) = 0x2000" by simp
  note m = memstat_refines_map [OF three_resident_inv, of "0x2000" "entry_in 0x2000 True 1" 7 "entry_in 0x2000 True 1" 5, unfolded u]
  show ?thesis using m e by (simp add: entry_in_def)
qed

end
