(* ===== verification/Kstate.thy ===== *)
theory Kstate
  imports Memstat Fsrw Pagetable
begin

text \<open>
  The state of the kernel: physical memory, the file system, the file table, pipes, the process
  table and the console log, with the small operations of \<open>proc.c\<close> that other components use.

  A \<open>struct proc *\<close> is an index into the process table, a \<open>struct file *\<close> an index into the file
  table, a \<open>struct pipe *\<close> the physical address of its page. The spinlocks are not part of this
  state: every operation here is one that the code runs with the locks it needs, and \<open>None\<close> is a
  panic or a wait that nothing can end (see \<open>Fs\<close>). The lines the kernel prints are kept as values
  of \<open>event\<close>; C \<open>int\<close> counters are unbounded.
\<close>

section \<open>Files and pipes\<close>

abbreviation NOFILE :: nat where "NOFILE \<equiv> 16"
abbreviation NFILE :: nat where "NFILE \<equiv> 100"
abbreviation NDEV :: int where "NDEV \<equiv> 10"
abbreviation PIPESIZE :: nat where "PIPESIZE \<equiv> 512"
abbreviation MAX_SWAP_PAGES :: nat where "MAX_SWAP_PAGES \<equiv> 1024"

datatype fd_type = FD_NONE | FD_PIPE | FD_INODE | FD_DEVICE

record kfile =
  f_type :: fd_type
  f_ref :: int
  f_readable :: bool
  f_writable :: bool
  f_pipe :: u64
  f_ip :: nat
  f_off :: u32
  f_major :: int

record pipe =
  pi_data :: "u8 list"
  nread :: u32
  nwrite :: u32
  readopen :: bool
  writeopen :: bool

section \<open>Processes\<close>

datatype procstate = UNUSED | USED | SLEEPING | RUNNABLE | RUNNING | ZOMBIE

text \<open>The addresses processes sleep on.\<close>

datatype chan =
    NoChan
  | Ticks
  | ProcChan nat
  | PipeRead u64
  | PipeWrite u64
  | ConsRead

record swap_entry =
  sw_va :: u32
  sw_slot :: int
  sw_used :: bool

text \<open>
  The address ranges and file ranges that \<open>exec\<close> records for lazy loading, and the paging counters:
  both are fields of \<open>struct proc\<close>, grouped here.
\<close>

record seginfo =
  text_start :: u64
  text_end :: u64
  data_start :: u64
  data_end :: u64
  heap_start :: u64
  stack_top :: u64
  text_off :: u32
  text_filesz :: u32
  text_memsz :: u32
  text_flags :: u32
  data_off :: u32
  data_filesz :: u32
  data_memsz :: u32
  data_flags :: u32

record vmcount =
  pagefault_count :: int
  resident_pages :: int
  swapped_pages :: int
  swapin_count :: int
  swapout_count :: int

record proc =
  p_state :: procstate
  p_chan :: chan
  p_killed :: bool
  p_xstate :: int
  p_pid :: int
  p_parent :: "nat option"
  p_kstack :: u64
  p_sz :: u64
  p_pagetable :: u64
  p_trapframe :: u64
  p_ofile :: "nat option list"
  p_cwd :: "nat option"
  p_name :: "u8 list"
  p_swapfile :: "nat option"
  p_swap_table :: "swap_entry list"
  p_num_swapped_pages :: int
  p_memstat :: proc_mem_stat
  p_seg :: seginfo
  p_cnt :: vmcount
  exec_ip :: "nat option"
  vmtrace :: bool

section \<open>Console log\<close>

datatype access = Write | Read | Exec

datatype fault_cause = Guard | Swap | ExecSeg | Stack | Heap | Invalid

datatype (plugins only: code) event =
    MEMFULL int
  | KILL_swap_exhausted int
  | VICTIM int u64 u32 string
  | EVICT int u64 bool
  | SWAPFULL int
  | SWAPOUT int u64 int
  | DISCARD int u64
  | SWAPIN int u64 int
  | PAGEFAULT int u64 access fault_cause
  | KILL_invalid_access int u64 access
  | KILL_guard_page int u64
  | KILL_write_to_text int u64
  | ALLOC int u64
  | LOADEXEC int u64
  | RESIDENT_page int u64 u32
  | INIT_LAZYMAP int "u64 \<times> u64" "u64 \<times> u64" u64 u64
  | SWAPFILE_created int
  | SWAPFILE_create_failed int
  | SWAPCLEANUP int int
  | UNEXPECTED_scause int u64 u64 u64
  | UNEXPECTED_irq nat
  | UNKNOWN_syscall int "u8 list" int
  | MEMSTAT_report int "u8 list" int int u32 int int int
  | PROCDUMP "(int \<times> procstate \<times> u8 list) list"

section \<open>The console device\<close>

abbreviation INPUT_BUF_SIZE :: nat where "INPUT_BUF_SIZE \<equiv> 128"

text \<open>The input buffer with its read, write and edit index, and the characters sent to the UART.\<close>

record console =
  cons_buf :: "u8 list"
  cons_r :: u32
  cons_w :: u32
  cons_e :: u32
  uart_out :: "u8 list"

section \<open>The kernel\<close>

record kernel =
  ph :: phys
  fs :: fsys
  ftable :: "kfile list"
  pipes :: "u64 \<Rightarrow> pipe option"
  procs :: "proc list"
  cur :: nat
  nextpid :: int
  initproc :: nat
  ticks :: u32
  cons :: console
  klog :: "event list"

abbreviation myproc :: "kernel \<Rightarrow> proc" where
  "myproc k \<equiv> procs k ! cur k"

definition upd_proc :: "nat \<Rightarrow> (proc \<Rightarrow> proc) \<Rightarrow> kernel \<Rightarrow> kernel" where
  "upd_proc p f k = k\<lparr>procs := (procs k)[p := f (procs k ! p)]\<rparr>"

definition upd_file :: "nat \<Rightarrow> (kfile \<Rightarrow> kfile) \<Rightarrow> kernel \<Rightarrow> kernel" where
  "upd_file f g k = k\<lparr>ftable := (ftable k)[f := g (ftable k ! f)]\<rparr>"

definition printk :: "event \<Rightarrow> kernel \<Rightarrow> kernel" where
  "printk ev k = k\<lparr>klog := klog k @ [ev]\<rparr>"

text \<open>Running an operation of the file system or of physical memory.\<close>

definition with_fs :: "(fsys \<Rightarrow> fsys option) \<Rightarrow> kernel \<Rightarrow> kernel option" where
  "with_fs f k = map_option (\<lambda>s. k\<lparr>fs := s\<rparr>) (f (fs k))"

definition with_fs_ret :: "(fsys \<Rightarrow> ('a \<times> fsys) option) \<Rightarrow> kernel \<Rightarrow> ('a \<times> kernel) option" where
  "with_fs_ret f k = map_option (\<lambda>(r, s). (r, k\<lparr>fs := s\<rparr>)) (f (fs k))"

definition with_ph :: "(phys \<Rightarrow> phys option) \<Rightarrow> kernel \<Rightarrow> kernel option" where
  "with_ph f k = map_option (\<lambda>m. k\<lparr>ph := m\<rparr>) (f (ph k))"

definition with_ph_ret :: "(phys \<Rightarrow> ('a \<times> phys) option) \<Rightarrow> kernel \<Rightarrow> ('a \<times> kernel) option" where
  "with_ph_ret f k = map_option (\<lambda>(r, m). (r, k\<lparr>ph := m\<rparr>)) (f (ph k))"

definition set_mem :: "memory \<Rightarrow> kernel \<Rightarrow> kernel" where
  "set_mem m k = k\<lparr>ph := (ph k)\<lparr>mem := m\<rparr>\<rparr>"

definition k_alloc :: "kernel \<Rightarrow> u64 \<times> kernel" where
  "k_alloc k = (case kalloc (ph k) of (pa, m) \<Rightarrow> (pa, k\<lparr>ph := m\<rparr>))"

section \<open>Process state shared by the components\<close>

definition setkilled :: "nat \<Rightarrow> kernel \<Rightarrow> kernel" where
  "setkilled p k = upd_proc p (\<lambda>p. p\<lparr>p_killed := True\<rparr>) k"

definition wakeup :: "chan \<Rightarrow> kernel \<Rightarrow> kernel" where
  "wakeup ch k = k\<lparr>procs := map (\<lambda>i.
      let p = procs k ! i
      in if i \<noteq> cur k \<and> p_state p = SLEEPING \<and> p_chan p = ch then p\<lparr>p_state := RUNNABLE\<rparr> else p)
      [0..<length (procs k)]\<rparr>"

text \<open>\<open>sleep\<close> up to the switch to the scheduler, and what it does once it runs again.\<close>

definition sleep :: "chan \<Rightarrow> kernel \<Rightarrow> kernel" where
  "sleep ch k = upd_proc (cur k) (\<lambda>p. p\<lparr>p_chan := ch, p_state := SLEEPING\<rparr>) k"

definition wake_return :: "kernel \<Rightarrow> kernel" where
  "wake_return k = upd_proc (cur k) (\<lambda>p. p\<lparr>p_chan := NoChan\<rparr>) k"

lemma upd_proc_simps [simp]:
  "ph (upd_proc p f k) = ph k" "fs (upd_proc p f k) = fs k" "ftable (upd_proc p f k) = ftable k"
  "pipes (upd_proc p f k) = pipes k" "cur (upd_proc p f k) = cur k" "klog (upd_proc p f k) = klog k"
  "length (procs (upd_proc p f k)) = length (procs k)"
  "nextpid (upd_proc p f k) = nextpid k" "initproc (upd_proc p f k) = initproc k" "ticks (upd_proc p f k) = ticks k" "cons (upd_proc p f k) = cons k"
  "p < length (procs k) \<Longrightarrow> procs (upd_proc p f k) ! p = f (procs k ! p)"
  "p \<noteq> q \<Longrightarrow> procs (upd_proc p f k) ! q = procs k ! q"
  by (simp_all add: upd_proc_def)

lemma upd_file_simps [simp]:
  "ph (upd_file f g k) = ph k" "fs (upd_file f g k) = fs k" "procs (upd_file f g k) = procs k"
  "pipes (upd_file f g k) = pipes k" "cur (upd_file f g k) = cur k" "klog (upd_file f g k) = klog k"
  "length (ftable (upd_file f g k)) = length (ftable k)"
  "nextpid (upd_file f g k) = nextpid k" "initproc (upd_file f g k) = initproc k" "ticks (upd_file f g k) = ticks k" "cons (upd_file f g k) = cons k"
  "f < length (ftable k) \<Longrightarrow> ftable (upd_file f g k) ! f = g (ftable k ! f)"
  "f \<noteq> h \<Longrightarrow> ftable (upd_file f g k) ! h = ftable k ! h"
  by (simp_all add: upd_file_def)

lemma printk_simps [simp]:
  "ph (printk ev k) = ph k" "fs (printk ev k) = fs k" "ftable (printk ev k) = ftable k"
  "pipes (printk ev k) = pipes k" "cur (printk ev k) = cur k" "procs (printk ev k) = procs k"
  "nextpid (printk ev k) = nextpid k" "initproc (printk ev k) = initproc k" "ticks (printk ev k) = ticks k" "cons (printk ev k) = cons k"
  "klog (printk ev k) = klog k @ [ev]"
  by (simp_all add: printk_def)

lemma wakeup_nth:
  "i < length (procs k) \<Longrightarrow> procs (wakeup ch k) ! i =
     (if i \<noteq> cur k \<and> p_state (procs k ! i) = SLEEPING \<and> p_chan (procs k ! i) = ch
      then (procs k ! i)\<lparr>p_state := RUNNABLE\<rparr> else procs k ! i)"
  by (simp add: wakeup_def Let_def)

lemma wakeup_simps [simp]:
  "ph (wakeup ch k) = ph k" "fs (wakeup ch k) = fs k" "ftable (wakeup ch k) = ftable k"
  "pipes (wakeup ch k) = pipes k" "cur (wakeup ch k) = cur k" "length (procs (wakeup ch k)) = length (procs k)"
  "nextpid (wakeup ch k) = nextpid k" "initproc (wakeup ch k) = initproc k" "ticks (wakeup ch k) = ticks k" "cons (wakeup ch k) = cons k"
  "klog (wakeup ch k) = klog k"
  by (simp_all add: wakeup_def)

end
