(* ===== verification/Filetab.thy ===== *)
theory Filetab
  imports Kstate
begin

text \<open>
  The file table of \<open>file.c\<close> (allocation, reference counts, closing) and \<open>pipeclose\<close> of \<open>pipe.c\<close>.
  A \<open>pipe\<close> is stored at the address of the page that holds it; an operation on an address that
  holds none is undefined behaviour, \<open>None\<close> here.
\<close>

definition filealloc :: "kernel \<Rightarrow> nat option \<times> kernel" where
  "filealloc k =
     (case first_idx (\<lambda>f. f_ref f = 0) (ftable k) of
        Some f \<Rightarrow> (Some f, upd_file f (\<lambda>f. f\<lparr>f_ref := 1\<rparr>) k)
      | None \<Rightarrow> (None, k))"

definition filedup :: "nat \<Rightarrow> kernel \<Rightarrow> kernel option" where
  "filedup f k =
     (if f_ref (ftable k ! f) < 1 then None
      else Some (upd_file f (\<lambda>f. f\<lparr>f_ref := f_ref f + 1\<rparr>) k))"

definition pipeclose :: "u64 \<Rightarrow> bool \<Rightarrow> kernel \<Rightarrow> kernel option" where
  "pipeclose pi writable k = do {
     p \<leftarrow> pipes k pi;
     let (p1, k1) = (if writable then (p\<lparr>writeopen := False\<rparr>, wakeup (PipeRead pi) k)
                     else (p\<lparr>readopen := False\<rparr>, wakeup (PipeWrite pi) k));
     if \<not> readopen p1 \<and> \<not> writeopen p1
     then with_ph (\<lambda>m. kfree m pi) (k1\<lparr>pipes := (pipes k1)(pi := None)\<rparr>)
     else Some (k1\<lparr>pipes := (pipes k1)(pi := Some p1)\<rparr>)
   }"

definition fileclose :: "nat \<Rightarrow> kernel \<Rightarrow> kernel option" where
  "fileclose f k =
     (let ff = ftable k ! f
      in if f_ref ff < 1 then None
         else if f_ref ff - 1 > 0 then Some (upd_file f (\<lambda>f. f\<lparr>f_ref := f_ref f - 1\<rparr>) k)
         else let k1 = upd_file f (\<lambda>f. f\<lparr>f_ref := 0, f_type := FD_NONE\<rparr>) k
              in if f_type ff = FD_PIPE then pipeclose (f_pipe ff) (f_writable ff) k1
                 else if f_type ff = FD_INODE \<or> f_type ff = FD_DEVICE
                 then do {
                   k2 \<leftarrow> with_fs begin_op k1;
                   k3 \<leftarrow> with_fs (\<lambda>s. iput s (f_ip ff)) k2;
                   Some (k3\<lparr>fs := end_op (fs k3)\<rparr>)
                 }
                 else Some k1)"

end
