(* ===== verification/Swap.thy ===== *)
theory Swap
  imports Filetab
begin

text \<open>
  The per-process swap files of \<open>swap.c\<close>. A page copied to or from a swap file moves between the
  file and kernel memory (\<open>user_src\<close> and \<open>user_dst\<close> 0), so \<open>writei\<close> and \<open>readi\<close> run on physical
  memory with \<open>mem_in\<close> and \<open>mem_out\<close>.
\<close>

section \<open>Creating the file\<close>

abbreviation dot :: "u8 list" where "dot \<equiv> [46]"
abbreviation dotdot :: "u8 list" where "dotdot \<equiv> [46, 46]"

definition kcreate :: "fsys \<Rightarrow> nat \<Rightarrow> u8 list \<Rightarrow> u16 \<Rightarrow> u16 \<Rightarrow> u16 \<Rightarrow> (nat option \<times> fsys) option" where
  "kcreate s cwd path type major minor = do {
     (r, s1) \<leftarrow> nameiparent s cwd path;
     (case r of
        None \<Rightarrow> Some (None, s1)
      | Some (dp, name) \<Rightarrow> do {
          s2 \<leftarrow> ilock s1 dp;
          (r, s3) \<leftarrow> dirlookup s2 dp name;
          (case r of
             Some (ip, _) \<Rightarrow> do {
               s4 \<leftarrow> iunlockput s3 dp;
               s5 \<leftarrow> ilock s4 ip;
               if type = T_FILE \<and> (i_type (itable s5 ! ip) = T_FILE \<or> i_type (itable s5 ! ip) = T_DEVICE)
               then Some (Some ip, s5)
               else do { s6 \<leftarrow> iunlockput s5 ip; Some (None, s6) }
             }
           | None \<Rightarrow> do {
               (r, s4) \<leftarrow> ialloc s3 (i_dev (itable s3 ! dp)) type;
               (case r of
                  None \<Rightarrow> do { s5 \<leftarrow> iunlockput s4 dp; Some (None, s5) }
                | Some ip \<Rightarrow> do {
                    s5 \<leftarrow> ilock s4 ip;
                    s6 \<leftarrow> iupdate (upd_inode ip (\<lambda>i. i\<lparr>i_major := major, i_minor := minor, i_nlink := 1\<rparr>) s5) ip;
                    (ok, s7) \<leftarrow> (if type = T_DIR
                      then do {
                        (r1, s') \<leftarrow> dirlink s6 ip dot (i_inum (itable s6 ! ip));
                        if r1 < 0 then Some (False, s')
                        else do {
                          (r2, s'') \<leftarrow> dirlink s' ip dotdot (i_inum (itable s' ! dp));
                          Some (\<not> r2 < 0, s'')
                        }
                      }
                      else Some (True, s6));
                    (ok, s8) \<leftarrow> (if ok
                      then do {
                        (r3, s') \<leftarrow> dirlink s7 dp name (i_inum (itable s7 ! ip));
                        Some (\<not> r3 < 0, s')
                      }
                      else Some (False, s7));
                    if ok
                    then do {
                      s9 \<leftarrow> (if type = T_DIR then iupdate (upd_inode dp (\<lambda>i. i\<lparr>i_nlink := i_nlink i + 1\<rparr>) s8) dp else Some s8);
                      s10 \<leftarrow> iunlockput s9 dp;
                      Some (Some ip, s10)
                    }
                    else do {
                      s9 \<leftarrow> iupdate (upd_inode ip (\<lambda>i. i\<lparr>i_nlink := 0\<rparr>) s8) ip;
                      s10 \<leftarrow> iunlockput s9 ip;
                      s11 \<leftarrow> iunlockput s10 dp;
                      Some (None, s11)
                    }
                  })
             })
        })
   }"

text \<open>The path \<open>/pgswp\<close> followed by the last five decimal digits of the process id (which is positive).\<close>

definition swapname :: "int \<Rightarrow> u8 list" where
  "swapname pid = [47, 112, 103, 115, 119, 112] @
     map (\<lambda>d. 48 + word_of_int d)
       [pid div 10000 mod 10, pid div 1000 mod 10, pid div 100 mod 10, pid div 10 mod 10, pid mod 10]"

definition kcwd :: "kernel \<Rightarrow> nat" where
  "kcwd k = (case p_cwd (myproc k) of Some c \<Rightarrow> c | None \<Rightarrow> 0)"

definition k_end_op :: "kernel \<Rightarrow> kernel" where
  "k_end_op k = k\<lparr>fs := end_op (fs k)\<rparr>"

definition swapfile_create :: "nat \<Rightarrow> kernel \<Rightarrow> (int \<times> kernel) option" where
  "swapfile_create p k =
     (if p_swapfile (procs k ! p) \<noteq> None then Some (0, k)
      else do {
        k1 \<leftarrow> with_fs begin_op k;
        (r, k2) \<leftarrow> with_fs_ret (\<lambda>s. kcreate s (kcwd k1) (swapname (p_pid (procs k1 ! p))) T_FILE 0 0) k1;
        (case r of
           None \<Rightarrow> Some (-1, k_end_op k2)
         | Some ip \<Rightarrow>
             (case filealloc k2 of
                (None, k3) \<Rightarrow> do {
                  k4 \<leftarrow> with_fs (\<lambda>s. iunlockput s ip) k3;
                  Some (-1, k_end_op k4)
                }
              | (Some f, k3) \<Rightarrow> do {
                  k4 \<leftarrow> with_fs (\<lambda>s. iunlock s ip) k3;
                  let k5 = upd_file f (\<lambda>f. f\<lparr>f_type := FD_INODE, f_ip := ip, f_off := 0, f_readable := True, f_writable := True\<rparr>) k4;
                  Some (0, k_end_op (upd_proc p (\<lambda>p. p\<lparr>p_swapfile := Some f\<rparr>) k5))
                }))
      })"

section \<open>Removing it\<close>

definition free_slot :: swap_entry where
  "free_slot = \<lparr>sw_va = 0, sw_slot = -1, sw_used = False\<rparr>"

text \<open>The unlink that \<open>swapfile_cleanup\<close> performs.\<close>

definition swap_unlink :: "fsys \<Rightarrow> nat \<Rightarrow> u8 list \<Rightarrow> fsys option" where
  "swap_unlink s cwd path = do {
     (r, s1) \<leftarrow> nameiparent s cwd path;
     (case r of
        None \<Rightarrow> Some s1
      | Some (dp, nm) \<Rightarrow> do {
          s2 \<leftarrow> ilock s1 dp;
          (r, s3) \<leftarrow> dirlookup s2 dp nm;
          s4 \<leftarrow> (case r of
            None \<Rightarrow> Some s3
          | Some (ip, off) \<Rightarrow> do {
              s' \<leftarrow> ilock s3 ip;
              (_, s'', _) \<leftarrow> writei local_in s' (replicate 16 0) dp 0 off 16;
              s''' \<leftarrow> iupdate (upd_inode ip (\<lambda>i. i\<lparr>i_nlink := i_nlink i - 1\<rparr>) s'') ip;
              iunlockput s''' ip
            });
          iunlockput s4 dp
        })
   }"

definition swapfile_cleanup :: "nat \<Rightarrow> kernel \<Rightarrow> (int \<times> kernel) option" where
  "swapfile_cleanup p k =
     (let freed = int (count_if sw_used (p_swap_table (procs k ! p)));
          k1 = upd_proc p (\<lambda>p. p\<lparr>p_swap_table := map (\<lambda>_. free_slot) (p_swap_table p), p_num_swapped_pages := 0\<rparr>) k
      in case p_swapfile (procs k1 ! p) of
           None \<Rightarrow> Some (freed, k1)
         | Some f \<Rightarrow> do {
             k2 \<leftarrow> with_fs begin_op k1;
             k3 \<leftarrow> with_fs (\<lambda>s. swap_unlink s (kcwd k2) (swapname (p_pid (procs k2 ! p)))) k2;
             k4 \<leftarrow> fileclose f (k_end_op k3);
             Some (freed, upd_proc p (\<lambda>p. p\<lparr>p_swapfile := None\<rparr>) k4)
           })"

section \<open>Moving pages\<close>

definition swap_ip :: "kernel \<Rightarrow> nat \<Rightarrow> nat" where
  "swap_ip k p = f_ip (ftable k ! the (p_swapfile (procs k ! p)))"

definition slot_off :: "nat \<Rightarrow> u32" where
  "slot_off slot = of_nat (slot * 4096)"

text \<open>The page's entry in the page metadata is the first one with its address.\<close>

definition set_page_entry :: "u64 \<Rightarrow> (page_stat \<Rightarrow> page_stat) \<Rightarrow> proc_mem_stat \<Rightarrow> proc_mem_stat" where
  "set_page_entry va0 f ms =
     (case first_idx (\<lambda>e. ucast (ps_va e) = va0) (ms_pages ms) of
        Some i \<Rightarrow> upd_page i f ms
      | None \<Rightarrow> ms)"

definition proc_swapout_page :: "nat \<Rightarrow> u64 \<Rightarrow> u64 \<Rightarrow> kernel \<Rightarrow> (int \<times> kernel) option" where
  "proc_swapout_page p va pa k = do {
     (r, k0) \<leftarrow> (if p_swapfile (procs k ! p) = None then swapfile_create p k else Some (0, k));
     if r < 0 then Some (-1, k0)
     else case first_idx (\<lambda>e. \<not> sw_used e) (p_swap_table (procs k0 ! p)) of
       None \<Rightarrow> Some (-1, k0)
     | Some slot \<Rightarrow> do {
         k1 \<leftarrow> with_fs begin_op k0;
         k2 \<leftarrow> with_fs (\<lambda>s. ilock s (swap_ip k1 p)) k1;
         (n, s, m) \<leftarrow> writei mem_in (fs k2) (ph k2) (swap_ip k2 p) pa (slot_off slot) 4096;
         k3 \<leftarrow> with_fs (\<lambda>s. iunlock s (swap_ip k2 p)) (k2\<lparr>fs := s, ph := m\<rparr>);
         let k4 = k_end_op k3;
         if n \<noteq> 4096 then Some (-1, k4)
         else Some (int slot, upd_proc p (\<lambda>p. p\<lparr>
                p_swap_table := (p_swap_table p)[slot := \<lparr>sw_va = ucast (PGROUNDDOWN va), sw_slot = int slot, sw_used = True\<rparr>],
                p_num_swapped_pages := p_num_swapped_pages p + 1,
                p_memstat := set_page_entry (PGROUNDDOWN va)
                  (\<lambda>e. e\<lparr>ps_state := SWAPPED, ps_slot := int slot, ps_dirty := False\<rparr>) (p_memstat p)\<rparr>) k4)
       }
   }"

definition swapin_page :: "nat \<Rightarrow> u64 \<Rightarrow> u64 \<Rightarrow> kernel \<Rightarrow> (int \<times> kernel) option" where
  "swapin_page p va dst k =
     (if p_swapfile (procs k ! p) = None then Some (-1, k)
      else let va0 = PGROUNDDOWN va
      in case first_idx (\<lambda>e. sw_used e \<and> ucast (sw_va e) = va0) (p_swap_table (procs k ! p)) of
        None \<Rightarrow> Some (-1, k)
      | Some slot \<Rightarrow> do {
          k1 \<leftarrow> with_fs begin_op k;
          k2 \<leftarrow> with_fs (\<lambda>s. ilock s (swap_ip k1 p)) k1;
          (n, s, m) \<leftarrow> readi mem_out (fs k2) (ph k2) (swap_ip k2 p) dst (slot_off slot) 4096;
          k3 \<leftarrow> with_fs (\<lambda>s. iunlock s (swap_ip k2 p)) (k2\<lparr>fs := s, ph := m\<rparr>);
          let k4 = k_end_op k3;
          if n \<noteq> 4096 then Some (-1, k4)
          else let k5 = printk (SWAPIN (p_pid (procs k4 ! p)) va0 (int slot)) k4
               in Some (int slot, upd_proc p (\<lambda>p. p\<lparr>
                p_swap_table := (p_swap_table p)[slot := free_slot],
                p_num_swapped_pages := (if p_num_swapped_pages p > 0 then p_num_swapped_pages p - 1 else p_num_swapped_pages p),
                p_cnt := (p_cnt p)\<lparr>
                  swapped_pages := (if swapped_pages (p_cnt p) > 0 then swapped_pages (p_cnt p) - 1 else swapped_pages (p_cnt p)),
                  resident_pages := resident_pages (p_cnt p) + 1,
                  swapin_count := swapin_count (p_cnt p) + 1\<rparr>,
                p_memstat := set_page_entry va0
                  (\<lambda>e. e\<lparr>ps_state := RESIDENT, ps_slot := -1, ps_dirty := False\<rparr>) (p_memstat p)\<rparr>) k5)
        })"

end
