(* ===== verification/Vmfault.thy ===== *)
theory Vmfault
  imports Swap
begin

text \<open>
  Page replacement and faults taken inside the kernel: \<open>try_kalloc_or_replace\<close>, \<open>vmfault\<close>,
  \<open>copyout\<close>, \<open>copyin\<close> and \<open>copyinstr\<close> of \<open>vm.c\<close>, and the same functions of \<open>vm_bonus.c\<close>, which
  differs from \<open>vm.c\<close> in the choice of the victim only. The functions ending in \<open>_with\<close> take that
  choice, or the allocator built on it, as an argument.

  \<open>sfence_vma\<close> has no counterpart: translation always reads the page table in memory.
\<close>

section \<open>Replacement\<close>

type_synonym selector = "proc_mem_stat \<Rightarrow> nat option \<times> string"

definition upd_cnt :: "(vmcount \<Rightarrow> vmcount) \<Rightarrow> proc \<Rightarrow> proc" where
  "upd_cnt f p = p\<lparr>p_cnt := f (p_cnt p)\<rparr>"

definition dec_resident :: "vmcount \<Rightarrow> vmcount" where
  "dec_resident c = (if resident_pages c > 0 then c\<lparr>resident_pages := resident_pages c - 1\<rparr> else c)"

text \<open>Writing back or dropping the victim; the flag is false when the process has been killed.\<close>

definition evict :: "u64 \<Rightarrow> u64 \<Rightarrow> bool \<Rightarrow> kernel \<Rightarrow> (bool \<times> kernel) option" where
  "evict va0 pa dirty k =
     (let p = cur k; pid = p_pid (myproc k)
      in if dirty
         then do {
           (slot, k1) \<leftarrow> proc_swapout_page p va0 pa k;
           if slot < 0
           then Some (False, setkilled p (printk (KILL_swap_exhausted pid) (printk (SWAPFULL pid) k1)))
           else Some (True, upd_proc p (\<lambda>q. (upd_cnt (\<lambda>c. (dec_resident c)\<lparr>swapped_pages := swapped_pages c + 1,
                    swapout_count := swapout_count c + 1\<rparr>) q)\<lparr>p_memstat := memstat_mark_swapped (p_memstat q) va0 slot\<rparr>)
                  (printk (SWAPOUT pid va0 slot) k1))
         }
         else Some (True, upd_proc p (\<lambda>q. (upd_cnt dec_resident q)\<lparr>p_memstat := memstat_mark_unmapped (p_memstat q) va0\<rparr>)
                (printk (DISCARD pid va0) k)))"

text \<open>The eviction of the selected page, and the second attempt to allocate.\<close>

definition replace_victim :: "nat \<Rightarrow> string \<Rightarrow> kernel \<Rightarrow> (u64 \<times> kernel) option" where
  "replace_victim idx algo k =
     (let p = cur k; pid = p_pid (myproc k);
          e = ms_pages (p_memstat (myproc k)) ! idx;
          va0 = PGROUNDDOWN (ucast (ps_va e));
          k1 = printk (EVICT pid va0 (ps_dirty e)) (printk (VICTIM pid va0 (ps_seq e) algo) k)
      in do {
        (pte, m) \<leftarrow> walk (ph k1) (p_pagetable (myproc k1)) va0 False;
        if pte = 0 \<or> load64 (mem m) pte AND PTE_V = 0
        then Some (k_alloc (upd_proc p (\<lambda>q. q\<lparr>p_memstat := memstat_mark_unmapped (p_memstat q) va0\<rparr>) k1))
        else let pa = PTE2PA (load64 (mem m) pte)
        in do {
          (ok, k2) \<leftarrow> evict va0 pa (ps_dirty e) k1;
          if \<not> ok then Some (0, k2)
          else do {
            k3 \<leftarrow> with_ph (\<lambda>m. kfree m pa) (set_mem (store64 (mem (ph k2)) pte 0) k2);
            Some (k_alloc k3)
          }
        }
      })"

definition try_kalloc_or_replace_with :: "selector \<Rightarrow> kernel \<Rightarrow> (u64 \<times> kernel) option" where
  "try_kalloc_or_replace_with sel k =
     (case k_alloc k of (mem0, k1) \<Rightarrow>
        if mem0 \<noteq> 0 then Some (mem0, k1)
        else let pid = p_pid (myproc k1); k2 = printk (MEMFULL pid) k1
             in case sel (p_memstat (myproc k2)) of
                  (None, _) \<Rightarrow> Some (0, setkilled (cur k2) (printk (KILL_swap_exhausted pid) k2))
                | (Some idx, algo) \<Rightarrow> replace_victim idx algo k2)"

definition fifo_sel :: selector where
  "fifo_sel ms = (select_victim_fifo_index ms, ''FIFO'')"

definition cleanfifo_sel :: selector where
  "cleanfifo_sel ms = (case select_victim_cleanfifo_index ms of (idx, chose_clean) \<Rightarrow>
     (idx, if chose_clean then ''CLEANFIFO'' else ''FIFO''))"

definition try_kalloc_or_replace :: "kernel \<Rightarrow> (u64 \<times> kernel) option" where
  "try_kalloc_or_replace = try_kalloc_or_replace_with fifo_sel"

definition bonus_try_kalloc_or_replace :: "kernel \<Rightarrow> (u64 \<times> kernel) option" where
  "bonus_try_kalloc_or_replace = try_kalloc_or_replace_with cleanfifo_sel"

section \<open>Regions of the address space\<close>

definition stack_end :: "proc \<Rightarrow> u64" where
  "stack_end p = PGROUNDUP (stack_top (p_seg p))"

definition stack_base :: "proc \<Rightarrow> u64" where
  "stack_base p = stack_end p - USERSTACK * PGSIZE"

definition stack_guard :: "proc \<Rightarrow> u64" where
  "stack_guard p = stack_end p - (USERSTACK + 1) * PGSIZE"

definition in_guard :: "proc \<Rightarrow> u64 \<Rightarrow> bool" where
  "in_guard p va \<longleftrightarrow> va \<ge> stack_guard p \<and> va < stack_base p"

definition in_text :: "proc \<Rightarrow> u64 \<Rightarrow> bool" where
  "in_text p va \<longleftrightarrow> va < p_sz p \<and> va \<ge> text_start (p_seg p) \<and> va < text_end (p_seg p)"

definition in_data :: "proc \<Rightarrow> u64 \<Rightarrow> bool" where
  "in_data p va \<longleftrightarrow> va < p_sz p \<and> va \<ge> data_start (p_seg p) \<and> va < data_end (p_seg p)"

definition in_stack :: "proc \<Rightarrow> u64 \<Rightarrow> bool" where
  "in_stack p va \<longleftrightarrow> va < p_sz p \<and> va \<ge> stack_base p \<and> va < stack_end p"

definition in_heap :: "proc \<Rightarrow> u64 \<Rightarrow> bool" where
  "in_heap p va \<longleftrightarrow> va < p_sz p \<and> \<not> in_guard p va \<and> \<not> in_stack p va \<and> \<not> in_text p va \<and> \<not> in_data p va"

text \<open>The range of the executable that backs page \<open>va\<close>: offset and number of bytes.\<close>

definition file_range :: "u32 \<Rightarrow> u32 \<Rightarrow> u64 \<Rightarrow> u64 \<Rightarrow> u32 \<times> u32" where
  "file_range seg_off seg_filesz seg_start va =
     (let off = ucast (ucast seg_off + (va - seg_start));
          filesz = (if ucast seg_filesz > va - seg_start then ucast (ucast seg_filesz - (va - seg_start)) else 0)
      in (off, if filesz > 4096 then 4096 else filesz))"

definition seg_range :: "seginfo \<Rightarrow> bool \<Rightarrow> u64 \<Rightarrow> u32 \<times> u32" where
  "seg_range g text va =
     (if text then file_range (text_off g) (text_filesz g) (text_start g) va
      else file_range (data_off g) (data_filesz g) (data_start g) va)"

text \<open>\<open>ilock\<close>, \<open>readi\<close> into kernel memory, \<open>iunlock\<close>.\<close>

definition load_from :: "nat \<Rightarrow> u64 \<Rightarrow> u32 \<Rightarrow> u32 \<Rightarrow> kernel \<Rightarrow> (int \<times> kernel) option" where
  "load_from ip dst off n k = do {
     k1 \<leftarrow> with_fs (\<lambda>s. ilock s ip) k;
     (r, s, m) \<leftarrow> readi mem_out (fs k1) (ph k1) ip dst off n;
     k2 \<leftarrow> with_fs (\<lambda>s. iunlock s ip) (k1\<lparr>fs := s, ph := m\<rparr>);
     Some (r, k2)
   }"

section \<open>vmfault\<close>

type_synonym allocator = "kernel \<Rightarrow> (u64 \<times> kernel) option"

definition map_or_free :: "u64 \<Rightarrow> u64 \<Rightarrow> u64 \<Rightarrow> u64 \<Rightarrow> kernel \<Rightarrow> (u64 \<times> kernel) option" where
  "map_or_free pt va pa perm k = do {
     (r, k1) \<leftarrow> with_ph_ret (\<lambda>m. mappages m pt va PGSIZE pa perm) k;
     if r \<noteq> 0 then do { k2 \<leftarrow> with_ph (\<lambda>m. kfree m pa) k1; Some (0, k2) }
     else Some (pa, k1)
   }"

text \<open>Reading the page from the executable; the flag is false when the file is too short.\<close>

definition fill_page :: "bool \<Rightarrow> u64 \<Rightarrow> u64 \<Rightarrow> kernel \<Rightarrow> (bool \<times> kernel) option" where
  "fill_page text va buf k =
     (case exec_ip (myproc k) of
        None \<Rightarrow> Some (True, k)
      | Some ip \<Rightarrow>
          (case seg_range (p_seg (myproc k)) text va of (off, filesz) \<Rightarrow>
             if filesz > 0
             then map_option (\<lambda>(n, k1). (n = int (unat filesz), k1)) (load_from ip buf off filesz k)
             else Some (True, k)))"

definition fault_file :: "allocator \<Rightarrow> bool \<Rightarrow> u64 \<Rightarrow> kernel \<Rightarrow> (u64 \<times> kernel) option" where
  "fault_file alloc text va k = do {
     (buf, k1) \<leftarrow> alloc k;
     if buf = 0 then Some (0, k1)
     else do {
       (ok, k2) \<leftarrow> fill_page text va buf (set_mem (memset (mem (ph k1)) buf 0 4096) k1);
       if \<not> ok then do { k3 \<leftarrow> with_ph (\<lambda>m. kfree m buf) k2; Some (0, k3) }
       else map_or_free (p_pagetable (myproc k2)) va buf (PTE_U OR PTE_R OR (if text then PTE_X else PTE_W)) k2
     }
   }"

definition fault_anon :: "allocator \<Rightarrow> u64 \<Rightarrow> kernel \<Rightarrow> (u64 \<times> kernel) option" where
  "fault_anon alloc va k = do {
     (m, k1) \<leftarrow> alloc k;
     if m = 0 then Some (0, k1)
     else map_or_free (p_pagetable (myproc k1)) va m (PTE_W OR PTE_U OR PTE_R) (set_mem (memset (mem (ph k1)) m 0 4096) k1)
   }"

definition vmfault_with :: "allocator \<Rightarrow> u64 \<Rightarrow> u64 \<Rightarrow> kernel \<Rightarrow> (u64 \<times> kernel) option" where
  "vmfault_with alloc pagetable va k =
     (let p = myproc k; va0 = PGROUNDDOWN va
      in if in_guard p va0 then Some (0, k)
         else do {
           mapped \<leftarrow> ismapped (ph k) pagetable va0;
           if mapped then Some (0, k)
           else if in_text p va0 \<or> in_data p va0 then fault_file alloc (in_text p va0) va0 k
           else if in_stack p va0 \<or> in_heap p va0 then fault_anon alloc va0 k
           else Some (0, k)
         })"

section \<open>Copies between kernel and user memory\<close>

lemma page_chunk_pos: "0 < unat (PGSIZE - (va - PGROUNDDOWN va))"
proof -
  have "va - PGROUNDDOWN va < PGSIZE" by (simp add: in_page_iff)
  then show ?thesis by (simp add: word_less_nat_alt unat_sub word_le_nat_alt)
qed

function copyout_with :: "allocator \<Rightarrow> u64 \<Rightarrow> u64 \<Rightarrow> u8 list \<Rightarrow> kernel \<Rightarrow> (int \<times> kernel) option" where
  "copyout_with alloc pagetable dstva src k =
     (if src \<noteq> []
      then let va0 = PGROUNDDOWN dstva
           in if va0 \<ge> MAXVA then Some (-1, k)
              else Option.bind (walkaddr (ph k) pagetable va0) (\<lambda>pa.
                   Option.bind (if pa = 0 then vmfault_with alloc pagetable va0 k else Some (pa, k)) (\<lambda>(pa0, k1).
                     if pa0 = 0 then Some (-1, k1)
                     else Option.bind (walk (ph k1) pagetable va0 False) (\<lambda>(pte, m).
                       if pte = 0 then None
                       else if load64 (mem m) pte AND PTE_W = 0 then Some (-1, k1)
                       else let n = unat (PGSIZE - (dstva - va0));
                                k2 = set_mem (store_bytes (mem (ph k1)) (pa0 + (dstva - va0)) (take n src)) k1
                            in copyout_with alloc pagetable (va0 + PGSIZE) (drop n src) k2)))
      else Some (0, k))"
  by pat_completeness auto
termination
proof (relation "measure (\<lambda>(alloc, pt, dstva, src, k). length src)", goal_cases)
  case 1
  show ?case by (rule wf_measure)
next
  case (2 alloc pagetable dstva src k)
  then show ?case using page_chunk_pos [of dstva] by simp
qed

text \<open>The result is the code and the bytes copied before the function returned.\<close>

function copyin_with :: "allocator \<Rightarrow> u64 \<Rightarrow> u64 \<Rightarrow> nat \<Rightarrow> kernel \<Rightarrow> (int \<times> u8 list \<times> kernel) option" where
  "copyin_with alloc pagetable srcva len k =
     (if len > 0
      then let va0 = PGROUNDDOWN srcva
           in if va0 \<ge> MAXVA then Some (-1, [], k)
              else Option.bind (walkaddr (ph k) pagetable va0) (\<lambda>pa.
                   Option.bind (if pa = 0 then vmfault_with alloc pagetable va0 k else Some (pa, k)) (\<lambda>(pa0, k1).
                     if pa0 = 0 then Some (-1, [], k1)
                     else let n = min (unat (PGSIZE - (srcva - va0))) len;
                              bs = mem_bytes (mem (ph k1)) (pa0 + (srcva - va0)) n
                          in map_option (\<lambda>(r, bs', k2). (r, bs @ bs', k2))
                               (copyin_with alloc pagetable (va0 + PGSIZE) (len - n) k1)))
      else Some (0, [], k))"
  by pat_completeness auto
termination
proof (relation "measure (\<lambda>(alloc, pt, srcva, len, k). len)", goal_cases)
  case 1
  show ?case by (rule wf_measure)
next
  case (2 alloc pagetable srcva len k)
  then show ?case using page_chunk_pos [of srcva] by simp
qed

text \<open>The string is returned without its NUL.\<close>

function copyinstr_with :: "allocator \<Rightarrow> u64 \<Rightarrow> u64 \<Rightarrow> nat \<Rightarrow> kernel \<Rightarrow> (int \<times> u8 list \<times> kernel) option" where
  "copyinstr_with alloc pagetable srcva maxlen k =
     (if maxlen > 0
      then let va0 = PGROUNDDOWN srcva
           in if va0 \<ge> MAXVA then Some (-1, [], k)
              else Option.bind (walkaddr (ph k) pagetable va0) (\<lambda>pa.
                   Option.bind (if pa = 0 then vmfault_with alloc pagetable va0 k else Some (pa, k)) (\<lambda>(pa0, k1).
                     if pa0 = 0 then Some (-1, [], k1)
                     else let n = min (unat (PGSIZE - (srcva - va0))) maxlen;
                              bs = mem_bytes (mem (ph k1)) (pa0 + (srcva - va0)) n
                          in if 0 \<in> set bs then Some (0, takeWhile (\<lambda>c. c \<noteq> 0) bs, k1)
                             else map_option (\<lambda>(r, bs', k2). (r, bs @ bs', k2))
                                    (copyinstr_with alloc pagetable (va0 + PGSIZE) (maxlen - n) k1)))
      else Some (-1, [], k))"
  by pat_completeness auto
termination
proof (relation "measure (\<lambda>(alloc, pt, srcva, maxlen, k). maxlen)", goal_cases)
  case 1
  show ?case by (rule wf_measure)
next
  case (2 alloc pagetable srcva maxlen k)
  then show ?case using page_chunk_pos [of srcva] by simp
qed

declare copyout_with.simps [simp del] copyin_with.simps [simp del] copyinstr_with.simps [simp del]

text \<open>The kernel with \<open>vm.c\<close>, and the bonus build with \<open>vm_bonus.c\<close>.\<close>

definition vmfault :: "u64 \<Rightarrow> u64 \<Rightarrow> kernel \<Rightarrow> (u64 \<times> kernel) option" where
  "vmfault = vmfault_with try_kalloc_or_replace"

definition copyout :: "u64 \<Rightarrow> u64 \<Rightarrow> u8 list \<Rightarrow> kernel \<Rightarrow> (int \<times> kernel) option" where
  "copyout = copyout_with try_kalloc_or_replace"

definition copyin :: "u64 \<Rightarrow> u64 \<Rightarrow> nat \<Rightarrow> kernel \<Rightarrow> (int \<times> u8 list \<times> kernel) option" where
  "copyin = copyin_with try_kalloc_or_replace"

definition copyinstr :: "u64 \<Rightarrow> u64 \<Rightarrow> nat \<Rightarrow> kernel \<Rightarrow> (int \<times> u8 list \<times> kernel) option" where
  "copyinstr = copyinstr_with try_kalloc_or_replace"

definition bonus_vmfault :: "u64 \<Rightarrow> u64 \<Rightarrow> kernel \<Rightarrow> (u64 \<times> kernel) option" where
  "bonus_vmfault = vmfault_with bonus_try_kalloc_or_replace"

definition bonus_copyout :: "u64 \<Rightarrow> u64 \<Rightarrow> u8 list \<Rightarrow> kernel \<Rightarrow> (int \<times> kernel) option" where
  "bonus_copyout = copyout_with bonus_try_kalloc_or_replace"

definition bonus_copyin :: "u64 \<Rightarrow> u64 \<Rightarrow> nat \<Rightarrow> kernel \<Rightarrow> (int \<times> u8 list \<times> kernel) option" where
  "bonus_copyin = copyin_with bonus_try_kalloc_or_replace"

definition bonus_copyinstr :: "u64 \<Rightarrow> u64 \<Rightarrow> nat \<Rightarrow> kernel \<Rightarrow> (int \<times> u8 list \<times> kernel) option" where
  "bonus_copyinstr = copyinstr_with bonus_try_kalloc_or_replace"

section \<open>either_copyout and either_copyin\<close>

text \<open>As the copy functions of \<open>readi\<close> and \<open>writei\<close>: the rest of the kernel is their state.\<close>

definition either_copyout :: "bool \<Rightarrow> kernel copyout" where
  "either_copyout user_dst s k dst bs =
     (let k1 = k\<lparr>fs := s\<rparr>
      in if user_dst
         then map_option (\<lambda>(r, k2). (r, fs k2, k2)) (copyout (p_pagetable (myproc k1)) dst bs k1)
         else Some (0, s, set_mem (store_bytes (mem (ph k1)) dst bs) k1))"

definition either_copyin :: "bool \<Rightarrow> kernel copyin" where
  "either_copyin user_src s k src n =
     (let k1 = k\<lparr>fs := s\<rparr>
      in if user_src
         then map_option (\<lambda>(r, bs, k2). (r, bs, fs k2, k2)) (copyin (p_pagetable (myproc k1)) src n k1)
         else Some (0, mem_bytes (mem (ph k1)) src n, s, k1))"

definition k_readi :: "bool \<Rightarrow> nat \<Rightarrow> u64 \<Rightarrow> u32 \<Rightarrow> u32 \<Rightarrow> kernel \<Rightarrow> (int \<times> kernel) option" where
  "k_readi user ip dst off n k =
     map_option (\<lambda>(r, s, k1). (r, k1\<lparr>fs := s\<rparr>)) (readi (either_copyout user) (fs k) k ip dst off n)"

definition k_writei :: "bool \<Rightarrow> nat \<Rightarrow> u64 \<Rightarrow> u32 \<Rightarrow> u32 \<Rightarrow> kernel \<Rightarrow> (int \<times> kernel) option" where
  "k_writei user ip src off n k =
     map_option (\<lambda>(r, s, k1). (r, k1\<lparr>fs := s\<rparr>)) (writei (either_copyin user) (fs k) k ip src off n)"

end
