(* ===== verification/Frame.thy ===== *)
theory Frame
  imports Vmfault
begin

text \<open>
  What page replacement, \<open>vmfault\<close> and the copies between kernel and user memory leave alone: pipes,
  the console, the other processes, and all of the current process but its paging state. \<open>rest\<close>
  collects it, so that each operation has one equation.
\<close>

named_theorems rest_eqs "operations that keep the rest of the kernel"

definition erase :: "proc \<Rightarrow> proc" where
  "erase p = p\<lparr>p_killed := False, p_swapfile := None, p_swap_table := [], p_num_swapped_pages := 0,
     p_memstat := \<lparr>ms_pid = 0, num_pages_total = 0, num_resident_pages = 0, ms_num_swapped_pages = 0, next_fifo_seq = 0, ms_pages = []\<rparr>,
     p_cnt := \<lparr>pagefault_count = 0, resident_pages = 0, swapped_pages = 0, swapin_count = 0, swapout_count = 0\<rparr>\<rparr>"

definition rest :: "kernel \<Rightarrow> nat \<times> (u64 \<Rightarrow> pipe option) \<times> console \<times> u32 \<times> int \<times> nat \<times> proc list" where
  "rest k = (cur k, pipes k, cons k, ticks k, nextpid k, initproc k, (procs k)[cur k := erase (procs k ! cur k)])"

lemma restD:
  assumes "rest k' = rest k"
  shows "cur k' = cur k" "pipes k' = pipes k" "cons k' = cons k" "ticks k' = ticks k" "nextpid k' = nextpid k"
    "initproc k' = initproc k" "length (procs k') = length (procs k)"
    "q \<noteq> cur k \<Longrightarrow> procs k' ! q = procs k ! q"
    "cur k < length (procs k) \<Longrightarrow> erase (myproc k') = erase (myproc k)"
proof -
  have l: "(procs k')[cur k' := erase (procs k' ! cur k')] = (procs k)[cur k := erase (procs k ! cur k)]"
    using assms unfolding rest_def prod.inject by blast
  show c: "cur k' = cur k" "pipes k' = pipes k" "cons k' = cons k" "ticks k' = ticks k" "nextpid k' = nextpid k"
    "initproc k' = initproc k"
    using assms by (simp_all add: rest_def)
  show len: "length (procs k') = length (procs k)"
    using arg_cong [OF l, of length] by simp
  show "procs k' ! q = procs k ! q" if "q \<noteq> cur k"
    using arg_cong [OF l, of "\<lambda>xs. xs ! q"] that c by simp
  show "erase (myproc k') = erase (myproc k)" if "cur k < length (procs k)"
    using arg_cong [OF l, of "\<lambda>xs. xs ! cur k"] that c len by simp
qed

section \<open>Primitives\<close>

lemma rest_simps [simp]:
  "rest (k\<lparr>ph := m\<rparr>) = rest k" "rest (k\<lparr>fs := s\<rparr>) = rest k" "rest (k\<lparr>ftable := t\<rparr>) = rest k" "rest (k\<lparr>klog := w\<rparr>) = rest k"
  "rest (printk ev k) = rest k" "rest (upd_file f g k) = rest k" "rest (set_mem mm k) = rest k" "rest (k_end_op k) = rest k"
  "rest (k\<lparr>ph := m, fs := s\<rparr>) = rest k"
  by (simp_all add: rest_def printk_def upd_file_def set_mem_def k_end_op_def)

lemma cur_rest: "cur k = fst (rest k)"
  by (simp add: rest_def)

lemma rest_upd:
  assumes "\<And>p. erase (f p) = erase p" "q = fst (rest k)"
  shows "rest (upd_proc q f k) = rest k"
  using assms unfolding cur_rest [symmetric] by (cases "cur k < length (procs k)") (simp_all add: rest_def upd_proc_def list_update_beyond)

lemma rest_with [rest_eqs]:
  "with_fs f k = Some k' \<Longrightarrow> rest k' = rest k"
  "with_fs_ret f' k = Some (r, k') \<Longrightarrow> rest k' = rest k"
  "with_ph g k = Some k' \<Longrightarrow> rest k' = rest k"
  "with_ph_ret g' k = Some (r, k') \<Longrightarrow> rest k' = rest k"
  "k_alloc k = (a, k') \<Longrightarrow> rest k' = rest k"
  "filealloc k = (x, k') \<Longrightarrow> rest k' = rest k"
  by (auto simp: with_fs_def with_fs_ret_def with_ph_def with_ph_ret_def k_alloc_def filealloc_def split: prod.splits option.splits)

lemma rest_snd [simp]: "rest (snd (k_alloc k)) = rest k" "rest (snd (filealloc k)) = rest k"
  using rest_with(5,6) prod.collapse by metis+

section \<open>Swapping\<close>

lemma erase_simps [simp]:
  "erase (p\<lparr>p_swapfile := a\<rparr>) = erase p" "erase (p\<lparr>p_killed := b\<rparr>) = erase p" "erase (p\<lparr>p_memstat := ms\<rparr>) = erase p"
  "erase (p\<lparr>p_cnt := c\<rparr>) = erase p" "erase (p\<lparr>p_swap_table := t\<rparr>) = erase p" "erase (p\<lparr>p_num_swapped_pages := n\<rparr>) = erase p"
  "erase (upd_cnt f p) = erase p"
  "erase (p\<lparr>p_swap_table := t, p_num_swapped_pages := n, p_memstat := ms\<rparr>) = erase p"
  by (simp_all add: erase_def upd_cnt_def)

lemma rest_swapfile_create [rest_eqs]:
  assumes run: "swapfile_create p k = Some (r, k')" and p: "p = cur k"
  shows "rest k' = rest k"
proof (cases "p_swapfile (procs k ! p) = None")
  case True
  then obtain k1 x k2 where 1: "with_fs begin_op k = Some k1"
      "with_fs_ret (\<lambda>s. kcreate s (kcwd k1) (swapname (p_pid (procs k1 ! p))) T_FILE 0 0) k1 = Some (x, k2)"
    using run by (auto simp: swapfile_create_def bind_eq_Some_conv)
  then have k2: "rest k2 = rest k"
    using rest_with(1,2) by metis
  obtain f k3 where f: "filealloc k2 = (f, k3)"
    by (cases "filealloc k2")
  then have k3: "rest k3 = rest k"
    using rest_with(6) [OF f] k2 by simp
  show ?thesis
    using run True 1 f k2 k3 p
    by (cases x; cases f) (auto simp: swapfile_create_def bind_eq_Some_conv Let_def rest_upd cur_rest dest!: rest_with(1))
qed (use run in \<open>simp add: swapfile_create_def\<close>)

lemma rest_swapout [rest_eqs]:
  assumes run: "proc_swapout_page p va pa k = Some (r, k')" and p: "p = cur k"
  shows "rest k' = rest k"
proof -
  obtain r0 k0 where 0: "(if p_swapfile (procs k ! p) = None then swapfile_create p k else Some (0, k)) = Some (r0, k0)"
    using run unfolding proc_swapout_page_def bind_eq_Some_conv by auto
  then have k0: "rest k0 = rest k"
    using rest_swapfile_create p by (auto split: if_split_asm)
  show ?thesis
    using run k0 p unfolding proc_swapout_page_def 0
    by (auto simp: bind_eq_Some_conv Let_def rest_upd cur_rest split: if_split_asm option.split_asm dest!: rest_with(1))
qed

lemma rest_evict [rest_eqs]:
  "evict va0 pa d k = Some (ok, k') \<Longrightarrow> rest k' = rest k"
  by (auto simp: evict_def bind_eq_Some_conv Let_def rest_upd cur_rest setkilled_def
      split: if_split_asm dest!: rest_eqs)

lemma replace_victim_cases:
  assumes run: "replace_victim idx algo k = Some (pa, k')"
  obtains (gone) k1 va0 where "rest k1 = rest k"
      "k_alloc (upd_proc (cur k) (\<lambda>q. q\<lparr>p_memstat := memstat_mark_unmapped (p_memstat q) va0\<rparr>) k1) = (pa, k')"
  | (failed) k1 va0 pa0 d where "rest k1 = rest k" "evict va0 pa0 d k1 = Some (False, k')"
  | (evicted) k1 va0 pa0 d k2 mm k3 where "rest k1 = rest k" "evict va0 pa0 d k1 = Some (True, k2)"
      "with_ph (\<lambda>m. kfree m pa0) (set_mem mm k2) = Some k3" "k_alloc k3 = (pa, k')"
proof -
  define e va0 k1 where "e = ms_pages (p_memstat (myproc k)) ! idx" and "va0 = PGROUNDDOWN (ucast (ps_va e))"
    and "k1 = printk (EVICT (p_pid (myproc k)) va0 (ps_dirty e)) (printk (VICTIM (p_pid (myproc k)) va0 (ps_seq e) algo) k)"
  have k1: "rest k1 = rest k"
    by (simp add: k1_def)
  obtain pte m where w: "walk (ph k1) (p_pagetable (myproc k1)) va0 False = Some (pte, m)"
    and r: "(if pte = 0 \<or> load64 (mem m) pte AND PTE_V = 0
        then Some (k_alloc (upd_proc (cur k) (\<lambda>q. q\<lparr>p_memstat := memstat_mark_unmapped (p_memstat q) va0\<rparr>) k1))
        else Option.bind (evict va0 (PTE2PA (load64 (mem m) pte)) (ps_dirty e) k1) (\<lambda>(ok, k2).
          if \<not> ok then Some (0, k2)
          else Option.bind (with_ph (\<lambda>m'. kfree m' (PTE2PA (load64 (mem m) pte))) (set_mem (store64 (mem (ph k2)) pte 0) k2))
                 (\<lambda>k3. Some (k_alloc k3)))) = Some (pa, k')"
    using run unfolding replace_victim_def Let_def e_def [symmetric] va0_def [symmetric] k1_def [symmetric]
    by (auto simp only: bind_eq_Some_conv split_paired_Ex prod.case)
  show thesis
  proof (cases "pte = 0 \<or> load64 (mem m) pte AND PTE_V = 0")
    case True
    then show thesis using gone [OF k1] r by simp
  next
    case False
    then obtain ok k2 where e: "evict va0 (PTE2PA (load64 (mem m) pte)) (ps_dirty e) k1 = Some (ok, k2)"
      "(if \<not> ok then Some (0, k2)
          else Option.bind (with_ph (\<lambda>m'. kfree m' (PTE2PA (load64 (mem m) pte))) (set_mem (store64 (mem (ph k2)) pte 0) k2))
                 (\<lambda>k3. Some (k_alloc k3))) = Some (pa, k')"
      using r by (auto simp only: bind_eq_Some_conv split_paired_Ex prod.case if_False)
    then show thesis
      using failed [OF k1] evicted [OF k1] by (cases ok) (auto simp only: bind_eq_Some_conv if_True if_False not_True_eq_False not_False_eq_True option.inject prod.inject)
  qed
qed

lemma rest_victim [rest_eqs]:
  assumes "replace_victim idx algo k = Some (pa, k')"
  shows "rest k' = rest k"
  using assms
proof (cases rule: replace_victim_cases)
  case (gone k1 va0)
  then show ?thesis
    using rest_with(5) [OF gone(2)] by (simp add: rest_upd cur_rest)
next
  case (failed k1 va0 pa0 d)
  then show ?thesis
    using rest_evict by metis
next
  case (evicted k1 va0 pa0 d k2 mm k3)
  then show ?thesis
    using rest_evict [OF evicted(2)] rest_with(3) [OF evicted(3)] rest_with(5) [OF evicted(4)] by simp
qed

lemma rest_replace [rest_eqs]:
  assumes "try_kalloc_or_replace_with sel k = Some (pa, k')"
  shows "rest k' = rest k"
  using assms
  by (auto simp: try_kalloc_or_replace_with_def Let_def rest_upd cur_rest setkilled_def
      split: if_split_asm option.split_asm prod.split_asm dest!: rest_eqs)

section \<open>Faults and copies\<close>

text \<open>Both page allocators of the kernel leave the rest of it alone; so does all that is built on one.\<close>

locale frame_supplier =
  fixes alloc :: allocator
  assumes alloc_rest: "alloc k = Some (pa, k') \<Longrightarrow> rest k' = rest k"
begin

lemma load_from_rest: "load_from ip dst off n k = Some (r, k') \<Longrightarrow> rest k' = rest k"
  by (auto simp: load_from_def bind_eq_Some_conv dest!: rest_eqs)

lemma map_or_free_rest: "map_or_free pt va pa perm k = Some (r, k') \<Longrightarrow> rest k' = rest k"
  by (auto simp: map_or_free_def bind_eq_Some_conv split: if_split_asm dest!: rest_eqs)

lemma fill_page_rest: "fill_page text va buf k = Some (ok, k') \<Longrightarrow> rest k' = rest k"
  by (auto simp: fill_page_def split: option.split_asm if_split_asm prod.split_asm dest!: load_from_rest)

lemma fault_file_rest: "fault_file alloc text va k = Some (r, k') \<Longrightarrow> rest k' = rest k"
  by (auto simp: fault_file_def bind_eq_Some_conv split: if_split_asm
      dest!: rest_with alloc_rest fill_page_rest map_or_free_rest)

lemma fault_anon_rest: "fault_anon alloc va k = Some (r, k') \<Longrightarrow> rest k' = rest k"
  by (auto simp: fault_anon_def bind_eq_Some_conv split: if_split_asm dest!: alloc_rest map_or_free_rest)

lemma vmfault_rest: "vmfault_with alloc pt va k = Some (r, k') \<Longrightarrow> rest k' = rest k"
  by (auto simp: vmfault_with_def bind_eq_Some_conv Let_def split: if_split_asm dest!: fault_file_rest fault_anon_rest)

lemma copyout_rest: "copyout_with alloc pt va bs k = Some (r, k') \<Longrightarrow> rest k' = rest k"
proof (induction "length bs" arbitrary: va bs k rule: less_induct)
  case less
  show ?case
  proof (cases "bs = []")
    case True
    then show ?thesis using less.prems by (simp add: copyout_with.simps)
  next
    case False
    let ?n = "unat (PGSIZE - (va - PGROUNDDOWN va))"
    have "length (drop ?n bs) < length bs"
      using False page_chunk_pos [of va] by simp
    note IH = less.hyps [OF this]
    show ?thesis
      using less.prems False
      by (subst (asm) copyout_with.simps)
        (auto simp: bind_eq_Some_conv Let_def split: if_split_asm dest!: vmfault_rest IH)
  qed
qed

lemma copyin_rest: "copyin_with alloc pt va n k = Some (r, bs, k') \<Longrightarrow> rest k' = rest k"
proof (induction n arbitrary: va k r bs k' rule: less_induct)
  case (less n)
  show ?case
  proof (cases "n = 0")
    case True
    then show ?thesis using less.prems by (simp add: copyin_with.simps)
  next
    case False
    then have "n - min (unat (PGSIZE - (va - PGROUNDDOWN va))) n < n"
      using page_chunk_pos [of va] by simp
    note IH = less.IH [OF this]
    show ?thesis
      using less.prems False
      by (subst (asm) copyin_with.simps)
        (auto simp: bind_eq_Some_conv Let_def split: if_split_asm dest!: vmfault_rest IH)
  qed
qed

lemma copyinstr_rest: "copyinstr_with alloc pt va n k = Some (r, bs, k') \<Longrightarrow> rest k' = rest k"
proof (induction n arbitrary: va k r bs k' rule: less_induct)
  case (less n)
  show ?case
  proof (cases "n = 0")
    case True
    then show ?thesis using less.prems by (simp add: copyinstr_with.simps)
  next
    case False
    then have "n - min (unat (PGSIZE - (va - PGROUNDDOWN va))) n < n"
      using page_chunk_pos [of va] by simp
    note IH = less.IH [OF this]
    show ?thesis
      using less.prems False
      by (subst (asm) copyinstr_with.simps)
        (auto simp: bind_eq_Some_conv Let_def split: if_split_asm dest!: vmfault_rest IH)
  qed
qed

end

interpretation vm: frame_supplier try_kalloc_or_replace
  by unfold_locales (auto simp: try_kalloc_or_replace_def dest: rest_replace)

interpretation vm_bonus: frame_supplier bonus_try_kalloc_or_replace
  by unfold_locales (auto simp: bonus_try_kalloc_or_replace_def dest: rest_replace)

lemmas user_copyout_rest = vm.copyout_rest [folded copyout_def]
lemmas user_copyin_rest = vm.copyin_rest [folded copyin_def]
lemmas user_copyinstr_rest = vm.copyinstr_rest [folded copyinstr_def]

end
