(* ===== verification/Swapspec.thy ===== *)
theory Swapspec
  imports Swap
begin

text \<open>
  The swap file of a process as a store of pages: a finite map from page addresses to the
  contents of the page. \<open>proc_swapout_page\<close> adds a page, \<open>swapin_page\<close> returns and removes one.
\<close>

section \<open>Slots of the file\<close>

definition slot_bytes :: "fsys \<Rightarrow> nat \<Rightarrow> nat \<Rightarrow> u8 list" where
  "slot_bytes s ip j = map (fbyte s ip) [4096 * j..<4096 * j + 4096]"

definition slot_ok :: "fsys \<Rightarrow> nat \<Rightarrow> nat \<Rightarrow> bool" where
  "slot_ok s ip j \<longleftrightarrow> j < 67 \<and> 4096 * (j + 1) \<le> unat (i_size (itable s ! ip)) \<and>
     (\<forall>i < 4. baddr s ip (4 * j + i) \<noteq> 0)"

lemma length_slot_bytes [simp]: "length (slot_bytes s ip j) = 4096"
  by (simp add: slot_bytes_def)

lemma slot_block:
  assumes "k \<in> {4096 * j..<4096 * j + 4096}"
  obtains i where "i < 4" "k div BSIZE = 4 * j + i"
proof -
  define q r where "q = k div BSIZE" and "r = k mod BSIZE"
  have k: "k = 1024 * q + r" "r < 1024" unfolding q_def r_def by simp_all
  have "4 * j \<le> q" "q < 4 * j + 4" using assms k by simp_all
  then have "q - 4 * j < 4" "k div BSIZE = 4 * j + (q - 4 * j)" unfolding q_def [symmetric] by simp_all
  then show ?thesis by (rule that)
qed

lemma slot_in_file:
  assumes "slot_ok s ip j" "k \<in> {4096 * j..<4096 * j + 4096}"
  shows "k div BSIZE < MAXFILE" "baddr s ip (k div BSIZE) \<noteq> 0"
proof -
  obtain i where "i < 4" "k div BSIZE = 4 * j + i" by (rule slot_block [OF assms(2)])
  then show "k div BSIZE < MAXFILE" "baddr s ip (k div BSIZE) \<noteq> 0" using assms(1) by (simp_all add: slot_ok_def)
qed

lemma unat_slot_off: "j < 1024 \<Longrightarrow> unat (slot_off j) = 4096 * j"
  using unat_of_nat32 [of "j * 4096"] by (simp add: slot_off_def del: of_nat_mult)

lemma read_slot:
  assumes "slot_ok s ip j"
  shows "readi mem_out s e ip dst (slot_off j) 4096 = Some (4096, s, mem_put e dst (slot_bytes s ip j))"
proof -
  have u: "unat (slot_off j) = 4096 * j" using assms by (intro unat_slot_off) (simp add: slot_ok_def)
  have "readi mem_out s e ip dst (slot_off j) 4096 = Some (int (unat (4096 :: u32)), s, mem_put e dst
      (map (fbyte s ip) [unat (slot_off j)..<unat (slot_off j) + unat (4096 :: u32)]))"
    unfolding sinks(1) [symmetric]
    using slot_in_file [OF assms] assms by (intro mem_sink.readi_present) (auto simp: u slot_ok_def)
  then show ?thesis by (simp add: u slot_bytes_def)
qed

text \<open>A write of a page into slot \<open>j\<close>, when the slots before it are in the file.\<close>

definition slots_kept :: "fsys \<Rightarrow> fsys \<Rightarrow> nat \<Rightarrow> nat set \<Rightarrow> bool" where
  "slots_kept s s' ip J \<longleftrightarrow>
     (\<forall>i. i \<notin> J \<longrightarrow> slot_ok s ip i \<longrightarrow> slot_ok s' ip i \<and> slot_bytes s' ip i = slot_bytes s ip i)"

lemma write_slot:
  assumes lo: "layout_ok s" and inv: "file_inv s ip" and j: "j < 1024" and sz: "4096 * j \<le> unat (i_size (itable s ! ip))"
    and w: "writei mem_in s e ip pa (slot_off j) 4096 = Some (r, s', e')"
  shows "e' = e \<and> layout_ok s' \<and> file_inv s' ip \<and> sb s' = sb s \<and> outstanding s' = outstanding s \<and>
     itable s' = (itable s)[ip := (itable s ! ip)\<lparr>i_addrs := i_addrs (itable s' ! ip), i_size := i_size (itable s' ! ip)\<rparr>] \<and>
     unat (i_size (itable s ! ip)) \<le> unat (i_size (itable s' ! ip)) \<and>
     slots_kept s s' ip {j} \<and>
     (r = 4096 \<longrightarrow> slot_ok s' ip j \<and> slot_bytes s' ip j = mem_bytes (mem e) pa 4096)"
proof (cases "j < 67")
  case False
  have "unat (slot_off j + 4096) = 4096 * j + 4096" using j by (simp add: unat_slot_off unat_word_ariths)
  then have "r = -1 \<and> s' = s \<and> e' = e"
    using w False by (auto simp: writei_def split: if_splits)
  then show ?thesis using lo inv by (simp add: slots_kept_def)
next
  case True
  have u: "unat (slot_off j) = 4096 * j" by (rule unat_slot_off [OF j])
  obtain m where m: "m \<le> 4096" "r = int m" and h: "e' = e" "layout_ok s'" "file_inv s' ip" "sb s' = sb s" "outstanding s' = outstanding s"
      "itable s' = (itable s)[ip := (itable s ! ip)\<lparr>i_addrs := i_addrs (itable s' ! ip), i_size := i_size (itable s' ! ip)\<rparr>]"
    and f: "\<forall>k. k div BSIZE < MAXFILE \<longrightarrow> fbyte s' ip k = over (fbyte s ip) (4096 * j) (mem_bytes (mem e) pa m) k"
    and z: "unat (i_size (itable s' ! ip)) = max (unat (i_size (itable s ! ip))) (4096 * j + m)"
    and b: "\<forall>k \<in> {4096 * j..<4096 * j + m}. k div BSIZE < MAXFILE \<and> baddr s' ip (k div BSIZE) \<noteq> 0"
      "\<forall>bn < MAXFILE. baddr s ip bn \<noteq> 0 \<longrightarrow> baddr s' ip bn = baddr s ip bn"
    using writei_bytes [OF lo inv _ _ w] sz u True by auto
  have fb: "fbyte s' ip k = over (fbyte s ip) (4096 * j) (mem_bytes (mem e) pa m) k"
    if k: "k \<in> {4096 * i..<4096 * i + 4096}" and i: "i < 67" for i k
  proof -
    obtain i' where "i' < 4" "k div BSIZE = 4 * i + i'" by (rule slot_block [OF k])
    then show ?thesis using f i by simp
  qed
  have kept: "slots_kept s s' ip {j}"
    unfolding slots_kept_def
  proof (intro allI impI)
    fix i assume i: "i \<notin> {j}" "slot_ok s ip i"
    have i67: "i < 67" using i by (simp add: slot_ok_def)
    have "slot_ok s' ip i" using i b(2) z by (simp add: slot_ok_def max_def)
    moreover have "slot_bytes s' ip i = slot_bytes s ip i"
    proof -
      have "fbyte s' ip k = fbyte s ip k" if k: "k \<in> {4096 * i..<4096 * i + 4096}" for k
      proof -
        have "\<not> (4096 * j \<le> k \<and> k < 4096 * j + m)" using k i(1) m(1) by auto
        then show ?thesis using fb [OF k i67] by (auto simp: over_def length_mem_bytes)
      qed
      then show ?thesis by (simp add: slot_bytes_def)
    qed
    ultimately show "slot_ok s' ip i \<and> slot_bytes s' ip i = slot_bytes s ip i" by simp
  qed
  have "slot_ok s' ip j \<and> slot_bytes s' ip j = mem_bytes (mem e) pa 4096" if r: "r = 4096"
  proof
    have m4: "m = 4096" using m(2) r by simp
    have "baddr s' ip (4 * j + i) \<noteq> 0" if "i < 4" for i
      using b(1) that bspec [OF b(1), of "4096 * j + 1024 * i"] m4 by simp
    then show "slot_ok s' ip j" using True z m4 by (simp add: slot_ok_def)
    show "slot_bytes s' ip j = mem_bytes (mem e) pa 4096"
      using fb [OF _ True] m4 by (intro nth_equalityI) (auto simp: slot_bytes_def over_def length_mem_bytes)
  qed
  then show ?thesis using h kept z by simp
qed

section \<open>Steps that leave the files alone\<close>

lemma file_view:
  assumes "disk s' = disk s" "sb s' = sb s" "length (itable s') = length (itable s)"
    and "i_addrs (itable s' ! ip) = i_addrs (itable s ! ip)" "i_inum (itable s' ! ip) = i_inum (itable s ! ip)"
  shows "layout_ok s' = layout_ok s" "file_inv s' ip = file_inv s ip" "baddr s' ip = baddr s ip" "fbyte s' ip = fbyte s ip"
proof -
  show "layout_ok s' = layout_ok s" by (rule layout_ok_cong [OF assms(1,2)])
  show b: "baddr s' ip = baddr s ip" using assms by (intro ext) (simp add: baddr_def Let_def)
  show "fbyte s' ip = fbyte s ip" using assms b by (intro ext) (simp add: fbyte_def)
  have d: "data_ok s' = data_ok s" using assms by (intro ext) (rule data_ok_cong)
  show "file_inv s' ip = file_inv s ip" using assms b d by (simp add: file_inv_def bmap_ok_def)
qed

lemma slot_view:
  assumes "disk s' = disk s" "sb s' = sb s" "length (itable s') = length (itable s)"
    and "i_addrs (itable s' ! ip) = i_addrs (itable s ! ip)" "i_inum (itable s' ! ip) = i_inum (itable s ! ip)"
    and "i_size (itable s' ! ip) = i_size (itable s ! ip)"
  shows "slot_ok s' ip = slot_ok s ip" "slot_bytes s' ip = slot_bytes s ip"
  using file_view [OF assms(1-5)] assms(6) by (auto simp: fun_eq_iff slot_ok_def slot_bytes_def)

lemma begin_op_Some:
  assumes "begin_op s = Some s'"
  shows "disk s' = disk s" "sb s' = sb s" "itable s' = itable s"
  using assms by (auto simp: begin_op_def split: if_splits)

lemma end_op_simps [simp]: "disk (end_op s) = disk s" "sb (end_op s) = sb s" "itable (end_op s) = itable s"
  by (simp_all add: end_op_def Let_def)

text \<open>An inode in use that is not locked, with its copy of the disk inode loaded.\<close>

definition inode_idle :: "fsys \<Rightarrow> nat \<Rightarrow> bool" where
  "inode_idle s ip \<longleftrightarrow> ip < length (itable s) \<and> i_ref (itable s ! ip) \<ge> 1 \<and> i_valid (itable s ! ip) \<and> \<not> i_locked (itable s ! ip)"

lemma ilock_idle: "inode_idle s ip \<Longrightarrow> ilock s ip = Some (upd_inode ip (\<lambda>i. i\<lparr>i_locked := True\<rparr>) s)"
  by (simp add: inode_idle_def ilock_def Let_def)

section \<open>The swap file as a map\<close>

definition swap_key :: "u64 \<Rightarrow> swap_entry \<Rightarrow> bool" where
  "swap_key va0 e \<longleftrightarrow> sw_used e \<and> ucast (sw_va e) = va0"

definition table_ok :: "swap_entry list \<Rightarrow> bool" where
  "table_ok t \<longleftrightarrow> length t = MAX_SWAP_PAGES \<and>
     (\<forall>i < length t. \<forall>j < length t. sw_used (t ! i) \<longrightarrow> sw_used (t ! j) \<longrightarrow> sw_va (t ! i) = sw_va (t ! j) \<longrightarrow> i = j)"

definition swap_inv :: "kernel \<Rightarrow> nat \<Rightarrow> bool" where
  "swap_inv k p \<longleftrightarrow> p < length (procs k) \<and> table_ok (p_swap_table (procs k ! p)) \<and> p_swapfile (procs k ! p) \<noteq> None \<and>
     layout_ok (fs k) \<and> file_inv (fs k) (swap_ip k p) \<and> inode_idle (fs k) (swap_ip k p) \<and>
     (\<forall>j < MAX_SWAP_PAGES. sw_used (p_swap_table (procs k ! p) ! j) \<longrightarrow> slot_ok (fs k) (swap_ip k p) j)"

definition swapped :: "kernel \<Rightarrow> nat \<Rightarrow> u64 \<rightharpoonup> u8 list" where
  "swapped k p va0 = map_option (slot_bytes (fs k) (swap_ip k p)) (first_idx (swap_key va0) (p_swap_table (procs k ! p)))"

lemma first_idx_update_same: "i < length xs \<Longrightarrow> \<not> P (xs ! i) \<Longrightarrow> \<not> P x \<Longrightarrow> first_idx P (xs[i := x]) = first_idx P xs"
  by (induction xs arbitrary: i) (auto split: nat.splits)

lemma first_idx_update_new: "i < length xs \<Longrightarrow> first_idx P xs = None \<Longrightarrow> P x \<Longrightarrow> first_idx P (xs[i := x]) = Some i"
  by (auto simp: first_idx_Some_iff nth_list_update)

lemma first_idx_update_gone:
  assumes "first_idx P xs = Some i" "\<not> P x" "\<And>j. j < length xs \<Longrightarrow> P (xs ! j) \<Longrightarrow> j = i"
  shows "first_idx P (xs[i := x]) = None"
proof -
  have "\<not> P (xs[i := x] ! j)" if "j < length xs" for j
    using assms(2,3) that by (cases "j = i") auto
  then show ?thesis by (auto simp: in_set_conv_nth)
qed

lemma unat_ucast_32_64: "unat (ucast (a :: u32) :: u64) = unat a"
proof -
  have "unat a < 2 ^ 64" using unat_bound32 [of a] by simp
  then show ?thesis by (simp add: unsigned_ucast_eq take_bit_nat_eq_self)
qed

lemma ucast_32_64_inj: "(ucast (a :: u32) :: u64) = ucast b \<longleftrightarrow> a = b"
  by (metis unat_ucast_32_64 word_eq_iff_unat)

text \<open>The table after a page is added to a free slot, and after a page is taken out.\<close>

lemma table_add:
  assumes t: "table_ok t" and slot: "first_idx (\<lambda>e. \<not> sw_used e) t = Some slot"
    and new: "first_idx (swap_key va0) t = None" and va0: "ucast v = va0"
  defines "t' \<equiv> t[slot := \<lparr>sw_va = v, sw_slot = int slot, sw_used = True\<rparr>]"
  shows "table_ok t'" "first_idx (swap_key va0) t' = Some slot"
    "va \<noteq> va0 \<Longrightarrow> first_idx (swap_key va) t' = first_idx (swap_key va) t"
proof -
  note s = first_idx_SomeD [OF slot]
  have no: "\<not> (sw_used (t ! i) \<and> sw_va (t ! i) = v)" if "i < length t" for i
    using new va0 that by (auto simp: swap_key_def dest: nth_mem)
  show "table_ok t'"
    unfolding t'_def table_ok_def using t no s(1) by (auto simp: table_ok_def nth_list_update)
  show "first_idx (swap_key va0) t' = Some slot"
    unfolding t'_def using s(1) new va0 by (intro first_idx_update_new) (auto simp: swap_key_def)
  show "first_idx (swap_key va) t' = first_idx (swap_key va) t" if "va \<noteq> va0"
    unfolding t'_def using s that va0 by (intro first_idx_update_same) (auto simp: swap_key_def)
qed

lemma table_remove:
  assumes t: "table_ok t" and slot: "first_idx (swap_key va0) t = Some slot"
  shows "table_ok (t[slot := free_slot])" "first_idx (swap_key va0) (t[slot := free_slot]) = None"
    "va \<noteq> va0 \<Longrightarrow> first_idx (swap_key va) (t[slot := free_slot]) = first_idx (swap_key va) t"
proof -
  note s = first_idx_SomeD [OF slot]
  show "table_ok (t[slot := free_slot])"
    using t s(1) by (auto simp: table_ok_def nth_list_update free_slot_def)
  have "j = slot" if "j < length t" "swap_key va0 (t ! j)" for j
  proof -
    have "sw_va (t ! j) = sw_va (t ! slot)"
      using s(2) that(2) by (auto simp: swap_key_def ucast_32_64_inj)
    then show ?thesis using t s(1,2) that by (auto simp: table_ok_def swap_key_def)
  qed
  then show "first_idx (swap_key va0) (t[slot := free_slot]) = None"
    by (intro first_idx_update_gone [OF slot]) (auto simp: swap_key_def free_slot_def)
  show "first_idx (swap_key va) (t[slot := free_slot]) = first_idx (swap_key va) t" if "va \<noteq> va0"
    using s that by (intro first_idx_update_same) (auto simp: swap_key_def free_slot_def)
qed

section \<open>The transactions\<close>

lemma swap_write:
  assumes ok: "layout_ok s" "file_inv s ip" "inode_idle s ip" and j: "j < 1024" "4096 * j \<le> unat (i_size (itable s ! ip))"
    and s1: "begin_op s = Some s1" and s2: "ilock s1 ip = Some s2"
    and w: "writei mem_in s2 e ip pa (slot_off j) 4096 = Some (r, s3, e')"
    and s4: "iunlock s3 ip = Some s4"
  shows "e' = e \<and> layout_ok (end_op s4) \<and> file_inv (end_op s4) ip \<and> inode_idle (end_op s4) ip \<and>
     slots_kept s (end_op s4) ip {j} \<and> (\<forall>jp. jp \<noteq> ip \<longrightarrow> itable (end_op s4) ! jp = itable s ! jp) \<and>
     (r = 4096 \<longrightarrow> slot_ok (end_op s4) ip j \<and> slot_bytes (end_op s4) ip j = mem_bytes (mem e) pa 4096)"
proof -
  have ip: "ip < length (itable s)" using ok(3) by (simp add: inode_idle_def)
  note b = begin_op_Some [OF s1]
  have idle1: "inode_idle s1 ip" using ok(3) b by (simp add: inode_idle_def)
  then have s2e: "s2 = upd_inode ip (\<lambda>i. i\<lparr>i_locked := True\<rparr>) s1" using s2 ilock_idle by simp
  have v2: "disk s2 = disk s" "sb s2 = sb s" "length (itable s2) = length (itable s)"
    "itable s2 ! ip = (itable s ! ip)\<lparr>i_locked := True\<rparr>" "\<And>jp. jp \<noteq> ip \<Longrightarrow> itable s2 ! jp = itable s ! jp"
    using b ip by (simp_all add: s2e)
  have f2: "layout_ok s2" "file_inv s2 ip" "slot_ok s2 ip = slot_ok s ip" "slot_bytes s2 ip = slot_bytes s ip"
    using file_view [of s2 s ip] slot_view [of s2 s ip] ok v2 by simp_all
  have "4096 * j \<le> unat (i_size (itable s2 ! ip))" using j(2) v2(4) by simp
  note ws = write_slot [OF f2(1,2) j(1) this w]
  have it: "itable s3 = (itable s2)[ip := (itable s2 ! ip)\<lparr>i_addrs := i_addrs (itable s3 ! ip), i_size := i_size (itable s3 ! ip)\<rparr>]"
    using ws by simp
  have i3: "itable s3 ! ip = (itable s2 ! ip)\<lparr>i_addrs := i_addrs (itable s3 ! ip), i_size := i_size (itable s3 ! ip)\<rparr>"
    using arg_cong [OF it, of "\<lambda>l. l ! ip"] ip v2(3) by simp
  have o3: "itable s3 ! jp = itable s ! jp" if "jp \<noteq> ip" for jp
    using arg_cong [OF it, of "\<lambda>l. l ! jp"] that v2(5) by simp
  have l3: "length (itable s3) = length (itable s)" using arg_cong [OF it, of length] v2(3) by simp
  have s4e: "s4 = upd_inode ip (\<lambda>i. i\<lparr>i_locked := False\<rparr>) s3" using s4 by (auto simp: iunlock_def split: if_splits)
  have v5: "disk (end_op s4) = disk s3" "sb (end_op s4) = sb s3" "length (itable (end_op s4)) = length (itable s3)"
    "itable (end_op s4) ! ip = (itable s3 ! ip)\<lparr>i_locked := False\<rparr>" "\<And>jp. jp \<noteq> ip \<Longrightarrow> itable (end_op s4) ! jp = itable s ! jp"
    using ip l3 o3 by (simp_all add: s4e)
  have f5: "layout_ok (end_op s4)" "file_inv (end_op s4) ip" "slot_ok (end_op s4) ip = slot_ok s3 ip" "slot_bytes (end_op s4) ip = slot_bytes s3 ip"
    using file_view [of "end_op s4" s3 ip] slot_view [of "end_op s4" s3 ip] ws v5 by simp_all
  have "i_ref (itable s3 ! ip) = i_ref (itable s ! ip)" "i_valid (itable s3 ! ip) = i_valid (itable s ! ip)"
    by (subst i3, simp add: v2(4))+
  then have "inode_idle (end_op s4) ip" using ok(3) ip l3 v5(3,4) by (simp add: inode_idle_def)
  moreover have "slots_kept s (end_op s4) ip {j}" using ws f2(3,4) f5(3,4) by (simp add: slots_kept_def)
  ultimately show ?thesis using ws f5 v5(5) by simp
qed

lemma swap_read:
  assumes ok: "layout_ok s" "file_inv s ip" "inode_idle s ip" and j: "slot_ok s ip j" and s1: "begin_op s = Some s1"
  shows "\<exists>s2 s4. ilock s1 ip = Some s2 \<and>
     readi mem_out s2 e ip dst (slot_off j) 4096 = Some (4096, s2, mem_put e dst (slot_bytes s ip j)) \<and>
     iunlock s2 ip = Some s4 \<and> disk (end_op s4) = disk s \<and> sb (end_op s4) = sb s \<and> itable (end_op s4) = itable s"
proof -
  have ip: "ip < length (itable s)" using ok(3) by (simp add: inode_idle_def)
  note b = begin_op_Some [OF s1]
  have idle1: "inode_idle s1 ip" using ok(3) b by (simp add: inode_idle_def)
  let ?s2 = "upd_inode ip (\<lambda>i. i\<lparr>i_locked := True\<rparr>) s1"
  have "slot_ok ?s2 ip = slot_ok s ip" "slot_bytes ?s2 ip = slot_bytes s ip"
    using slot_view [of ?s2 s ip] b ip by simp_all
  then have r: "readi mem_out ?s2 e ip dst (slot_off j) 4096 = Some (4096, ?s2, mem_put e dst (slot_bytes s ip j))"
    using read_slot [of ?s2 ip j e dst] j by simp
  let ?s4 = "upd_inode ip (\<lambda>i. i\<lparr>i_locked := False\<rparr>) ?s2"
  have "iunlock ?s2 ip = Some ?s4" using ok(3) b ip by (simp add: iunlock_def inode_idle_def)
  moreover have "itable ?s4 = itable s"
    using ok(3) b ip by (simp add: upd_inode_def inode_idle_def list_update_same_conv)
  ultimately show ?thesis using r ilock_idle [OF idle1] b by simp
qed

lemma swapped_none_iff: "swapped k p va0 = None \<longleftrightarrow> first_idx (swap_key va0) (p_swap_table (procs k ! p)) = None"
  by (simp add: swapped_def)

lemma k_end_op_simps [simp]:
  "ph (k_end_op k) = ph k" "fs (k_end_op k) = end_op (fs k)" "ftable (k_end_op k) = ftable k"
  "pipes (k_end_op k) = pipes k" "procs (k_end_op k) = procs k" "cur (k_end_op k) = cur k" "klog (k_end_op k) = klog k"
  by (simp_all add: k_end_op_def)

lemma free_slot_below_size:
  assumes inv: "swap_inv k p" and slot: "first_idx (\<lambda>e. \<not> sw_used e) (p_swap_table (procs k ! p)) = Some slot"
  shows "slot < 1024" "4096 * slot \<le> unat (i_size (itable (fs k) ! swap_ip k p))"
proof -
  note s = first_idx_SomeD [OF slot]
  show lt: "slot < 1024" using s(1) inv by (simp add: swap_inv_def table_ok_def)
  show "4096 * slot \<le> unat (i_size (itable (fs k) ! swap_ip k p))"
  proof (cases slot)
    case (Suc j)
    then have "sw_used (p_swap_table (procs k ! p) ! j)" using s(3) [of j] by simp
    then have "slot_ok (fs k) (swap_ip k p) j" using inv lt Suc by (simp add: swap_inv_def)
    then show ?thesis using Suc by (simp add: slot_ok_def)
  qed simp
qed

text \<open>The state after a write of the page to \<open>slot\<close>, before the tables are updated.\<close>

lemma swapout_cases:
  assumes inv: "swap_inv k p" and run: "proc_swapout_page p va pa k = Some (r, k')"
  obtains (full) "r = -1" "k' = k"
  | (failed) s where "r = -1" "k' = k\<lparr>fs := s\<rparr>" "layout_ok s" "file_inv s (swap_ip k p)" "inode_idle s (swap_ip k p)"
      "slots_kept (fs k) s (swap_ip k p) {j. j < 1024 \<and> \<not> sw_used (p_swap_table (procs k ! p) ! j)}"
  | (stored) slot s where "r = int slot" "first_idx (\<lambda>e. \<not> sw_used e) (p_swap_table (procs k ! p)) = Some slot"
      "layout_ok s" "file_inv s (swap_ip k p)" "inode_idle s (swap_ip k p)" "slots_kept (fs k) s (swap_ip k p) {slot}"
      "slot_ok s (swap_ip k p) slot" "slot_bytes s (swap_ip k p) slot = mem_bytes (mem (ph k)) pa 4096"
      "k' = upd_proc p (\<lambda>p. p\<lparr>
          p_swap_table := (p_swap_table p)[slot := \<lparr>sw_va = ucast (PGROUNDDOWN va), sw_slot = int slot, sw_used = True\<rparr>],
          p_num_swapped_pages := p_num_swapped_pages p + 1,
          p_memstat := set_page_entry (PGROUNDDOWN va)
            (\<lambda>e. e\<lparr>ps_state := SWAPPED, ps_slot := int slot, ps_dirty := False\<rparr>) (p_memstat p)\<rparr>) (k\<lparr>fs := s\<rparr>)"
proof (cases "first_idx (\<lambda>e. \<not> sw_used e) (p_swap_table (procs k ! p))")
  case None
  moreover obtain f where "p_swapfile (procs k ! p) = Some f" using inv by (auto simp: swap_inv_def)
  ultimately have "r = -1" "k' = k" using run by (simp_all add: proc_swapout_page_def del: first_idx_None_iff)
  then show ?thesis by (rule full)
next
  case (Some slot)
  obtain f where sf: "p_swapfile (procs k ! p) = Some f" using inv by (auto simp: swap_inv_def)
  have ok: "layout_ok (fs k)" "file_inv (fs k) (swap_ip k p)" "inode_idle (fs k) (swap_ip k p)"
    using inv by (simp_all add: swap_inv_def)
  obtain s1 s2 n s3 m s4 where chain: "begin_op (fs k) = Some s1" "ilock s1 (swap_ip k p) = Some s2"
      "writei mem_in s2 (ph k) (swap_ip k p) pa (slot_off slot) 4096 = Some (n, s3, m)" "iunlock s3 (swap_ip k p) = Some s4"
    and res: "(r, k') = (if n \<noteq> 4096 then (-1, k_end_op (k\<lparr>ph := m, fs := s4\<rparr>))
       else (int slot, upd_proc p (\<lambda>p. p\<lparr>
          p_swap_table := (p_swap_table p)[slot := \<lparr>sw_va = ucast (PGROUNDDOWN va), sw_slot = int slot, sw_used = True\<rparr>],
          p_num_swapped_pages := p_num_swapped_pages p + 1,
          p_memstat := set_page_entry (PGROUNDDOWN va)
            (\<lambda>e. e\<lparr>ps_state := SWAPPED, ps_slot := int slot, ps_dirty := False\<rparr>) (p_memstat p)\<rparr>) (k_end_op (k\<lparr>ph := m, fs := s4\<rparr>))))"
    using run sf Some
    by (auto simp: proc_swapout_page_def with_fs_def swap_ip_def bind_eq_Some_conv Let_def simp del: k_end_op_simps split: if_splits)
  note w = swap_write [OF ok free_slot_below_size [OF inv Some] chain]
  have k4: "k_end_op (k\<lparr>ph := m, fs := s4\<rparr>) = k\<lparr>fs := end_op s4\<rparr>" using w by (simp add: k_end_op_def)
  note s = first_idx_SomeD [OF Some]
  show ?thesis
  proof (cases "n = 4096")
    case True
    then show ?thesis using stored [of slot "end_op s4"] res k4 w Some by simp
  next
    case False
    have "slots_kept (fs k) (end_op s4) (swap_ip k p) {j. j < 1024 \<and> \<not> sw_used (p_swap_table (procs k ! p) ! j)}"
      using w s(1,2) inv by (auto simp: slots_kept_def swap_inv_def table_ok_def)
    then show ?thesis using failed [of "end_op s4"] res k4 w False by simp
  qed
qed

section \<open>Both operations on the map\<close>

definition low :: "u64 \<Rightarrow> bool" where
  "low va \<longleftrightarrow> ucast (ucast (PGROUNDDOWN va) :: u32) = PGROUNDDOWN va"

lemma slots_keptD:
  "slots_kept s s' ip J \<Longrightarrow> slot_ok s ip i \<Longrightarrow> i \<notin> J \<Longrightarrow> slot_ok s' ip i \<and> slot_bytes s' ip i = slot_bytes s ip i"
  by (simp add: slots_kept_def)

lemma swapped_slot:
  assumes "swap_inv k p" "first_idx (swap_key va) (p_swap_table (procs k ! p)) = Some i"
  shows "i < 1024" "sw_used (p_swap_table (procs k ! p) ! i)" "slot_ok (fs k) (swap_ip k p) i"
  using first_idx_SomeD [OF assms(2)] assms(1) by (auto simp: swap_inv_def table_ok_def swap_key_def)

lemma swapped_kept:
  assumes "swap_inv k p"
    and "\<And>i. i < 1024 \<Longrightarrow> sw_used (p_swap_table (procs k ! p) ! i) \<Longrightarrow>
      slot_bytes s (swap_ip k p) i = slot_bytes (fs k) (swap_ip k p) i"
  shows "map_option (slot_bytes s (swap_ip k p)) (first_idx (swap_key v) (p_swap_table (procs k ! p))) = swapped k p v"
proof (cases "first_idx (swap_key v) (p_swap_table (procs k ! p))")
  case (Some i)
  then show ?thesis using swapped_slot [OF assms(1) Some] assms(2) by (simp add: swapped_def)
qed (simp add: swapped_def del: first_idx_None_iff)

lemma swapout_spec:
  assumes inv: "swap_inv k p" and low: "low va" and new: "swapped k p (PGROUNDDOWN va) = None"
    and run: "proc_swapout_page p va pa k = Some (r, k')"
  shows "swap_inv k' p \<and> ph k' = ph k \<and>
     swapped k' p = (if r < 0 then swapped k p else (swapped k p)(PGROUNDDOWN va \<mapsto> mem_bytes (mem (ph k)) pa 4096))"
  using inv run
proof (cases rule: swapout_cases)
  case full
  then show ?thesis using inv by simp
next
  case (failed s)
  have ip: "swap_ip k' p = swap_ip k p" using failed by (simp add: swap_ip_def)
  have kept: "slot_ok s (swap_ip k p) i \<and> slot_bytes s (swap_ip k p) i = slot_bytes (fs k) (swap_ip k p) i"
    if "i < 1024" "sw_used (p_swap_table (procs k ! p) ! i)" for i
    using slots_keptD [OF failed(6), of i] inv that by (simp add: swap_inv_def)
  have "swap_inv k' p" using inv failed kept ip by (simp add: swap_inv_def)
  moreover have "swapped k' p v = swapped k p v" for v
    using swapped_kept [OF inv, of s v] kept failed(2) ip by (simp add: swapped_def)
  ultimately show ?thesis using failed by (simp add: fun_eq_iff)
next
  case (stored slot s)
  let ?t = "p_swap_table (procs k ! p)"
  let ?t' = "?t[slot := \<lparr>sw_va = ucast (PGROUNDDOWN va), sw_slot = int slot, sw_used = True\<rparr>]"
  have p: "p < length (procs k)" and t: "table_ok ?t" using inv by (simp_all add: swap_inv_def)
  have k': "procs k' ! p = (procs k ! p)\<lparr>p_swap_table := ?t', p_num_swapped_pages := p_num_swapped_pages (procs k ! p) + 1,
      p_memstat := p_memstat (procs k' ! p)\<rparr>" "fs k' = s" "ftable k' = ftable k" "ph k' = ph k" "length (procs k') = length (procs k)"
    using stored(9) p by simp_all
  have t': "p_swap_table (procs k' ! p) = ?t'" "p_swapfile (procs k' ! p) = p_swapfile (procs k ! p)" by (subst k'(1), simp)+
  have ip: "swap_ip k' p = swap_ip k p" using k' t' by (simp add: swap_ip_def)
  note s = first_idx_SomeD [OF stored(2)]
  note ta = table_add [OF t stored(2) _ low [unfolded low_def]] 
  have new': "first_idx (swap_key (PGROUNDDOWN va)) ?t = None" using new by (simp only: swapped_none_iff)
  have kept: "slot_ok s (swap_ip k p) i \<and> slot_bytes s (swap_ip k p) i = slot_bytes (fs k) (swap_ip k p) i"
    if "i < 1024" "sw_used (?t ! i)" for i
    using slots_keptD [OF stored(6), of i] inv that s(2) by (auto simp: swap_inv_def)
  have "slot_ok s (swap_ip k p) j" if "j < 1024" "sw_used (?t' ! j)" for j
    using that kept [of j] stored(7) s(1) by (cases "j = slot") auto
  then have "swap_inv k' p"
    using inv stored(3-5) k' t' ip ta(1) [OF new'] by (simp add: swap_inv_def)
  moreover have "swapped k' p v = ((swapped k p)(PGROUNDDOWN va \<mapsto> mem_bytes (mem (ph k)) pa 4096)) v" for v
  proof (cases "v = PGROUNDDOWN va")
    case True
    then show ?thesis using ta(2) [OF new'] stored(8) k' t' ip by (simp add: swapped_def)
  next
    case False
    then show ?thesis
      using ta(3) [OF new' False] swapped_kept [OF inv, of s v] kept k'(2) t' ip by (simp add: swapped_def)
  qed
  ultimately show ?thesis using stored(1) k'(4) by (simp add: fun_eq_iff)
qed

lemma swapin_spec:
  assumes inv: "swap_inv k p" and found: "swapped k p (PGROUNDDOWN va) = Some bs" and s1: "begin_op (fs k) = Some s1"
  shows "\<exists>slot k'. swapin_page p va dst k = Some (int slot, k') \<and> ph k' = mem_put (ph k) dst bs \<and>
     swap_inv k' p \<and> swapped k' p = (swapped k p)(PGROUNDDOWN va := None)"
proof -
  let ?va0 = "PGROUNDDOWN va" and ?ip = "swap_ip k p" and ?t = "p_swap_table (procs k ! p)"
  obtain slot where slot: "first_idx (swap_key ?va0) ?t = Some slot" and bs: "bs = slot_bytes (fs k) ?ip slot"
    using found by (auto simp: swapped_def)
  obtain f where sf: "p_swapfile (procs k ! p) = Some f" using inv by (auto simp: swap_inv_def)
  have ok: "layout_ok (fs k)" "file_inv (fs k) ?ip" "inode_idle (fs k) ?ip" and p: "p < length (procs k)" and t: "table_ok ?t"
    using inv by (simp_all add: swap_inv_def)
  obtain s2 s4 where c: "ilock s1 ?ip = Some s2"
      "readi mem_out s2 (ph k) ?ip dst (slot_off slot) 4096 = Some (4096, s2, mem_put (ph k) dst bs)"
      "iunlock s2 ?ip = Some s4" "disk (end_op s4) = disk (fs k)" "sb (end_op s4) = sb (fs k)" "itable (end_op s4) = itable (fs k)"
    using swap_read [OF ok swapped_slot(3) [OF inv slot] s1, of "ph k" dst] bs by blast
  define k' where "k' = snd (the (swapin_page p va dst k))"
  have run: "swapin_page p va dst k = Some (int slot, k')"
    and k': "fs k' = end_op s4" "ph k' = mem_put (ph k) dst bs" "ftable k' = ftable k" "length (procs k') = length (procs k)"
    and pk': "p_swap_table (procs k' ! p) = ?t[slot := free_slot]" "p_swapfile (procs k' ! p) = Some f"
    unfolding k'_def using slot sf s1 c(1-3) p
    by (simp_all add: swapin_page_def with_fs_def swap_ip_def swap_key_def [abs_def] Let_def)
  have ip: "swap_ip k' p = ?ip" using k' pk' sf by (simp add: swap_ip_def)
  have sv: "slot_ok (end_op s4) ?ip = slot_ok (fs k) ?ip" "slot_bytes (end_op s4) ?ip = slot_bytes (fs k) ?ip"
    using slot_view [of "end_op s4" "fs k" ?ip] c(4-6) by simp_all
  note fv = file_view [of "end_op s4" "fs k" ?ip]
  have "slot_ok (fs k) ?ip j" if "j < 1024" "sw_used (?t[slot := free_slot] ! j)" for j
    using that inv first_idx_SomeD(1) [OF slot] by (cases "j = slot") (auto simp: swap_inv_def free_slot_def)
  then have "swap_inv k' p"
    using inv k' pk' ip sv fv c(4-6) table_remove(1) [OF t slot] by (simp add: swap_inv_def inode_idle_def)
  moreover have "swapped k' p v = ((swapped k p)(?va0 := None)) v" for v
    using table_remove(2,3) [OF t slot] k'(1) pk'(1) ip sv(2) by (simp add: swapped_def del: first_idx_None_iff)
  ultimately show ?thesis using run k'(2) by blast
qed

lemma swapin_Some:
  assumes inv: "swap_inv k p" and run: "swapin_page p va dst k = Some (r, k')" and r: "0 \<le> r"
  obtains bs s1 where "swapped k p (PGROUNDDOWN va) = Some bs" "begin_op (fs k) = Some s1"
proof -
  obtain slot where slot: "first_idx (swap_key (PGROUNDDOWN va)) (p_swap_table (procs k ! p)) = Some slot"
    using run r by (auto simp: swapin_page_def swap_key_def [abs_def] Let_def simp del: first_idx_None_iff split: if_splits option.splits)
  moreover have "begin_op (fs k) \<noteq> None"
    using run r slot by (cases "begin_op (fs k)") (auto simp: swapin_page_def swap_key_def [abs_def] Let_def with_fs_def split: if_splits)
  ultimately show ?thesis using that by (auto simp: swapped_def)
qed

section \<open>A store of pages\<close>

text \<open>
  What a pager may rely on: \<open>out va bs s s'\<close> stores the contents of a page that is not in the
  store, \<open>inn va bs s s'\<close> takes it out, \<open>env s s'\<close> is everything else that may happen in between.
\<close>

datatype page_op = Out u64 "u8 list" | In u64 "u8 list" | Env

locale page_store =
  fixes ok :: "'s \<Rightarrow> bool"
    and pages :: "'s \<Rightarrow> u64 \<rightharpoonup> u8 list"
    and out :: "u64 \<Rightarrow> u8 list \<Rightarrow> 's \<Rightarrow> 's \<Rightarrow> bool"
    and inn :: "u64 \<Rightarrow> u8 list \<Rightarrow> 's \<Rightarrow> 's \<Rightarrow> bool"
    and env :: "'s \<Rightarrow> 's \<Rightarrow> bool"
  assumes out_law: "ok s \<Longrightarrow> pages s va = None \<Longrightarrow> out va bs s s' \<Longrightarrow> ok s' \<and> pages s' = (pages s)(va \<mapsto> bs)"
    and inn_law: "ok s \<Longrightarrow> inn va bs s s' \<Longrightarrow> pages s va = Some bs \<and> ok s' \<and> pages s' = (pages s)(va := None)"
    and env_law: "ok s \<Longrightarrow> env s s' \<Longrightarrow> ok s' \<and> pages s' = pages s"
begin

fun runs :: "page_op list \<Rightarrow> 's \<Rightarrow> 's \<Rightarrow> bool" where
  "runs [] s s' \<longleftrightarrow> s' = s"
| "runs (Out va bs # ops) s s' \<longleftrightarrow> pages s va = None \<and> (\<exists>t. out va bs s t \<and> runs ops t s')"
| "runs (In va bs # ops) s s' \<longleftrightarrow> (\<exists>t. inn va bs s t \<and> runs ops t s')"
| "runs (Env # ops) s s' \<longleftrightarrow> (\<exists>t. env s t \<and> runs ops t s')"

lemma runs_append: "runs (xs @ ys) s s' \<longleftrightarrow> (\<exists>t. runs xs s t \<and> runs ys t s')"
  by (induction xs s s' rule: runs.induct) auto

lemma runs_other:
  assumes "runs ops s s'" "ok s" "\<forall>bs. Out va bs \<notin> set ops \<and> In va bs \<notin> set ops"
  shows "ok s' \<and> pages s' va = pages s va"
  using assms
proof (induction ops s s' rule: runs.induct)
  case (2 va' bs ops s s')
  then obtain t where t: "out va' bs s t" "runs ops t s'" by auto
  with "2.prems" out_law [of s va' bs t] have "ok t" "pages t va = pages s va" by auto
  then show ?case using "2.IH" t "2.prems" by auto
next
  case (3 va' bs ops s s')
  then obtain t where t: "inn va' bs s t" "runs ops t s'" by auto
  with "3.prems" inn_law [of s va' bs t] have "ok t" "pages t va = pages s va" by auto
  then show ?case using "3.IH" t "3.prems" by auto
next
  case (4 ops s s')
  then obtain t where t: "env s t" "runs ops t s'" by auto
  with "4.prems" env_law [of s t] have "ok t" "pages t va = pages s va" by auto
  then show ?case using "4.IH" t "4.prems" by auto
qed simp

lemma roundtrip:
  assumes "runs (Out va bs # ops @ [In va bs']) s s'" "ok s" "\<forall>bs. Out va bs \<notin> set ops \<and> In va bs \<notin> set ops"
  shows "bs' = bs \<and> ok s'"
proof -
  obtain t u where t: "out va bs s t" "pages s va = None" and u: "runs ops t u" and i: "inn va bs' u s'"
    using assms(1) by (auto simp: runs_append)
  have "ok t" "pages t va = Some bs" using out_law [OF assms(2) t(2,1)] by auto
  with runs_other [OF u _ assms(3)] have "ok u" "pages u va = Some bs" by auto
  with inn_law [OF _ i] show ?thesis by auto
qed

end

text \<open>
  The swap file of process \<open>p\<close>: a page goes out from some frame, comes back into some frame, and
  in between memory may change in any way.
\<close>

definition swap_out :: "nat \<Rightarrow> u64 \<Rightarrow> u8 list \<Rightarrow> kernel \<Rightarrow> kernel \<Rightarrow> bool" where
  "swap_out p va bs k k' \<longleftrightarrow> page_aligned va \<and> low va \<and>
     (\<exists>pa r. proc_swapout_page p va pa k = Some (r, k') \<and> 0 \<le> r \<and> bs = mem_bytes (mem (ph k)) pa 4096)"

definition swap_in :: "nat \<Rightarrow> u64 \<Rightarrow> u8 list \<Rightarrow> kernel \<Rightarrow> kernel \<Rightarrow> bool" where
  "swap_in p va bs k k' \<longleftrightarrow> page_aligned va \<and>
     (\<exists>dst r. swapin_page p va dst k = Some (r, k') \<and> 0 \<le> r \<and> bs = mem_bytes (mem (ph k')) dst 4096)"

definition mem_env :: "kernel \<Rightarrow> kernel \<Rightarrow> bool" where
  "mem_env k k' \<longleftrightarrow> (\<exists>m. k' = k\<lparr>ph := m\<rparr>)"

interpretation swp: page_store "\<lambda>k. swap_inv k p" "\<lambda>k. swapped k p" "swap_out p" "swap_in p" mem_env for p
proof
  fix k va bs k' assume i: "swap_inv k p"
  show "swapped k p va = None \<Longrightarrow> swap_out p va bs k k' \<Longrightarrow> swap_inv k' p \<and> swapped k' p = (swapped k p)(va \<mapsto> bs)"
    using swapout_spec [OF i, of va] by (auto simp: swap_out_def)
  show "swapped k p va = Some bs \<and> swap_inv k' p \<and> swapped k' p = (swapped k p)(va := None)" if "swap_in p va bs k k'"
  proof -
    obtain dst r where run: "swapin_page p va dst k = Some (r, k')" "0 \<le> r" and bs: "bs = mem_bytes (mem (ph k')) dst 4096"
      and va: "PGROUNDDOWN va = va" using \<open>swap_in p va bs k k'\<close> by (auto simp: swap_in_def)
    obtain bs' s1 where f: "swapped k p va = Some bs'" "begin_op (fs k) = Some s1"
      using swapin_Some [OF i run] va by auto
    have "ph k' = mem_put (ph k) dst bs'" "swap_inv k' p" "swapped k' p = (swapped k p)(va := None)"
      using swapin_spec [OF i, of va bs' s1 dst] f run(1) va by auto
    moreover have "length bs' = 4096" using f(1) by (auto simp: swapped_def)
    ultimately show ?thesis using f(1) bs mem_bytes_put [of bs' "ph k" dst] by simp
  qed
  show "mem_env k k' \<Longrightarrow> swap_inv k' p \<and> swapped k' p = swapped k p"
  proof -
    assume "mem_env k k'"
    then have e: "fs k' = fs k" "procs k' = procs k" "ftable k' = ftable k" by (auto simp: mem_env_def)
    then have "swap_ip k' p = swap_ip k p" by (simp add: swap_ip_def)
    then show ?thesis using i e by (simp add: swap_inv_def swapped_def [abs_def])
  qed
qed

end
