(* ===== verification/Swapprops.thy ===== *)
theory Swapprops
  imports Swapspec
begin

text \<open>
  The properties of the swap files: the contents survive a swap-out and swap-in, a stored page can
  always be read back, and how many pages a file holds.
\<close>

section \<open>Properties\<close>

fun swap_trace :: "nat \<Rightarrow> page_op list \<Rightarrow> kernel \<Rightarrow> kernel \<Rightarrow> bool" where
  "swap_trace p [] k k' \<longleftrightarrow> k' = k"
| "swap_trace p (Out va bs # ops) k k' \<longleftrightarrow> swapped k p va = None \<and> (\<exists>k1. swap_out p va bs k k1 \<and> swap_trace p ops k1 k')"
| "swap_trace p (In va bs # ops) k k' \<longleftrightarrow> (\<exists>k1. swap_in p va bs k k1 \<and> swap_trace p ops k1 k')"
| "swap_trace p (Env # ops) k k' \<longleftrightarrow> (\<exists>k1. mem_env k k1 \<and> swap_trace p ops k1 k')"

lemma swap_trace_runs: "swap_trace p ops k k' \<longleftrightarrow> swp.runs p ops k k'"
  by (induction p ops k k' rule: swap_trace.induct) auto

text \<open>
  C4: a page that is swapped out and later swapped in comes back with the contents it had. Between
  the two, any pages of other addresses may be swapped out and in, and memory, including the frame
  the page was in, may change arbitrarily; the process must not swap out the same address twice.
\<close>

theorem swap_roundtrip:
  assumes "swap_inv k p"
    and "swap_trace p (Out va bs # ops @ [In va bs']) k k'"
    and "\<forall>bs. Out va bs \<notin> set ops \<and> In va bs \<notin> set ops"
  shows "bs' = bs \<and> swap_inv k' p"
  using swp.roundtrip assms by (simp only: swap_trace_runs)

text \<open>
  C16: a page in the swap file can always be brought back. When the log admits a transaction,
  \<open>swapin_page\<close> returns the slot, the frame receives the stored contents, no other memory changes,
  the slot is free again and every other page of the file is as it was.
\<close>

theorem swapin_delivers:
  assumes "swap_inv k p" "swapped k p (PGROUNDDOWN va) = Some bs" "begin_op (fs k) = Some s1"
  shows "\<exists>slot k'. swapin_page p va dst k = Some (int slot, k') \<and>
     mem_bytes (mem (ph k')) dst 4096 = bs \<and> (\<forall>a. 4096 \<le> unat (a - dst) \<longrightarrow> mem (ph k') a = mem (ph k) a) \<and>
     swap_inv k' p \<and> swapped k' p = (swapped k p)(PGROUNDDOWN va := None)"
proof -
  have "length bs = 4096" using assms(2) by (auto simp: swapped_def)
  then have "mem_bytes (mem (mem_put (ph k) dst bs)) dst 4096 = bs"
    "4096 \<le> unat (a - dst) \<Longrightarrow> mem (mem_put (ph k) dst bs) a = mem (ph k) a" for a
    using mem_bytes_put [of bs "ph k" dst] by (simp_all add: mem_put_def store_bytes_def)
  then show ?thesis using swapin_spec [OF assms, of dst] by auto
qed

section \<open>Capacity\<close>

abbreviation swap_tab :: "kernel \<Rightarrow> nat \<Rightarrow> swap_entry list" where
  "swap_tab k p \<equiv> p_swap_table (procs k ! p)"

text \<open>A sequence of swap-outs of one process, with their results.\<close>

fun swapouts :: "nat \<Rightarrow> (u64 \<times> u64) list \<Rightarrow> kernel \<Rightarrow> (int list \<times> kernel) option" where
  "swapouts p [] k = Some ([], k)"
| "swapouts p ((va, pa) # reqs) k = do {
     (r, k1) \<leftarrow> proc_swapout_page p va pa k;
     (rs, k2) \<leftarrow> swapouts p reqs k1;
     Some (r # rs, k2)
   }"

lemma swapfile_create_tab:
  assumes "swapfile_create p k = Some (r, k')" "p < length (procs k)"
  shows "length (procs k') = length (procs k)" "swap_tab k' p = swap_tab k p"
  using assms unfolding swapfile_create_def
  by (auto simp: bind_eq_Some_conv Let_def with_fs_def with_fs_ret_def k_end_op_def filealloc_def upd_file_def
      split: if_split_asm option.split_asm prod.split_asm)

text \<open>A whole page fits in the file only in the slots below 67.\<close>

lemma writei_slot:
  assumes "writei cp s e ip src (slot_off slot) 4096 = Some (4096, s', e')" "slot < MAX_SWAP_PAGES"
  shows "slot < 67"
proof -
  have off: "unat (slot_off slot) = slot * 4096"
    using assms(2) by (simp add: slot_off_def unat_word_ariths unat_of_nat)
  then have "unat (slot_off slot + 4096) = slot * 4096 + 4096"
    using assms(2) by (simp add: unat_word_ariths)
  then show ?thesis using assms(1) by (simp add: writei_def split: if_split_asm)
qed

lemma swapout_slot:
  assumes run: "proc_swapout_page p va pa k = Some (r, k')" and p: "p < length (procs k)" and len: "length (swap_tab k p) = MAX_SWAP_PAGES"
  shows "length (procs k') = length (procs k) \<and> (r = -1 \<and> swap_tab k' p = swap_tab k p
     \<or> (\<exists>j < 67. r = int j \<and> \<not> sw_used (swap_tab k p ! j) \<and> swap_tab k' p = (swap_tab k p)[j := \<lparr>sw_va = ucast (PGROUNDDOWN va), sw_slot = int j, sw_used = True\<rparr>]))"
proof -
  obtain r0 k0 where k0: "(if p_swapfile (procs k ! p) = None then swapfile_create p k else Some (0, k)) = Some (r0, k0)"
    and fin: "(if r0 < 0 then Some (-1, k0) else case first_idx (\<lambda>e. \<not> sw_used e) (swap_tab k0 p) of
       None \<Rightarrow> Some (-1, k0)
     | Some slot \<Rightarrow> do {
         k1 \<leftarrow> with_fs begin_op k0;
         k2 \<leftarrow> with_fs (\<lambda>s. ilock s (swap_ip k1 p)) k1;
         (n, s, m) \<leftarrow> writei mem_in (fs k2) (ph k2) (swap_ip k2 p) pa (slot_off slot) 4096;
         k3 \<leftarrow> with_fs (\<lambda>s. iunlock s (swap_ip k2 p)) (k2\<lparr>fs := s, ph := m\<rparr>);
         let k4 = k_end_op k3;
         if n \<noteq> 4096 then Some (-1, k4)
         else Some (int slot, upd_proc p (\<lambda>p. p\<lparr>
                p_swap_table := (p_swap_table p)[slot := \<lparr>sw_va = ucast (PGROUNDDOWN va), sw_slot = int slot, sw_used = True\<rparr>],
                p_num_swapped_pages := p_num_swapped_pages p + 1,
                p_memstat := set_page_entry (PGROUNDDOWN va)
                  (\<lambda>e. e\<lparr>ps_state := SWAPPED, ps_slot := int slot, ps_dirty := False\<rparr>) (p_memstat p)\<rparr>) k4)
       }) = Some (r, k')"
    using run unfolding proc_swapout_page_def by (auto simp only: bind_eq_Some_conv split_paired_Ex prod.case)
  have t: "length (procs k0) = length (procs k)" "swap_tab k0 p = swap_tab k p"
    using k0 swapfile_create_tab [OF _ p] by (auto split: if_split_asm)
  show ?thesis
  proof (cases "first_idx (\<lambda>e. \<not> sw_used e) (swap_tab k p)")
    case None
    then show ?thesis using fin t by (auto split: if_split_asm simp del: first_idx_None_iff)
  next
    case (Some slot)
    note s = first_idx_SomeD [OF Some]
    show ?thesis
    proof (cases "r0 < 0")
      case False
      obtain k1 k2 n s1 m k3 where c: "with_fs begin_op k0 = Some k1" "with_fs (\<lambda>s. ilock s (swap_ip k1 p)) k1 = Some k2"
          "writei mem_in (fs k2) (ph k2) (swap_ip k2 p) pa (slot_off slot) 4096 = Some (n, s1, m)"
          "with_fs (\<lambda>s. iunlock s (swap_ip k2 p)) (k2\<lparr>fs := s1, ph := m\<rparr>) = Some k3"
        and res: "(if n \<noteq> 4096 then Some (-1, k_end_op k3)
         else Some (int slot, upd_proc p (\<lambda>p. p\<lparr>
                p_swap_table := (p_swap_table p)[slot := \<lparr>sw_va = ucast (PGROUNDDOWN va), sw_slot = int slot, sw_used = True\<rparr>],
                p_num_swapped_pages := p_num_swapped_pages p + 1,
                p_memstat := set_page_entry (PGROUNDDOWN va)
                  (\<lambda>e. e\<lparr>ps_state := SWAPPED, ps_slot := int slot, ps_dirty := False\<rparr>) (p_memstat p)\<rparr>) (k_end_op k3))) = Some (r, k')"
        using fin False unfolding t(2) Some by (auto simp only: if_False option.case bind_eq_Some_conv Let_def split_paired_Ex prod.case)
      have k3: "procs k3 = procs k0" using c(1,2,4) by (auto simp: with_fs_def)
      show ?thesis
      proof (cases "n = 4096")
        case True
        then have "slot < 67" using writei_slot [of mem_in "fs k2" "ph k2" "swap_ip k2 p" pa slot s1 m] c(3) s(1) len by simp
        then show ?thesis using res True t p k3 s(2) by auto
      qed (use res t k3 in auto)
    qed (use fin t in simp)
  qed
qed

definition used_slots :: "kernel \<Rightarrow> nat \<Rightarrow> nat" where
  "used_slots k p = card {j. j < 67 \<and> sw_used (swap_tab k p ! j)}"

lemma used_slots_step:
  assumes run: "proc_swapout_page p va pa k = Some (r, k')" and p: "p < length (procs k)" and len: "length (swap_tab k p) = MAX_SWAP_PAGES"
  shows "-1 \<le> r \<and> r < 67" "used_slots k' p = used_slots k p + (if 0 \<le> r then 1 else 0)"
    "p < length (procs k')" "length (swap_tab k' p) = MAX_SWAP_PAGES"
proof -
  consider "r = -1" "swap_tab k' p = swap_tab k p"
    | j where "j < 67" "r = int j" "\<not> sw_used (swap_tab k p ! j)" "swap_tab k' p = (swap_tab k p)[j := \<lparr>sw_va = ucast (PGROUNDDOWN va), sw_slot = int j, sw_used = True\<rparr>]"
    using swapout_slot [OF assms] by blast
  then have "(-1 \<le> r \<and> r < 67) \<and> used_slots k' p = used_slots k p + (if 0 \<le> r then 1 else 0) \<and> length (swap_tab k' p) = MAX_SWAP_PAGES"
  proof cases
    case 1
    then show ?thesis using len by (simp add: used_slots_def)
  next
    case (2 j)
    then have "{i. i < 67 \<and> sw_used (swap_tab k' p ! i)} = insert j {i. i < 67 \<and> sw_used (swap_tab k p ! i)}"
      using len by (auto simp: nth_list_update)
    then show ?thesis using 2 len by (simp add: used_slots_def)
  qed
  then show "-1 \<le> r \<and> r < 67" "used_slots k' p = used_slots k p + (if 0 \<le> r then 1 else 0)" "length (swap_tab k' p) = MAX_SWAP_PAGES"
    by blast+
  show "p < length (procs k')" using swapout_slot [OF assms] p by simp
qed

text \<open>
  C17: a process's swap file takes at most 67 pages, whatever \<open>MAX_SWAP_PAGES\<close> (1024) says. In any
  sequence of swap-outs, whatever the state of the file, each returns -1 or a slot below 67, and the
  number that succeed and the slots below 67 in use before are together at most 67: with these in
  use, every further swap-out fails. (A slot is written at its index times the page size, and a file
  has at most 268 blocks of 1024 bytes.)
\<close>

theorem swap_capacity:
  assumes "p < length (procs k)" and "length (p_swap_table (procs k ! p)) = MAX_SWAP_PAGES"
    and "swapouts p reqs k = Some (rs, k')"
  shows "(\<forall>r \<in> set rs. -1 \<le> r \<and> r < 67)
     \<and> length (filter (\<lambda>r. 0 \<le> r) rs) + card {j. j < 67 \<and> sw_used (p_swap_table (procs k ! p) ! j)} \<le> 67"
proof -
  have "(\<forall>r \<in> set rs. -1 \<le> r \<and> r < 67) \<and> length (filter (\<lambda>r. 0 \<le> r) rs) + used_slots k p = used_slots k' p"
    using assms
  proof (induction p reqs k arbitrary: rs rule: swapouts.induct)
    case (2 p va pa reqs k)
    obtain r k1 rs1 where s: "proc_swapout_page p va pa k = Some (r, k1)" "swapouts p reqs k1 = Some (rs1, k')" "rs = r # rs1"
      using 2(4) by (auto simp: bind_eq_Some_conv)
    note u = used_slots_step [OF s(1) 2(2,3)]
    show ?case using 2(1) [OF s(1) refl u(3,4) s(2)] u(1,2) s(3) by auto
  qed simp
  moreover have "used_slots k' p \<le> card {..<67::nat}"
    unfolding used_slots_def by (rule card_mono) auto
  ultimately show ?thesis by (simp add: used_slots_def)
qed

section \<open>Witnesses\<close>

definition a_file :: kfile where
  "a_file = \<lparr>f_type = FD_INODE, f_ref = 1, f_readable = True, f_writable = True, f_pipe = 0, f_ip = 0, f_off = 0, f_major = 0\<rparr>"

definition no_seg :: seginfo where
  "no_seg = \<lparr>text_start = 0, text_end = 0, data_start = 0, data_end = 0, heap_start = 0, stack_top = 0,
     text_off = 0, text_filesz = 0, text_memsz = 0, text_flags = 0, data_off = 0, data_filesz = 0, data_memsz = 0, data_flags = 0\<rparr>"

definition no_cnt :: vmcount where
  "no_cnt = \<lparr>pagefault_count = 0, resident_pages = 0, swapped_pages = 0, swapin_count = 0, swapout_count = 0\<rparr>"

definition no_cons :: console where
  "no_cons = \<lparr>cons_buf = replicate INPUT_BUF_SIZE 0, cons_r = 0, cons_w = 0, cons_e = 0, uart_out = []\<rparr>"

text \<open>A process with an open swap file of one page, kept in slot 0 for address \<open>v\<close> when \<open>u\<close> is set.\<close>

definition swap_proc :: "bool \<Rightarrow> proc" where
  "swap_proc u = \<lparr>p_state = RUNNING, p_chan = NoChan, p_killed = False, p_xstate = 0, p_pid = 3, p_parent = None, p_kstack = 0,
     p_sz = 0x10000, p_pagetable = 0, p_trapframe = 0, p_ofile = [], p_cwd = None, p_name = [], p_swapfile = Some 0,
     p_swap_table = \<lparr>sw_va = 0x5000, sw_slot = 0, sw_used = u\<rparr> # replicate 1023 free_slot, p_num_swapped_pages = 0,
     p_memstat = fresh_memstat, p_seg = no_seg, p_cnt = no_cnt, exec_ip = None, vmtrace = True\<rparr>"

definition swap_fs :: "u32 \<Rightarrow> fsys" where
  "swap_fs sz = \<lparr>sb = \<lparr>magic = FSMAGIC, sb_size = 7, nblocks = 4, ninodes = 1, nlog = 0, logstart = 0, inodestart = 1, bmapstart = 2\<rparr>,
     disk = (\<lambda>b k. if b = 2 \<and> k = 0 then 127 else 9), lh_block = [], outstanding = 0,
     itable = [\<lparr>i_dev = 1, i_inum = 0, i_ref = 1, i_locked = False, i_valid = True, i_type = T_FILE, i_major = 0, i_minor = 0,
                i_nlink = 1, i_size = sz, i_addrs = [3, 4, 5, 6] @ replicate 9 0\<rparr>]\<rparr>"

definition swap_kernel :: "bool \<Rightarrow> u32 \<Rightarrow> kernel" where
  "swap_kernel u sz = \<lparr>ph = small_mem, fs = swap_fs sz, ftable = [a_file], pipes = (\<lambda>_. None), procs = [swap_proc u], cur = 0,
     nextpid = 4, initproc = 0, ticks = 0, cons = no_cons, klog = []\<rparr>"

lemma below_seven: "b < 7 \<Longrightarrow> b = 0 \<or> b = 1 \<or> b = 2 \<or> b = 3 \<or> b = 4 \<or> b = 5 \<or> b = (6::u32)"
  by unat_arith

lemma below_four_nat: "bn < 4 \<Longrightarrow> bn = 0 \<or> bn = 1 \<or> bn = 2 \<or> bn = (3::nat)"
  by linarith

lemma swap_fs_baddr: "bn < MAXFILE \<Longrightarrow> baddr (swap_fs sz) 0 bn = (if bn < 4 then of_nat bn + 3 else 0)"
proof -
  consider "bn = 0" | "bn = 1" | "bn = 2" | "bn = 3" | "4 \<le> bn" by linarith
  then show ?thesis by cases (auto simp: baddr_def swap_fs_def Let_def nth_Cons' nth_append)
qed

lemma swap_fs_blocks:
  assumes "bn < 4"
  shows "of_nat bn + 3 \<noteq> (0 :: u32)" "data_ok (swap_fs sz) (of_nat bn + 3)" "bm < 4 \<Longrightarrow> of_nat bn + 3 = (of_nat bm + 3 :: u32) \<Longrightarrow> bn = bm"
proof -
  have d: "data_ok (swap_fs sz) b" if "b \<in> {3, 4, 5, 6}" for b
    using that by (auto simp: data_ok_def marked_def meta_def IBLOCK_def BBLOCK_def swap_fs_def dest: below_seven)
  show "of_nat bn + 3 \<noteq> (0 :: u32)" using below_four_nat [OF assms] by (elim disjE) simp_all
  show "data_ok (swap_fs sz) (of_nat bn + 3)" using below_four_nat [OF assms] by (elim disjE) (simp_all add: d)
  show "of_nat bn + 3 = (of_nat bm + 3 :: u32) \<Longrightarrow> bn = bm" if "bm < 4"
    using below_four_nat [OF assms] below_four_nat [OF that] by (elim disjE) simp_all
qed

lemma swap_fs_ok: "layout_ok (swap_fs sz)" "file_inv (swap_fs sz) 0" "inode_idle (swap_fs sz) 0"
proof -
  show "layout_ok (swap_fs sz)"
    by (auto simp: layout_ok_def marked_def meta_def IBLOCK_def BBLOCK_def swap_fs_def dest: below_seven)
  have "bmap_ok (swap_fs sz) 0 (baddr (swap_fs sz) 0)"
    unfolding bmap_ok_def using swap_fs_blocks by (auto simp: swap_fs_baddr split: if_splits)
  moreover have "iaddr (swap_fs sz) 0 = 0" by (simp add: swap_fs_def)
  ultimately show "file_inv (swap_fs sz) 0"
    by (simp add: file_inv_def swap_fs_def)
  show "inode_idle (swap_fs sz) 0" by (simp add: inode_idle_def swap_fs_def)
qed

lemma swap_fs_slot: "slot_ok (swap_fs 4096) 0 0" "slot_bytes (swap_fs sz) 0 0 = replicate 4096 9"
proof -
  show "slot_ok (swap_fs 4096) 0 0"
    using swap_fs_blocks(1) by (simp add: slot_ok_def swap_fs_baddr) (simp add: swap_fs_def)
  have "fbyte (swap_fs sz) 0 k = 9" if "k < 4096" for k
  proof -
    define i where "i = k div BSIZE"
    have "i < 4" unfolding i_def using that by (intro less_mult_imp_div_less) simp
    moreover have "of_nat i + 3 \<noteq> (2 :: u32)" using below_four_nat [OF \<open>i < 4\<close>] by (elim disjE) simp_all
    ultimately show ?thesis using swap_fs_blocks(1) [of i]
      by (simp add: fbyte_def swap_fs_baddr flip: i_def) (simp add: swap_fs_def)
  qed
  then show "slot_bytes (swap_fs sz) 0 0 = replicate 4096 9"
    by (intro nth_equalityI) (simp_all add: slot_bytes_def)
qed

lemma swap_kernel_inv:
  assumes "u \<Longrightarrow> sz = 4096"
  shows "swap_inv (swap_kernel u sz) 0"
    "swapped (swap_kernel u sz) 0 va = (if u \<and> va = 0x5000 then Some (replicate 4096 9) else None)"
proof -
  have ip: "swap_ip (swap_kernel u sz) 0 = 0" by (simp add: swap_ip_def swap_kernel_def swap_proc_def a_file_def)
  have free: "\<not> sw_used (replicate 1023 free_slot ! j)" if "j < 1023" for j using that by (simp add: free_slot_def)
  have t: "table_ok (\<lparr>sw_va = v, sw_slot = 0, sw_used = u\<rparr> # replicate 1023 free_slot)" for v
    using free by (auto simp: table_ok_def nth_Cons split: nat.splits)
  have s: "slot_ok (swap_fs sz) 0 0" if u using assms [OF that] swap_fs_slot(1) by simp
  have "sw_used (p_swap_table (swap_proc u) ! j) \<Longrightarrow> slot_ok (swap_fs sz) 0 j" if "j < 1024" for j
    using that s free [of "j - 1"] by (auto simp: swap_proc_def nth_Cons split: nat.splits)
  then show "swap_inv (swap_kernel u sz) 0"
    using ip t swap_fs_ok by (simp add: swap_inv_def swap_kernel_def swap_proc_def)
  have "first_idx (swap_key va) (p_swap_table (swap_proc u)) = (if u \<and> va = 0x5000 then Some 0 else None)"
    by (auto simp: swap_proc_def swap_key_def free_slot_def)
  then show "swapped (swap_kernel u sz) 0 va = (if u \<and> va = 0x5000 then Some (replicate 4096 9) else None)"
    using ip swap_fs_slot(2) by (simp add: swapped_def swap_kernel_def del: first_idx_None_iff)
qed


lemma swap_fs_write:
  assumes "begin_op (swap_fs 0) = Some s1" "ilock s1 0 = Some s2"
  shows "\<exists>s3 s4. writei mem_in s2 m 0 pa 0 4096 = Some (4096, s3, m) \<and> iunlock s3 0 = Some s4 \<and>
     (\<exists>s5. begin_op (end_op s4) = Some s5)"
proof -
  have s2: "s2 = (swap_fs 0)\<lparr>outstanding := 1, itable := [(itable (swap_fs 0) ! 0)\<lparr>i_locked := True\<rparr>]\<rparr>"
    using assms by (auto simp: begin_op_def ilock_def upd_inode_def Let_def swap_fs_def)
  show ?thesis
    unfolding writei_def s2
    by (subst writei_loop.simps, subst writei_loop.simps, subst writei_loop.simps, subst writei_loop.simps, subst writei_loop.simps)
      (simp add: Let_def chunk_def mem_in_def swap_fs_def bmap_def log_write_def set_block_def iupdate_def upd_inode_def iunlock_def begin_op_def end_op_def)
qed

lemma swap_first_out:
  assumes "fs k = swap_fs 0" "ftable k = [a_file]" "procs k = [q]" "p_swapfile q = Some 0"
    "p_swap_table q = p_swap_table (swap_proc False)"
  shows "\<exists>k1 s5. proc_swapout_page 0 va pa k = Some (0, k1) \<and> begin_op (fs k1) = Some s5"
proof -
  have ip: "f_ip (ftable k ! 0) = 0" and k: "first_idx (\<lambda>e. \<not> sw_used e) (p_swap_table (procs k ! 0)) = Some 0" "length (procs k) = 1"
    using assms by (simp_all add: swap_proc_def a_file_def)
  obtain s1 where s1: "begin_op (swap_fs 0) = Some s1" by (auto simp: begin_op_def swap_fs_def)
  then have "inode_idle s1 0" using swap_fs_ok(3) [of 0] begin_op_Some [OF s1] by (simp add: inode_idle_def)
  then obtain s2 where s2: "ilock s1 0 = Some s2" using ilock_idle by blast
  obtain s3 s4 s5 where c: "writei mem_in s2 (ph k) 0 pa 0 4096 = Some (4096, s3, ph k)" "iunlock s3 0 = Some s4"
      "begin_op (end_op s4) = Some s5"
    using swap_fs_write [OF s1 s2, of "ph k" pa] by blast
  show ?thesis
    using s1 s2 c k ip assms by (simp add: proc_swapout_page_def with_fs_def swap_ip_def slot_off_def Let_def)
qed

lemma swap_kernel_out:
  "\<exists>k1 s5. proc_swapout_page 0 0x5000 0x1000 (swap_kernel False 0) = Some (0, k1) \<and> begin_op (fs k1) = Some s5"
  by (rule swap_first_out [where q = "swap_proc False"]) (simp_all add: swap_kernel_def swap_proc_def)

theorem swap_roundtrip_witness:
  "\<exists>k' bs'. swap_trace 0 [Out 0x5000 (mem_bytes (mem small_mem) 0x1000 4096), Env, In 0x5000 bs'] (swap_kernel False 0) k' \<and>
     bs' = mem_bytes (mem small_mem) 0x1000 4096 \<and> swap_inv k' 0"
proof -
  let ?k = "swap_kernel False 0" and ?bs = "mem_bytes (mem small_mem) 0x1000 4096" and ?m = "small_mem\<lparr>mem := \<lambda>_. 0\<rparr>"
  have va: "page_aligned 0x5000" "PGROUNDDOWN 0x5000 = 0x5000" "low 0x5000"
    by (simp_all add: page_aligned_def low_def PGROUNDDOWN_def)
  note i = swap_kernel_inv [of False 0, simplified]
  obtain k1 s5 where k1: "proc_swapout_page 0 0x5000 0x1000 ?k = Some (0, k1)" "begin_op (fs k1) = Some s5"
    using swap_kernel_out by blast
  have ph: "ph ?k = small_mem" by (simp add: swap_kernel_def)
  have o: "swap_inv k1 0" "swapped k1 0 0x5000 = Some ?bs"
    using swapout_spec [OF i(1) va(3) _ k1(1)] i(2) va(2) ph by auto
  have e: "mem_env k1 (k1\<lparr>ph := ?m\<rparr>)" by (auto simp: mem_env_def)
  have oe: "swap_inv (k1\<lparr>ph := ?m\<rparr>) 0" "swapped (k1\<lparr>ph := ?m\<rparr>) 0 0x5000 = Some ?bs"
    using swp.env_law [OF o(1) e] o(2) by simp_all
  obtain slot k2 where k2: "swapin_page 0 0x5000 0x8000 (k1\<lparr>ph := ?m\<rparr>) = Some (int slot, k2)" 
    using swapin_spec [OF oe(1), of "0x5000" ?bs s5 "0x8000"] oe(2) k1(2) va(2) by auto
  have "swap_out 0 0x5000 ?bs ?k k1" unfolding swap_out_def using k1(1) va ph by auto
  moreover have "swap_in 0 0x5000 (mem_bytes (mem (ph k2)) 0x8000 4096) (k1\<lparr>ph := ?m\<rparr>) k2"
    unfolding swap_in_def using k2 va(1) by (intro conjI exI [of _ "0x8000"] exI [of _ "int slot"]) simp_all
  ultimately have tr: "swap_trace 0 (Out 0x5000 ?bs # [Env] @ [In 0x5000 (mem_bytes (mem (ph k2)) 0x8000 4096)]) ?k k2"
    using e i(2) by auto
  have "mem_bytes (mem (ph k2)) 0x8000 4096 = ?bs \<and> swap_inv k2 0"
    by (rule swap_roundtrip [OF i(1) tr]) simp
  then show ?thesis using tr by (intro exI [of _ k2] exI [of _ ?bs]) simp
qed

theorem swapin_delivers_witness:
  "\<exists>slot k'. swapin_page 0 0x5abc 0x8000 (swap_kernel True 4096) = Some (int slot, k') \<and>
     mem_bytes (mem (ph k')) 0x8000 4096 = replicate 4096 9 \<and> swapped k' 0 0x5000 = None"
proof -
  have va: "PGROUNDDOWN 0x5abc = 0x5000" by (simp add: PGROUNDDOWN_def)
  note i = swap_kernel_inv [of True 4096, simplified]
  obtain s1 where "begin_op (fs (swap_kernel True 4096)) = Some s1" by (auto simp: begin_op_def swap_kernel_def swap_fs_def)
  then show ?thesis using swapin_delivers [OF i(1), of "0x5abc" "replicate 4096 9" s1 "0x8000"] i(2) va by auto
qed

text \<open>A process whose swap file has 67 pages, all in use: the next swap-out fails.\<close>

definition full_kernel :: kernel where
  "full_kernel = (swap_kernel False 274432)\<lparr>procs := [(swap_proc False)\<lparr>p_swap_table :=
     replicate 67 \<lparr>sw_va = 0x5000, sw_slot = 0, sw_used = True\<rparr> @ replicate 957 free_slot\<rparr>]\<rparr>"

lemma full_kernel_out: "\<exists>r k'. swapouts 0 [(0x5000, 0x1000)] full_kernel = Some ([r], k')"
proof -
  let ?s = "swap_fs 274432"
  have k: "fs full_kernel = ?s" "p_swapfile (procs full_kernel ! 0) = Some 0" "ftable full_kernel = [a_file]"
    by (simp_all add: full_kernel_def swap_kernel_def swap_proc_def)
  have f: "first_idx (\<lambda>e. \<not> sw_used e) (p_swap_table (procs full_kernel ! 0)) = Some 67"
    by (auto simp: first_idx_Some_iff full_kernel_def free_slot_def nth_append)
  obtain s1 where s1: "begin_op ?s = Some s1" by (auto simp: begin_op_def swap_fs_def)
  then obtain s2 where s2: "ilock s1 0 = Some s2" 
    using swap_fs_ok(3) [of 274432] begin_op_Some [OF s1] ilock_idle [of s1 0] by (auto simp: inode_idle_def)
  have s2': "s2 = ?s\<lparr>outstanding := 1, itable := [(itable ?s ! 0)\<lparr>i_locked := True\<rparr>]\<rparr>"
    using s1 s2 by (auto simp: begin_op_def ilock_def upd_inode_def Let_def swap_fs_def)
  have w: "writei mem_in s2 m 0 0x1000 (slot_off 67) 4096 = Some (-1, s2, m)" for m
    by (simp add: writei_def slot_off_def s2' swap_fs_def)
  obtain s4 where "iunlock s2 0 = Some s4" by (auto simp: iunlock_def s2' swap_fs_def)
  then show ?thesis
    using s1 s2 w k f by (simp add: proc_swapout_page_def with_fs_def swap_ip_def a_file_def Let_def)
qed

theorem swap_capacity_witness:
  "\<exists>k'. swapouts 0 [(0x5000, 0x1000)] full_kernel = Some ([-1], k')"
proof -
  obtain r k' where r: "swapouts 0 [(0x5000, 0x1000)] full_kernel = Some ([r], k')"
    using full_kernel_out by blast
  have "p_swap_table (procs full_kernel ! 0) = replicate 67 \<lparr>sw_va = 0x5000, sw_slot = 0, sw_used = True\<rparr> @ replicate 957 free_slot"
    by (simp add: full_kernel_def)
  then have "{j. j < 67 \<and> sw_used (p_swap_table (procs full_kernel ! 0) ! j)} = {..<67}" "length (p_swap_table (procs full_kernel ! 0)) = MAX_SWAP_PAGES"
    by (auto simp: nth_append)
  then have "-1 \<le> r \<and> r < 67" "length (filter (\<lambda>r. 0 \<le> r) [r]) + 67 \<le> 67"
    using swap_capacity [of 0 full_kernel "[(0x5000, 0x1000)]" "[r]" k'] r by (simp_all add: full_kernel_def)
  then have "r = -1" by (simp split: if_split_asm)
  then show ?thesis using r by blast
qed

end
