(* ===== verification/Pager.thy ===== *)
theory Pager
  imports Userspace Frame Swapprops
begin

text \<open>
  The pager: \<open>try_kalloc_or_replace\<close> and \<open>vmfault\<close> on the memory of the current process. \<open>contents\<close>
  is a page's contents wherever it is, in memory or in the swap file; \<open>pager_ok\<close> is the invariant of
  both.
\<close>

definition pager_ok :: "kernel \<Rightarrow> u64 list \<Rightarrow> bool" where
  "pager_ok k xs \<longleftrightarrow> space_ok (ph k) (p_pagetable (myproc k)) xs \<and> swap_inv k (cur k)"

definition contents :: "kernel \<Rightarrow> u64 \<Rightarrow> u8 list option" where
  "contents k va =
     (case page_of (ph k) (p_pagetable (myproc k)) va of Some bs \<Rightarrow> Some bs | None \<Rightarrow> swapped k (cur k) va)"

section \<open>Congruences\<close>

lemma swap_cong:
  assumes "fs k' = fs k" "ftable k' = ftable k" "length (procs k') = length (procs k)"
    "p_swap_table (procs k' ! p) = p_swap_table (procs k ! p)" "p_swapfile (procs k' ! p) = p_swapfile (procs k ! p)"
  shows "swap_inv k' p = swap_inv k p" "swapped k' p = swapped k p"
proof -
  have "swap_ip k' p = swap_ip k p"
    using assms by (simp add: swap_ip_def)
  then show "swap_inv k' p = swap_inv k p" "swapped k' p = swapped k p"
    using assms by (simp_all add: swap_inv_def swapped_def fun_eq_iff)
qed

lemma swap_upd:
  assumes "\<And>q. p_swap_table (f q) = p_swap_table q" "\<And>q. p_swapfile (f q) = p_swapfile q"
  shows "swap_inv (upd_proc p f k) p = swap_inv k p" "swapped (upd_proc p f k) p = swapped k p"
  by (rule swap_cong; cases "p < length (procs k)"; simp add: assms upd_proc_def list_update_beyond)+

lemma swap_printk [simp]:
  "swap_inv (printk ev k) p = swap_inv k p" "swapped (printk ev k) p = swapped k p"
  by (rule swap_cong; simp)+

lemma swap_ph [simp]:
  "swap_inv (k\<lparr>ph := m\<rparr>) p = swap_inv k p" "swapped (k\<lparr>ph := m\<rparr>) p = swapped k p"
  "swap_inv (set_mem mm k) p = swap_inv k p" "swapped (set_mem mm k) p = swapped k p"
  by (rule swap_cong; simp add: set_mem_def)+

lemma erase_pagetable: "erase p = erase q \<Longrightarrow> p_pagetable p = p_pagetable q"
  by (drule arg_cong [of _ _ p_pagetable]) (simp add: erase_def)

lemma rest_pt:
  assumes "rest k' = rest k" "cur k < length (procs k)"
  shows "p_pagetable (myproc k') = p_pagetable (myproc k)" "cur k' = cur k" "length (procs k') = length (procs k)"
  using erase_pagetable [OF restD(9) [OF assms]] restD(1,7) [OF assms(1)] by simp_all

lemma swap_inv_cur: "swap_inv k (cur k) \<Longrightarrow> cur k < length (procs k)"
  by (simp add: swap_inv_def)

lemma low_page: "low (PGROUNDDOWN (ucast (v :: u32)))" "PGROUNDDOWN (PGROUNDDOWN x) = PGROUNDDOWN x"
proof -
  have "unat (PGROUNDDOWN (ucast v)) \<le> unat (ucast v :: u64)"
    using PGROUNDDOWN_le [of "ucast v"] by (simp add: word_le_nat_alt)
  also have "\<dots> < 2 ^ 32"
    using unsigned_less [of v] by (simp add: unat_ucast_32_64)
  finally have "unat (ucast (ucast (PGROUNDDOWN (ucast v)) :: u32) :: u64) = unat (PGROUNDDOWN (ucast v))"
    by (simp add: unat_ucast_32_64 unsigned_ucast_eq unsigned_take_bit_eq take_bit_nat_eq_self)
  then show "low (PGROUNDDOWN (ucast v))"
    by (simp add: low_def word_eq_iff_unat)
qed simp

section \<open>Eviction\<close>

lemma evict_dirty:
  assumes ok: "swap_inv k (cur k)" and new: "swapped k (cur k) va = None" and va: "low va" "PGROUNDDOWN va = va"
    and run: "evict va pa True k = Some (b, k')"
  shows "swap_inv k' (cur k) \<and> ph k' = ph k \<and> rest k' = rest k \<and> (\<not> b \<longrightarrow> p_killed (myproc k'))
     \<and> (b \<longrightarrow> swapped k' (cur k) = (swapped k (cur k))(va \<mapsto> mem_bytes (mem (ph k)) pa 4096))"
proof -
  obtain slot k1 where s: "proc_swapout_page (cur k) va pa k = Some (slot, k1)"
    using run by (auto simp: evict_def Let_def bind_eq_Some_conv)
  note sp = swapout_spec [OF ok va(1) _ s, unfolded va(2), OF new]
  have rest: "rest k' = rest k" by (rule rest_evict [OF run])
  have c: "cur k1 = cur k" "cur k < length (procs k1)"
    using rest_pt(2,3) [OF rest_swapout [OF s refl] swap_inv_cur [OF ok]] swap_inv_cur [OF ok] by auto
  show ?thesis
  proof (cases "slot < 0")
    case True
    then have "b = False" "k' = setkilled (cur k) (printk (KILL_swap_exhausted (p_pid (myproc k))) (printk (SWAPFULL (p_pid (myproc k))) k1))"
      using run s by (auto simp: evict_def Let_def)
    then show ?thesis
      using sp rest c by (simp add: setkilled_def swap_upd)
  next
    case False
    then have "b" "k' = upd_proc (cur k) (\<lambda>q. (upd_cnt (\<lambda>c. (dec_resident c)\<lparr>swapped_pages := swapped_pages c + 1,
                    swapout_count := swapout_count c + 1\<rparr>) q)\<lparr>p_memstat := memstat_mark_swapped (p_memstat q) va slot\<rparr>)
                  (printk (SWAPOUT (p_pid (myproc k)) va slot) k1)"
      using run s by (auto simp: evict_def Let_def)
    then show ?thesis
      using sp rest False by (simp add: swap_upd upd_cnt_def)
  qed
qed

lemma evict_fail_swapped:
  assumes ok: "swap_inv k (cur k)" and new: "swapped k (cur k) va = None" and va: "low va" "PGROUNDDOWN va = va"
    and run: "evict va pa d k = Some (False, k')"
  shows "swapped k' (cur k) = swapped k (cur k)"
proof -
  have d: "d" using run by (cases d) (auto simp: evict_def Let_def)
  obtain slot k1 where s: "proc_swapout_page (cur k) va pa k = Some (slot, k1)" "slot < 0"
    "k' = setkilled (cur k) (printk (KILL_swap_exhausted (p_pid (myproc k))) (printk (SWAPFULL (p_pid (myproc k))) k1))"
    using run d by (auto simp: evict_def Let_def bind_eq_Some_conv split: if_split_asm)
  show ?thesis
    using swapout_spec [OF ok va(1) _ s(1), unfolded va(2), OF new] s(2,3) by (simp add: setkilled_def swap_upd)
qed

lemma evict_clean:
  assumes ok: "swap_inv k (cur k)" and run: "evict va pa False k = Some (b, k')"
  shows "b \<and> swap_inv k' (cur k) \<and> ph k' = ph k \<and> rest k' = rest k \<and> swapped k' (cur k) = swapped k (cur k)"
  using assms rest_evict [OF run] by (auto simp: evict_def Let_def swap_upd upd_cnt_def)

text \<open>A frame at the process's disposal: RAM, not free, not a table page, not mapped.\<close>

definition spare :: "kernel \<Rightarrow> u64 list \<Rightarrow> u64 \<Rightarrow> bool" where
  "spare k xs x \<longleftrightarrow> x \<noteq> 0 \<and> ram_page (ph k) x \<and> x \<notin> pt_pages (mem (ph k)) (p_pagetable (myproc k)) \<union> set xs
     \<and> (\<forall>va. upage (ph k) (p_pagetable (myproc k)) va \<longrightarrow> frame_of (ph k) (p_pagetable (myproc k)) va \<noteq> x)"

definition victim_page :: "kernel \<Rightarrow> nat \<Rightarrow> u64" where
  "victim_page k idx = PGROUNDDOWN (ucast (ps_va (ms_pages (p_memstat (myproc k)) ! idx)))"

definition victim_dirty :: "kernel \<Rightarrow> nat \<Rightarrow> bool" where
  "victim_dirty k idx = ps_dirty (ms_pages (p_memstat (myproc k)) ! idx)"

lemma contents_cong:
  assumes "page_of (ph k') (p_pagetable (myproc k')) = page_of (ph k) (p_pagetable (myproc k))" "swapped k' (cur k') = swapped k (cur k)"
  shows "contents k' = contents k"
  by (intro ext) (simp only: contents_def assms)

lemma contents_evicted:
  assumes "page_of m r = (page_of (ph k) r)(va := None)" "page_of (ph k) r va = Some bs" "r = p_pagetable (myproc k)"
    "swapped k (cur k) va = None" "ph k' = m" "p_pagetable (myproc k') = r" "cur k' = cur k"
  shows "swapped k' (cur k) = (swapped k (cur k))(va \<mapsto> bs) \<Longrightarrow> contents k' = contents k"
    and "swapped k' (cur k) = swapped k (cur k) \<Longrightarrow> contents k' = (contents k)(va := None)"
  using assms by (auto simp: contents_def fun_eq_iff split: option.splits)

lemma victim_replaced:
  assumes ok: "pager_ok k xs" and up: "upage (ph k) (p_pagetable (myproc k)) (victim_page k idx)"
    and new: "swapped k (cur k) (victim_page k idx) = None" and run: "replace_victim idx algo k = Some (pa, k')"
  shows "if pa = 0 then pager_ok k' xs \<and> p_killed (myproc k') \<and> contents k' = contents k
     else pager_ok k' xs \<and> spare k' xs pa \<and> pa = frame_of (ph k) (p_pagetable (myproc k)) (victim_page k idx)
        \<and> contents k' = (if victim_dirty k idx then contents k else (contents k)(victim_page k idx := None))
        \<and> unmapped_kept (ph k) (ph k') (p_pagetable (myproc k))"
proof -
  let ?r = "p_pagetable (myproc k)" and ?va = "victim_page k idx"
  have sp: "space_ok (ph k) ?r xs" and sw: "swap_inv k (cur k)" and cur: "cur k < length (procs k)"
    using ok swap_inv_cur by (auto simp: pager_ok_def)
  define k1 where "k1 = printk (EVICT (p_pid (myproc k)) ?va (victim_dirty k idx))
     (printk (VICTIM (p_pid (myproc k)) ?va (ps_seq (ms_pages (p_memstat (myproc k)) ! idx)) algo) k)"
  have k1: "ph k1 = ph k" "cur k1 = cur k" "procs k1 = procs k" "rest k1 = rest k" "swap_inv k1 (cur k1)" "swapped k1 (cur k1) = swapped k (cur k)"
    using sw by (simp_all add: k1_def)
  have rest: "rest k' = rest k" by (rule rest_victim [OF run])
  note rp = rest_pt [OF rest cur]
  obtain pte s1 s2 where e: "walk (ph k) ?r ?va False = Some (pte, ph k)" "pte \<noteq> 0" "load64 (mem (ph k)) pte = pte_of (mem (ph k)) ?r ?va"
    "kfree ((ph k)\<lparr>mem := store64 (mem (ph k)) pte 0\<rparr>) (frame_of (ph k) ?r ?va) = Some s1" "kalloc s1 = (frame_of (ph k) ?r ?va, s2)"
    "space_ok s2 ?r xs" "page_of s2 ?r = (page_of (ph k) ?r)(?va := None)" "frame_of (ph k) ?r ?va \<noteq> 0"
    "ram_page s2 (frame_of (ph k) ?r ?va)" "frame_of (ph k) ?r ?va \<notin> pt_pages (mem s2) ?r \<union> set xs"
    "\<And>vb. upage s2 ?r vb \<Longrightarrow> frame_of s2 ?r vb \<noteq> frame_of (ph k) ?r ?va"
    "unmapped_kept (ph k) s2 ?r"
    using evict_space [OF sp up] by blast
  have valid: "valid_pte (load64 (mem (ph k)) pte)"
    using up e(3) by (simp add: upage_def user_pte_def)
  let ?f = "frame_of (ph k) ?r ?va"
  obtain b k2 where ev: "evict ?va ?f (victim_dirty k idx) k1 = Some (b, k2)"
    and fin: "if b then \<exists>k3. with_ph (\<lambda>m. kfree m ?f) (set_mem (store64 (mem (ph k2)) pte 0) k2) = Some k3 \<and> (pa, k') = k_alloc k3
       else pa = 0 \<and> k' = k2"
    using run e(1,2,3) valid
    by (auto simp: replace_victim_def Let_def bind_eq_Some_conv victim_page_def [symmetric] victim_dirty_def [symmetric] k1_def [symmetric]
        frame_of_def k1 split: if_split_asm)
  have va: "low ?va" "PGROUNDDOWN ?va = ?va"
    unfolding victim_page_def by (rule low_page)+
  have E: "swap_inv k2 (cur k) \<and> ph k2 = ph k \<and> (\<not> b \<longrightarrow> p_killed (myproc k2) \<and> victim_dirty k idx)
     \<and> (b \<longrightarrow> swapped k2 (cur k) = (if victim_dirty k idx then (swapped k (cur k))(?va \<mapsto> mem_bytes (mem (ph k)) ?f 4096) else swapped k (cur k)))"
    using evict_dirty [OF k1(5) _ va, of ?f b k2] evict_clean [OF k1(5), of ?va ?f b k2] ev k1 new
    by (cases "victim_dirty k idx") auto
  have po: "page_of (ph k) ?r ?va = Some (mem_bytes (mem (ph k)) ?f 4096)"
    using up by (simp add: page_of_def)
  show ?thesis
  proof (cases b)
    case False
    then have k': "pa = 0" "k' = k2" using fin by auto
    have sd: "swapped k2 (cur k) = swapped k (cur k)"
      using ev False k1 new evict_fail_swapped [OF k1(5) _ va, of ?f "victim_dirty k idx" k2] by auto
    have "contents k' = contents k"
      by (rule contents_cong) (use E sd rp k' in simp_all)
    then show ?thesis
      using E False k' sp rp by (simp add: pager_ok_def)
  next
    case True
    have "with_ph (\<lambda>m. kfree m ?f) (set_mem (store64 (mem (ph k2)) pte 0) k2) = Some (k2\<lparr>ph := s1\<rparr>)"
      using e(4) E by (simp add: with_ph_def set_mem_def)
    then have "(pa, k') = k_alloc (k2\<lparr>ph := s1\<rparr>)"
      using fin True by auto
    then have k': "pa = ?f" "k' = k2\<lparr>ph := s2\<rparr>"
      using e(5) by (auto simp: k_alloc_def)
    have c2: "cur k2 = cur k" "procs k' = procs k2"
      using rp(2) k' by auto
    have sw': "swap_inv k' (cur k')" "swapped k' (cur k) = swapped k2 (cur k)"
      using E k' c2 by auto
    have "contents k' = (if victim_dirty k idx then contents k else (contents k)(?va := None))"
      using contents_evicted [OF e(7) po refl new, of k'] k' rp E True sw'(2) by auto
    then show ?thesis
      using k' e(6,8-12) sw'(1) rp by (simp add: pager_ok_def spare_def)
  qed
qed

section \<open>Allocation\<close>

text \<open>The page metadata is right about the pages it calls resident: they are mapped and not swapped.\<close>

definition resident :: "kernel \<Rightarrow> nat \<Rightarrow> bool" where
  "resident k i \<longleftrightarrow> i < MAX_PAGES_INFO \<and> ps_state (ms_pages (p_memstat (myproc k)) ! i) = RESIDENT"

definition tracked :: "kernel \<Rightarrow> bool" where
  "tracked k \<longleftrightarrow> length (ms_pages (p_memstat (myproc k))) = MAX_PAGES_INFO
     \<and> (\<forall>i. resident k i \<longrightarrow> upage (ph k) (p_pagetable (myproc k)) (victim_page k i) \<and> swapped k (cur k) (victim_page k i) = None)"

text \<open>What allocation may do to the contents: nothing, or drop one clean resident page.\<close>

definition dropped :: "kernel \<Rightarrow> u64 set" where
  "dropped k = {victim_page k i | i. resident k i \<and> \<not> victim_dirty k i}"

definition mostly_kept :: "kernel \<Rightarrow> kernel \<Rightarrow> bool" where
  "mostly_kept k k' \<longleftrightarrow> contents k' = contents k \<or> (\<exists>va \<in> dropped k. contents k' = (contents k)(va := None))"

locale pager = replacement_policy "\<lambda>ms. fst (sel ms)" for sel :: selector
begin

lemma alloc_keeps:
  assumes ok: "pager_ok k xs" and tr: "tracked k" and run: "try_kalloc_or_replace_with sel k = Some (pa, k')"
  shows "mostly_kept k k' \<and> (\<exists>ys. pager_ok k' ys \<and> (if pa = 0 then p_killed (myproc k') else spare k' ys pa
        \<and> unmapped_kept (ph k) (ph k') (p_pagetable (myproc k))))"
proof (cases xs)
  case (Cons x ys)
  obtain q m where kal: "kalloc (ph k) = (q, m)" by (cases "kalloc (ph k)")
  have sp: "space_ok (ph k) (p_pagetable (myproc k)) (x # ys)"
    using ok Cons by (simp add: pager_ok_def)
  note ks = kalloc_space [OF sp kal]
  have "pa = x" "k' = k\<lparr>ph := m\<rparr>"
    using run kal ks(1,7) by (auto simp: try_kalloc_or_replace_with_def k_alloc_def)
  moreover from this have "contents k' = contents k"
    by (intro contents_cong) (simp_all add: ks(3))
  ultimately show ?thesis
    using ks ok by (auto simp: mostly_kept_def pager_ok_def spare_def intro!: exI [of _ ys])
next
  case Nil
  have "kalloc (ph k) = (0, ph k)"
    using ok Nil kalloc_empty pt_inv_kmem space_okD(1) by (metis pager_ok_def)
  then have ka: "k_alloc k = (0, k)"
    by (simp add: k_alloc_def)
  let ?k = "printk (MEMFULL (p_pid (myproc k))) k"
  have ok': "pager_ok ?k xs"
    using ok by (simp add: pager_ok_def)
  have con: "contents ?k = contents k"
    by (rule contents_cong) simp_all
  obtain idx algo where s: "sel (p_memstat (myproc k)) = (idx, algo)"
    by (cases "sel (p_memstat (myproc k))")
  show ?thesis
  proof (cases idx)
    case None
    then have "pa = 0" "k' = setkilled (cur k) (printk (KILL_swap_exhausted (p_pid (myproc k))) ?k)"
      using run ka s by (auto simp: try_kalloc_or_replace_with_def Let_def)
    moreover have "cur k < length (procs k)"
      using ok swap_inv_cur by (auto simp: pager_ok_def)
    moreover from calculation have "contents k' = contents k"
      by (intro contents_cong) (simp_all add: setkilled_def swap_upd)
    ultimately show ?thesis
      using ok by (intro conjI exI [of _ xs]) (simp_all add: mostly_kept_def pager_ok_def setkilled_def swap_upd)
  next
    case (Some i)
    have r: "resident k i"
      using select_resident [of "p_memstat (myproc k)" i] tr s Some by (simp add: resident_def tracked_def)
    have run': "replace_victim i algo ?k = Some (pa, k')"
      using run ka s Some by (simp add: try_kalloc_or_replace_with_def Let_def)
    have v: "victim_page ?k i = victim_page k i" "victim_dirty ?k i = victim_dirty k i"
      by (simp_all add: victim_page_def victim_dirty_def)
    have up: "upage (ph ?k) (p_pagetable (myproc ?k)) (victim_page ?k i)" "swapped ?k (cur ?k) (victim_page ?k i) = None"
      using tr r unfolding v by (simp_all add: tracked_def)
    have "if pa = 0 then pager_ok k' xs \<and> p_killed (myproc k') \<and> contents k' = contents k
     else pager_ok k' xs \<and> spare k' xs pa
        \<and> contents k' = (if victim_dirty k i then contents k else (contents k)(victim_page k i := None))
        \<and> unmapped_kept (ph k) (ph k') (p_pagetable (myproc k))"
      using victim_replaced [OF ok' up run'] unfolding v con by (auto split: if_split_asm)
    then show ?thesis
      using r unfolding mostly_kept_def dropped_def by (auto split: if_split_asm)
  qed
qed

end

interpretation fifo_pager: pager fifo_sel
  by unfold_locales (auto simp: fifo_sel_def fifo.select_resident fifo.select_None)

lemma fst_cleanfifo: "fst (cleanfifo_sel ms) = fst (select_victim_cleanfifo_index ms)"
  by (simp add: cleanfifo_sel_def split: prod.split)

interpretation cleanfifo_pager: pager cleanfifo_sel
  by unfold_locales (auto simp: fst_cleanfifo cleanfifo.select_resident cleanfifo.select_None)

lemma pager_alloc:
  assumes "pager_ok k xs" "tracked k" "alloc = try_kalloc_or_replace \<or> alloc = bonus_try_kalloc_or_replace" "alloc k = Some (pa, k')"
  shows "mostly_kept k k' \<and> (\<exists>ys. pager_ok k' ys \<and> (if pa = 0 then p_killed (myproc k') else spare k' ys pa
        \<and> unmapped_kept (ph k) (ph k') (p_pagetable (myproc k)))) \<and> rest k' = rest k"
  using assms(3)
proof
  assume a: "alloc = try_kalloc_or_replace"
  show ?thesis
    using fifo_pager.alloc_keeps [OF assms(1,2)] rest_replace assms(4) unfolding a try_kalloc_or_replace_def by blast
next
  assume a: "alloc = bonus_try_kalloc_or_replace"
  show ?thesis
    using cleanfifo_pager.alloc_keeps [OF assms(1,2)] rest_replace assms(4) unfolding a bonus_try_kalloc_or_replace_def by blast
qed

section \<open>Faults\<close>

text \<open>Writing to a spare frame and mapping it.\<close>

lemma spare_write:
  assumes ok: "pager_ok k xs" and x: "spare k xs x" and m: "\<And>y. PGROUNDDOWN y \<noteq> x \<Longrightarrow> m' y = mem (ph k) y"
  shows "pager_ok (set_mem m' k) xs" "spare (set_mem m' k) xs x" "contents (set_mem m' k) = contents k"
proof -
  let ?r = "p_pagetable (myproc k)"
  have sp: "space_ok (ph k) ?r xs" and s: "ram_page (ph k) x" "x \<notin> pt_pages (mem (ph k)) ?r \<union> set xs"
    "\<And>va. upage (ph k) ?r va \<Longrightarrow> frame_of (ph k) ?r va \<noteq> x"
    using ok x by (auto simp: pager_ok_def spare_def)
  note fw = frame_write [OF sp s m]
  have k: "ph (set_mem m' k) = (ph k)\<lparr>mem := m'\<rparr>" "procs (set_mem m' k) = procs k" "cur (set_mem m' k) = cur k"
    by (simp_all add: set_mem_def)
  show "pager_ok (set_mem m' k) xs"
    using ok fw(1) by (simp add: pager_ok_def k)
  show "spare (set_mem m' k) xs x"
    using x fw(3,4) by (simp add: spare_def k upage_def frame_of_def)
  show "contents (set_mem m' k) = contents k"
    by (rule contents_cong) (simp_all add: k fw(2))
qed

lemma fw_pte:
  assumes ok: "pager_ok k xs" and x: "spare k xs x" and m: "\<And>y. m' y = (if PGROUNDDOWN y = x then c else mem (ph k) y)"
  shows "pte_of m' (p_pagetable (myproc k)) va = pte_of (mem (ph k)) (p_pagetable (myproc k)) va"
proof -
  let ?r = "p_pagetable (myproc k)"
  have "space_ok (ph k) ?r xs" "ram_page (ph k) x" "x \<notin> pt_pages (mem (ph k)) ?r \<union> set xs"
    "\<And>va. upage (ph k) ?r va \<Longrightarrow> frame_of (ph k) ?r va \<noteq> x"
    using ok x by (auto simp: pager_ok_def spare_def)
  then show ?thesis
    by (rule frame_write(4)) (use m in auto)
qed

lemma map_or_free_spec:
  assumes ok: "pager_ok k xs" and x: "spare k xs x" and r: "r = p_pagetable (myproc k)"
    and va: "page_aligned va" "va < MAXVA" "\<not> valid_pte (pte_of (mem (ph k)) r va)" and perm: "perm < 0x400" "perm AND PTE_U \<noteq> 0"
  shows "\<exists>pa k' ys. map_or_free r va x perm k = Some (pa, k') \<and> pager_ok k' ys \<and> rest k' = rest k
     \<and> (if pa = 0 then contents k' = contents k
        else pa = x \<and> contents k' = (contents k)(va \<mapsto> mem_bytes (mem (ph k)) x 4096)
           \<and> pte_of (mem (ph k')) r va = PA2PTE x OR perm OR PTE_V)"
proof -
  have sp: "space_ok (ph k) r xs" and s: "ram_page (ph k) x" "x \<notin> pt_pages (mem (ph k)) r \<union> set xs"
    "\<And>va. upage (ph k) r va \<Longrightarrow> frame_of (ph k) r va \<noteq> x" and x0: "x \<noteq> 0" and sw: "swap_inv k (cur k)"
    using ok x r by (auto simp: pager_ok_def spare_def)
  obtain rv m ys where m: "mappages (ph k) r va PGSIZE x perm = Some (rv, m)" "rv = 0 \<or> rv = -1" "space_ok m r ys" "kend m = kend (ph k)"
     "page_of m r = (if rv = 0 then (page_of (ph k) r)(va \<mapsto> mem_bytes (mem (ph k)) x 4096) else page_of (ph k) r)"
     "rv = -1 \<Longrightarrow> x \<notin> pt_pages (mem m) r \<union> set ys \<and> (\<forall>va. upage m r va \<longrightarrow> frame_of m r va \<noteq> x)"
     "rv = 0 \<Longrightarrow> pte_of (mem m) r va = PA2PTE x OR perm OR PTE_V"
    using map_space [OF sp va s perm] by auto
  show ?thesis
  proof (cases "rv = 0")
    case True
    have "contents (k\<lparr>ph := m\<rparr>) = (contents k)(va \<mapsto> mem_bytes (mem (ph k)) x 4096)"
      using m(5) True r by (intro ext) (simp add: contents_def split: option.split)
    then show ?thesis
      using m True x0 r sw by (intro exI [of _ x] exI [of _ "k\<lparr>ph := m\<rparr>"] exI [of _ ys])
        (simp add: map_or_free_def with_ph_ret_def pager_ok_def)
  next
    case False
    then have f: "rv = -1" using m(2) by simp
    have "ram_page m x"
      using s(1) m(4) by (simp add: ram_page_def)
    then obtain m2 where m2: "kfree m x = Some m2" "space_ok m2 r (x # ys)" "page_of m2 r = page_of m r"
      using kfree_space [OF m(3), of x] m(6) f by blast
    have "contents (k\<lparr>ph := m2\<rparr>) = contents k"
      by (rule contents_cong) (use m2(3) m(5) False r in simp_all)
    then show ?thesis
      using m f m2 r sw by (intro exI [of _ 0] exI [of _ "k\<lparr>ph := m2\<rparr>"] exI [of _ "x # ys"])
        (simp add: map_or_free_def with_ph_ret_def with_ph_def pager_ok_def)
  qed
qed

text \<open>A victim is mapped, so it is not the page that faulted.\<close>

lemma fault_page_kept:
  assumes "tracked k" "mostly_kept k k1" "page_aligned va" "\<not> valid_pte (pte_of (mem (ph k)) (p_pagetable (myproc k)) va)"
  shows "va \<notin> dropped k" "contents k1 va = contents k va"
proof -
  show "va \<notin> dropped k"
    using assms(1,4) by (auto simp: dropped_def tracked_def upage_def user_pte_def)
  with assms(2) show "contents k1 va = contents k va"
    by (auto simp: mostly_kept_def)
qed

text \<open>
  C3: \<open>try_kalloc_or_replace\<close>, with the victim selection of \<open>vm.c\<close> and with that of \<open>vm_bonus.c\<close>,
  returns a frame that is neither free, nor a table page, nor mapped, or kills the process. A page
  it evicts keeps its contents in the swap file when it is dirty; at most one page, a resident page
  that is not marked dirty, loses its contents, and no other page changes.
\<close>

theorem replacement_keeps_pages:
  assumes "pager_ok k xs" and "tracked k" and "alloc = try_kalloc_or_replace \<or> alloc = bonus_try_kalloc_or_replace"
    and "alloc k = Some (pa, k')"
  shows "(contents k' = contents k \<or> (\<exists>va \<in> dropped k. contents k' = (contents k)(va := None)))
     \<and> (\<exists>ys. pager_ok k' ys \<and> (if pa = 0 then p_killed (myproc k') else spare k' ys pa))"
  using pager_alloc [OF assms] unfolding mostly_kept_def by (cases "pa = 0") auto

lemma anon_fault_spec:
  assumes ok: "pager_ok k xs" "tracked k" and al: "alloc = try_kalloc_or_replace \<or> alloc = bonus_try_kalloc_or_replace"
    and va: "page_aligned va" "va < MAXVA" "\<not> valid_pte (pte_of (mem (ph k)) (p_pagetable (myproc k)) va)"
    and run: "fault_anon alloc va k = Some (pa, k')"
  shows "rest k' = rest k \<and> (\<exists>ys. pager_ok k' ys) \<and> (\<exists>k1. mostly_kept k k1
     \<and> contents k' = (if pa = 0 then contents k1 else (contents k1)(va \<mapsto> replicate 4096 0)))"
proof -
  let ?r = "p_pagetable (myproc k)"
  obtain m k1 where a: "alloc k = Some (m, k1)"
    using run by (auto simp: fault_anon_def bind_eq_Some_conv)
  note pa = pager_alloc [OF ok al a]
  have rk: "rest k1 = rest k" using pa by blast
  have "cur k < length (procs k)"
    using ok(1) swap_inv_cur by (simp add: pager_ok_def)
  note r1 = rest_pt(1) [OF rk this]
  show ?thesis
  proof (cases "m = 0")
    case True
    then have "pa = 0" "k' = k1"
      using run a by (auto simp: fault_anon_def)
    then show ?thesis using pa by auto
  next
    case False
    then obtain ys where y: "pager_ok k1 ys" "spare k1 ys m" "unmapped_kept (ph k) (ph k1) ?r"
      using pa by auto
    have al: "page_aligned m"
      using y(2) by (auto simp: spare_def)
    let ?k2 = "set_mem (memset (mem (ph k1)) m 0 4096) k1"
    note w = spare_write [OF y(1,2), of "memset (mem (ph k1)) m 0 4096"]
    have w1: "pager_ok ?k2 ys" "spare ?k2 ys m" "contents ?k2 = contents k1"
      using w memset_page [OF al] by simp_all
    have z: "mem_bytes (mem (ph ?k2)) m 4096 = replicate 4096 0"
      by (rule page_bytes_const [OF al]) (simp add: set_mem_def memset_page [OF al])
    have r2: "p_pagetable (myproc ?k2) = ?r"
      using r1 by (simp add: set_mem_def)
    have nv: "\<not> valid_pte (pte_of (mem (ph ?k2)) ?r va)"
      using y(3) va fw_pte [OF y(1,2), of "memset (mem (ph k1)) m 0 4096" 0 va] memset_page [OF al] r1
      by (auto simp: unmapped_kept_def set_mem_def)
    obtain q k3 zs where m: "map_or_free ?r va m (PTE_W OR PTE_U OR PTE_R) ?k2 = Some (q, k3)" "pager_ok k3 zs" "rest k3 = rest ?k2"
      "if q = 0 then contents k3 = contents ?k2 else q = m \<and> contents k3 = (contents ?k2)(va \<mapsto> mem_bytes (mem (ph ?k2)) m 4096)"
      using map_or_free_spec [OF w1(1,2) r2 [symmetric] va(1,2) nv, of "PTE_W OR PTE_U OR PTE_R"] by auto
    have "pa = q" "k' = k3"
      using run a False m(1) r1 by (auto simp: fault_anon_def)
    then show ?thesis
      using pa m w1(3) z by (auto split: if_split_asm)
  qed
qed

text \<open>
  C14: a fault that the kernel itself takes on an unmapped page of the heap or the stack maps a page
  of zeros there, or returns 0 and maps nothing. The contents of other pages stay, except that one
  resident page that is not marked dirty may have been dropped to get the frame.
\<close>

theorem vmfault_zero_page:
  assumes "pager_ok k xs" and "tracked k" and "alloc = try_kalloc_or_replace \<or> alloc = bonus_try_kalloc_or_replace"
    and "va0 = PGROUNDDOWN va" and "va0 < MAXVA" and "\<not> valid_pte (pte_of (mem (ph k)) (p_pagetable (myproc k)) va0)"
    and "in_stack (myproc k) va0 \<or> in_heap (myproc k) va0" and "\<not> in_text (myproc k) va0 \<and> \<not> in_data (myproc k) va0"
    and "\<not> in_guard (myproc k) va0" and "vmfault_with alloc (p_pagetable (myproc k)) va k = Some (pa, k')"
  shows "(\<exists>ys. pager_ok k' ys) \<and> (pa \<noteq> 0 \<longrightarrow> contents k' va0 = Some (replicate 4096 0))
     \<and> (pa = 0 \<longrightarrow> contents k' va0 = contents k va0)
     \<and> (\<exists>D \<subseteq> dropped k. card D \<le> 1 \<and> (\<forall>vb. vb \<noteq> va0 \<longrightarrow> contents k' vb = (if vb \<in> D then None else contents k vb)))"
proof -
  have sp: "pt_inv (ph k) (p_pagetable (myproc k)) xs"
    using assms(1) space_okD(1) by (simp add: pager_ok_def)
  have run: "fault_anon alloc va0 k = Some (pa, k')"
    using assms(4-10) ismapped_spec [OF sp assms(5)] by (auto simp: vmfault_with_def Let_def)
  have al: "page_aligned va0" by (simp add: assms(4))
  note f = anon_fault_spec [OF assms(1-3) al assms(5,6) run]
  then obtain k1 where k1: "mostly_kept k k1" "contents k' = (if pa = 0 then contents k1 else (contents k1)(va0 \<mapsto> replicate 4096 0))"
    by blast
  have "\<exists>D \<subseteq> dropped k. card D \<le> 1 \<and> (\<forall>vb. contents k1 vb = (if vb \<in> D then None else contents k vb))"
    using k1(1) unfolding mostly_kept_def
  proof
    assume "\<exists>va \<in> dropped k. contents k1 = (contents k)(va := None)"
    then obtain va where "va \<in> dropped k" "contents k1 = (contents k)(va := None)" by blast
    then show ?thesis by (intro exI [of _ "{va}"]) simp
  qed (intro exI [of _ "{}"], simp)
  then show ?thesis
    using f k1(2) fault_page_kept(2) [OF assms(2) k1(1) al assms(6)] by (auto split: if_split_asm)
qed

text \<open>
  C15: on a page of the stack guard, on a page that starts at or above the break, and on a page that
  is mapped already, \<open>vmfault\<close> of both kernels returns 0 and changes nothing. (The test is on the
  page, not on the address: the page that holds a break in its middle is mapped as a whole.)
\<close>

theorem vmfault_refuses:
  assumes "pt_inv (ph k) pt xs" and "va0 = PGROUNDDOWN va" and "va0 < MAXVA"
    and "PGROUNDUP (stack_top (p_seg (myproc k))) - 2 * PGSIZE \<le> va0 \<and> va0 < PGROUNDUP (stack_top (p_seg (myproc k))) - PGSIZE
       \<or> p_sz (myproc k) \<le> va0 \<or> valid_pte (pte_of (mem (ph k)) pt va0)"
  shows "vmfault pt va k = Some (0, k) \<and> bonus_vmfault pt va k = Some (0, k)"
proof -
  have "p_sz (myproc k) \<le> va0 \<Longrightarrow> \<not> in_text (myproc k) va0 \<and> \<not> in_data (myproc k) va0 \<and> \<not> in_stack (myproc k) va0 \<and> \<not> in_heap (myproc k) va0"
    by (auto simp: in_text_def in_data_def in_stack_def in_heap_def)
  moreover have "in_guard (myproc k) va0 \<or> p_sz (myproc k) \<le> va0 \<or> valid_pte (pte_of (mem (ph k)) pt va0)"
    using assms(4) by (auto simp: in_guard_def stack_guard_def stack_base_def stack_end_def)
  ultimately show ?thesis
    using assms(2) ismapped_spec [OF assms(1,3)] by (auto simp: vmfault_def bonus_vmfault_def vmfault_with_def Let_def)
qed

section \<open>Witnesses\<close>

text \<open>A process with the pages of \<open>m\<close>, the metadata \<open>ms\<close> and the swap file of \<open>swap_kernel\<close>.\<close>

definition user_kernel :: "bool \<Rightarrow> u32 \<Rightarrow> phys \<Rightarrow> proc_mem_stat \<Rightarrow> kernel" where
  "user_kernel u sz m ms =
     (swap_kernel u sz)\<lparr>ph := m, procs := [(swap_proc u)\<lparr>p_pagetable := 0x87FFB000, p_memstat := ms\<rparr>]\<rparr>"

lemma user_kernel_simps:
  "ph (user_kernel u sz m ms) = m" "cur (user_kernel u sz m ms) = 0" "myproc (user_kernel u sz m ms) = (swap_proc u)\<lparr>p_pagetable := 0x87FFB000, p_memstat := ms\<rparr>"
  "p_pagetable (myproc (user_kernel u sz m ms)) = 0x87FFB000" "p_memstat (myproc (user_kernel u sz m ms)) = ms"
  "procs (user_kernel u sz m ms) = [(swap_proc u)\<lparr>p_pagetable := 0x87FFB000, p_memstat := ms\<rparr>]" 
  by (simp_all add: user_kernel_def swap_kernel_def)

lemma user_kernel_pager:
  assumes "space_ok m 0x87FFB000 xs" "u \<Longrightarrow> sz = 4096"
  shows "pager_ok (user_kernel u sz m ms) xs"
    "swapped (user_kernel u sz m ms) 0 va = (if u \<and> va = 0x5000 then Some (replicate 4096 9) else None)"
proof -
  have "swap_inv (user_kernel u sz m ms) 0 = swap_inv (swap_kernel u sz) 0" "swapped (user_kernel u sz m ms) 0 = swapped (swap_kernel u sz) 0"
    by (rule swap_cong; simp add: user_kernel_def swap_kernel_def)+
  then show "pager_ok (user_kernel u sz m ms) xs"
    "swapped (user_kernel u sz m ms) 0 va = (if u \<and> va = 0x5000 then Some (replicate 4096 9) else None)"
    using swap_kernel_inv [OF assms(2)] assms(1) by (simp_all add: pager_ok_def user_kernel_simps)
qed

lemma user_kernel_tracked: "tracked (user_kernel u sz m fresh_memstat)"
proof -
  have "\<not> resident (user_kernel u sz m fresh_memstat) i" for i
    by (auto simp: resident_def user_kernel_simps fresh_memstat_def)
  then show ?thesis by (simp add: tracked_def user_kernel_simps fresh_memstat_def)
qed

lemma user_kernel_heap: 
  "in_heap (myproc (user_kernel u sz m ms)) 0x4000" "\<not> in_guard (myproc (user_kernel u sz m ms)) 0x4000" 
  "\<not> in_text (myproc (user_kernel u sz m ms)) 0x4000" "\<not> in_data (myproc (user_kernel u sz m ms)) 0x4000"
  by (simp_all add: user_kernel_simps in_heap_def in_guard_def in_text_def in_data_def in_stack_def stack_guard_def stack_base_def
      stack_end_def swap_proc_def no_seg_def PGROUNDUP_def)

lemma user_kernel_anon:
  "\<exists>k'. fault_anon try_kalloc_or_replace 0x4000 (user_kernel u sz empty_space ms) = Some (0x87FFC000, k')"
proof -
  let ?k = "user_kernel u sz empty_space ms"
  obtain q s where k: "kalloc empty_space = (q, s)" by (cases "kalloc empty_space")
  note ks = kalloc_space [OF empty_space_ok k]
  have ka: "try_kalloc_or_replace ?k = Some (0x87FFC000, ?k\<lparr>ph := s\<rparr>)"
    using k ks(1) by (simp add: try_kalloc_or_replace_def try_kalloc_or_replace_with_def k_alloc_def user_kernel_simps)
  let ?m = "memset (mem s) 0x87FFC000 0 4096"
  have al: "page_aligned 0x87FFC000" "page_aligned 0x4000" by (simp_all add: page_aligned_def)
  have m: "?m y = mem s y" if "PGROUNDDOWN y \<noteq> 0x87FFC000" for y
    using memset_page [OF al(1)] that by simp
  note fw = frame_write [OF ks(2,4,5,6) m]
  have "pte_of (mem s) 0x87FFB000 0x4000 = 0"
    using kalloc_pt(2) [OF empty_space(1) k, of "0x4000"] empty_space(2) by simp
  then have "\<exists>s'. mappages (s\<lparr>mem := ?m\<rparr>) 0x87FFB000 0x4000 PGSIZE 0x87FFC000 (PTE_W OR PTE_U OR PTE_R) = Some (0, s')"
    using map_space [OF fw(1) al(2), of "0x87FFC000" "PTE_W OR PTE_U OR PTE_R"] fw(3,4) ks(4-6) by (auto simp: ram_page_def upage_def frame_of_def)
  then show ?thesis
    using ka by (auto simp: fault_anon_def map_or_free_def with_ph_ret_def set_mem_def user_kernel_simps)
qed

theorem vmfault_zero_page_witness:
  "\<exists>k'. vmfault_with try_kalloc_or_replace 0x87FFB000 0x4321 (user_kernel False 0 empty_space fresh_memstat) = Some (0x87FFC000, k')
     \<and> contents k' 0x4000 = Some (replicate 4096 0)"
proof -
  let ?k = "user_kernel False 0 empty_space fresh_memstat"
  obtain k' where f: "fault_anon try_kalloc_or_replace 0x4000 ?k = Some (0x87FFC000, k')"
    using user_kernel_anon by blast
  have va: "PGROUNDDOWN 0x4321 = 0x4000" "(0x4000 :: u64) < MAXVA" by (simp_all add: PGROUNDDOWN_def)
  have n: "\<not> valid_pte (pte_of (mem (ph ?k)) (p_pagetable (myproc ?k)) 0x4000)"
    using empty_space(2) by (simp add: user_kernel_simps)
  have run: "vmfault_with try_kalloc_or_replace (p_pagetable (myproc ?k)) 0x4321 ?k = Some (0x87FFC000, k')"
    using f va n user_kernel_heap ismapped_spec [OF empty_space(1) va(2)]
    by (simp add: vmfault_with_def Let_def user_kernel_simps(1,4))
  have "contents k' 0x4000 = Some (replicate 4096 0)"
    using vmfault_zero_page [OF user_kernel_pager(1) [OF empty_space_ok] user_kernel_tracked _ va(1) [symmetric] va(2) n _ _ _ run] user_kernel_heap
    by simp
  then show ?thesis
    using run by (auto simp: user_kernel_simps(4))
qed

theorem vmfault_refuses_witness:
  "vmfault 0x87FFB000 0x10004 (user_kernel False 0 empty_space fresh_memstat) = Some (0, user_kernel False 0 empty_space fresh_memstat)"
proof -
  have "PGROUNDDOWN 0x10004 = 0x10000" by (simp add: PGROUNDDOWN_def)
  moreover have "p_sz (myproc (user_kernel False 0 empty_space fresh_memstat)) \<le> 0x10000"
    by (simp add: user_kernel_simps swap_proc_def)
  ultimately show ?thesis
    using vmfault_refuses [of "user_kernel False 0 empty_space fresh_memstat" "0x87FFB000" _ "0x10000" "0x10004"] empty_space(1)
    by (simp add: user_kernel_simps(1))
qed

text \<open>A process with one page, at \<open>0x1000\<close>, and no free page left.\<close>

lemma drain:
  assumes "space_ok s r xs"
  shows "\<exists>s'. space_ok s' r [] \<and> page_of s' r = page_of s r"
  using assms
proof (induction xs arbitrary: s)
  case (Cons x xs)
  obtain p s1 where k: "kalloc s = (p, s1)" by (cases "kalloc s")
  note ks = kalloc_space [OF Cons.prems k]
  from Cons.IH [OF ks(2)] ks(3) show ?case by simp
qed blast

lemma full_space:
  obtains s where "space_ok s 0x87FFB000 []" "\<And>va. upage s 0x87FFB000 va \<longleftrightarrow> va = 0x1000"
proof -
  obtain s1 ys where s1: "space_ok s1 0x87FFB000 ys" "\<And>va. upage s1 0x87FFB000 va \<longleftrightarrow> va = 0x1000"
    by (rule one_user_page) blast
  obtain s2 where s2: "space_ok s2 0x87FFB000 []" "page_of s2 0x87FFB000 = page_of s1 0x87FFB000"
    using drain [OF s1(1)] by blast
  have "upage s2 0x87FFB000 va \<longleftrightarrow> va = 0x1000" for va
    using fun_cong [OF s2(2), of va] s1(2) [of va] unfolding page_of_def by (metis option.distinct(1))
  with s2(1) show thesis by (rule that)
qed

definition one_entry :: "u32 \<Rightarrow> page_state \<Rightarrow> bool \<Rightarrow> proc_mem_stat" where
  "one_entry va st d = fresh_memstat\<lparr>ms_pages := \<lparr>ps_va = va, ps_state = st, ps_dirty = d, ps_seq = 0, ps_slot = -1\<rparr> #
     replicate 127 \<lparr>ps_va = 0, ps_state = UNMAPPED, ps_dirty = False, ps_seq = 0, ps_slot = -1\<rparr>\<rparr>"

lemma one_entry:
  "length (ms_pages (one_entry va st d)) = MAX_PAGES_INFO"
  "ms_pages (one_entry va st d) ! 0 = \<lparr>ps_va = va, ps_state = st, ps_dirty = d, ps_seq = 0, ps_slot = -1\<rparr>"
  "i < MAX_PAGES_INFO \<Longrightarrow> ps_state (ms_pages (one_entry va st d) ! i) = RESIDENT \<longleftrightarrow> i = 0 \<and> st = RESIDENT"
  by (auto simp: one_entry_def fresh_memstat_def nth_Cons')

lemma one_entry_victim: "select_victim_fifo_index (one_entry va RESIDENT d) = Some 0"
proof (cases "select_victim_fifo_index (one_entry va RESIDENT d)")
  case None
  then show ?thesis using fifo.select_None [OF one_entry(1) [of va RESIDENT d]] one_entry(1) [of va RESIDENT d] one_entry(3) [of 0 va RESIDENT d] by (auto simp: all_set_conv_all_nth)
next
  case (Some i)
  then show ?thesis using fifo.select_resident [OF one_entry(1) Some] one_entry(3) [of i va RESIDENT d] by auto
qed

lemma user_kernel_replace:
  assumes "space_ok s 0x87FFB000 []" "\<And>va. upage s 0x87FFB000 va \<longleftrightarrow> va = 0x1000"
  shows "\<exists>k'. try_kalloc_or_replace (user_kernel False 0 s (one_entry 0x1000 RESIDENT True)) = Some (frame_of s 0x87FFB000 0x1000, k')"
proof -
  let ?k = "user_kernel False 0 s (one_entry 0x1000 RESIDENT True)"
  have ka: "k_alloc ?k = (0, ?k)"
    using kalloc_empty [OF pt_inv_kmem [OF space_okD(1) [OF assms(1)]]] by (simp add: k_alloc_def user_kernel_def)
  let ?f = "frame_of s 0x87FFB000 0x1000"
  obtain pte s1 s2 where e: "walk s 0x87FFB000 0x1000 False = Some (pte, s)" "pte \<noteq> 0" "load64 (mem s) pte = pte_of (mem s) 0x87FFB000 0x1000"
    "kfree (s\<lparr>mem := store64 (mem s) pte 0\<rparr>) ?f = Some s1" "kalloc s1 = (?f, s2)"
    using evict_space [OF assms(1)] assms(2) by metis
  have v: "valid_pte (load64 (mem s) pte)"
    using assms(2) [of "0x1000"] e(3) by (simp add: upage_def user_pte_def)
  define k1 where "k1 = printk (EVICT 3 0x1000 True) (printk (VICTIM 3 0x1000 0 ''FIFO'') (printk (MEMFULL 3) ?k))"
  have k1: "ph k1 = s" "procs k1 = procs ?k" "cur k1 = 0" "fs k1 = swap_fs 0" "ftable k1 = [a_file]"
    by (simp_all add: k1_def user_kernel_def swap_kernel_def)
  obtain k2 where k2: "proc_swapout_page 0 0x1000 ?f k1 = Some (0, k2)"
    using swap_first_out [OF k1(4,5,2) [unfolded user_kernel_simps], of "0x1000" ?f] by (auto simp: swap_proc_def)
  have ph2: "ph k2 = s"
    using swapout_spec [OF _ _ _ k2] user_kernel_pager [OF assms(1), of False 0 "one_entry 0x1000 RESIDENT True"] k1 
    by (simp add: pager_ok_def k1_def user_kernel_simps low_def PGROUNDDOWN_def)
  then have "\<exists>k3. evict 0x1000 ?f True k1 = Some (True, k3) \<and> ph k3 = s"
    using k2 k1 by (simp add: evict_def Let_def)
  then obtain k3 where k3: "evict 0x1000 ?f True k1 = Some (True, k3)" "ph k3 = s" by blast
  have pid: "p_pid (swap_proc False) = 3" by (simp add: swap_proc_def)
  have "PGROUNDDOWN (ucast (0x1000 :: u32)) = (0x1000 :: u64)" by (simp add: PGROUNDDOWN_def)
  then have "replace_victim 0 ''FIFO'' (printk (MEMFULL 3) ?k) = Some (?f, k3\<lparr>ph := s2\<rparr>)"
    using e v k3 by (simp add: replace_victim_def Let_def one_entry(2) user_kernel_simps pid k1_def [symmetric] with_ph_def k_alloc_def set_mem_def frame_of_def)
  then show ?thesis
    using ka pid one_entry_victim by (simp add: try_kalloc_or_replace_def try_kalloc_or_replace_with_def Let_def fifo_sel_def user_kernel_simps)
qed

theorem replacement_keeps_pages_witness:
  "\<exists>s k'. try_kalloc_or_replace (user_kernel False 0 s (one_entry 0x1000 RESIDENT True)) = Some (frame_of s 0x87FFB000 0x1000, k')
     \<and> contents k' 0x1000 = Some (mem_bytes (mem s) (frame_of s 0x87FFB000 0x1000) 4096)"
proof -
  obtain s where s: "space_ok s 0x87FFB000 []" "\<And>va. upage s 0x87FFB000 va \<longleftrightarrow> va = 0x1000"
    using full_space by blast
  let ?k = "user_kernel False 0 s (one_entry 0x1000 RESIDENT True)"
  obtain k' where k': "try_kalloc_or_replace ?k = Some (frame_of s 0x87FFB000 0x1000, k')"
    using user_kernel_replace [OF s] by blast
  have r: "resident ?k i \<longleftrightarrow> i = 0" for i
    using one_entry(3) [of i "0x1000" RESIDENT True] one_entry(2) [of "0x1000" RESIDENT True] by (auto simp: resident_def user_kernel_simps)
  have v: "victim_page ?k 0 = 0x1000" "victim_dirty ?k 0"
    by (simp_all add: victim_page_def victim_dirty_def user_kernel_simps one_entry(2) PGROUNDDOWN_def)
  have t: "tracked ?k"
    unfolding tracked_def using r v s(2) one_entry(1) user_kernel_pager(2) [OF s(1), of False 0] by (simp add: user_kernel_simps)
  have "dropped ?k = {}"
    using r v by (auto simp: dropped_def)
  then have "contents k' = contents ?k"
    using replacement_keeps_pages [where alloc = try_kalloc_or_replace, OF _ t _ k', of "[]"] user_kernel_pager(1) [OF s(1), of False 0 "one_entry 0x1000 RESIDENT True"] by simp
  moreover have "contents ?k 0x1000 = Some (mem_bytes (mem s) (frame_of s 0x87FFB000 0x1000) 4096)"
    using s(2) [of "0x1000"] by (simp add: contents_def page_of_def user_kernel_simps)
  ultimately show ?thesis
    using k' by (intro exI [of _ s] exI [of _ k']) simp
qed

end
