(* ===== verification/Console.thy ===== *)
theory Console
  imports Vmfault
begin

text \<open>
  The console of \<open>console.c\<close>: the line-editing input buffer, \<open>consoleread\<close>, \<open>consolewrite\<close> and the
  interrupt handler, and \<open>procdump\<close> of \<open>proc.c\<close>. \<open>uartwrite\<close> and \<open>uartputc_sync\<close> append to the
  characters sent.
\<close>

text \<open>
  A system call either returns or goes to sleep; \<open>Asleep i\<close> is the progress of its loop, with which
  it continues when it runs again.
\<close>

datatype 'r blocking = Done 'r | Asleep nat

abbreviation NL :: u8 where "NL \<equiv> 10"
abbreviation CTRL_D :: u8 where "CTRL_D \<equiv> 4"
abbreviation CTRL_H :: u8 where "CTRL_H \<equiv> 8"
abbreviation CTRL_P :: u8 where "CTRL_P \<equiv> 16"
abbreviation CTRL_U :: u8 where "CTRL_U \<equiv> 21"
abbreviation DEL :: u8 where "DEL \<equiv> 127"

definition uart_put :: "u8 list \<Rightarrow> console \<Rightarrow> console" where
  "uart_put cs c = c\<lparr>uart_out := uart_out c @ cs\<rparr>"

text \<open>\<open>None\<close> is \<open>BACKSPACE\<close>.\<close>

definition consputc :: "u8 option \<Rightarrow> console \<Rightarrow> console" where
  "consputc c = (case c of None \<Rightarrow> uart_put [8, 32, 8] | Some c \<Rightarrow> uart_put [c])"

definition upd_cons :: "(console \<Rightarrow> console) \<Rightarrow> kernel \<Rightarrow> kernel" where
  "upd_cons f k = k\<lparr>cons := f (cons k)\<rparr>"

definition k_copyin :: "bool \<Rightarrow> u64 \<Rightarrow> nat \<Rightarrow> kernel \<Rightarrow> (int \<times> u8 list \<times> kernel) option" where
  "k_copyin user src n k = map_option (\<lambda>(r, bs, s, k1). (r, bs, k1\<lparr>fs := s\<rparr>)) (either_copyin user (fs k) k src n)"

definition k_copyout :: "bool \<Rightarrow> u64 \<Rightarrow> u8 list \<Rightarrow> kernel \<Rightarrow> (int \<times> kernel) option" where
  "k_copyout user dst bs k = map_option (\<lambda>(r, s, k1). (r, k1\<lparr>fs := s\<rparr>)) (either_copyout user (fs k) k dst bs)"

section \<open>Writing\<close>

function consolewrite_loop :: "bool \<Rightarrow> u64 \<Rightarrow> nat \<Rightarrow> nat \<Rightarrow> kernel \<Rightarrow> (int \<times> kernel) option" where
  "consolewrite_loop user_src src n i k =
     (if i < n
      then let nn = min 32 (n - i)
           in Option.bind (k_copyin user_src (src + of_nat i) nn k) (\<lambda>(r, buf, k1).
                if r = -1 then Some (int i, k1)
                else consolewrite_loop user_src src n (i + nn) (upd_cons (uart_put buf) k1))
      else Some (int i, k))"
  by pat_completeness auto
termination by (relation "measure (\<lambda>(u, src, n, i, k). n - i)") auto

definition consolewrite :: "bool \<Rightarrow> u64 \<Rightarrow> int \<Rightarrow> kernel \<Rightarrow> (int \<times> kernel) option" where
  "consolewrite user_src src n k = consolewrite_loop user_src src (nat n) 0 k"

section \<open>Reading\<close>

definition buf_at :: "console \<Rightarrow> u32 \<Rightarrow> u8" where
  "buf_at c i = cons_buf c ! (unat i mod INPUT_BUF_SIZE)"

text \<open>The loop of \<open>consoleread\<close> with \<open>i\<close> bytes delivered so far, of \<open>target\<close>.\<close>

function consoleread_loop :: "bool \<Rightarrow> u64 \<Rightarrow> nat \<Rightarrow> nat \<Rightarrow> kernel \<Rightarrow> (int blocking \<times> kernel) option" where
  "consoleread_loop user_dst dst target i k =
     (if i < target
      then if cons_r (cons k) = cons_w (cons k)
           then if p_killed (myproc k) then Some (Done (-1), k)
                else Some (Asleep i, sleep ConsRead k)
           else let c = buf_at (cons k) (cons_r (cons k));
                    k1 = upd_cons (\<lambda>c. c\<lparr>cons_r := cons_r c + 1\<rparr>) k
                in if c = CTRL_D
                   then Some (Done (int i), if 0 < i then upd_cons (\<lambda>c. c\<lparr>cons_r := cons_r c - 1\<rparr>) k1 else k1)
                   else Option.bind (k_copyout user_dst (dst + of_nat i) [c] k1) (\<lambda>(r, k2).
                          if r = -1 then Some (Done (int i), k2)
                          else if c = NL then Some (Done (int (i + 1)), k2)
                          else consoleread_loop user_dst dst target (i + 1) k2)
      else Some (Done (int i), k))"
  by pat_completeness auto
termination by (relation "measure (\<lambda>(u, dst, n, i, k). n - i)") auto

definition consoleread :: "bool \<Rightarrow> u64 \<Rightarrow> int \<Rightarrow> kernel \<Rightarrow> (int blocking \<times> kernel) option" where
  "consoleread user_dst dst n k = consoleread_loop user_dst dst (nat n) 0 k"

declare consolewrite_loop.simps [simp del] consoleread_loop.simps [simp del]

section \<open>The interrupt handler\<close>

definition procdump :: "kernel \<Rightarrow> kernel" where
  "procdump k = printk (PROCDUMP (map (\<lambda>p. (p_pid p, p_state p, p_name p)) (filter (\<lambda>p. p_state p \<noteq> UNUSED) (procs k)))) k"

function kill_line :: "console \<Rightarrow> console" where
  "kill_line c =
     (if cons_e c \<noteq> cons_w c \<and> buf_at c (cons_e c - 1) \<noteq> NL
      then kill_line (consputc None (c\<lparr>cons_e := cons_e c - 1\<rparr>))
      else c)"
  by pat_completeness auto
termination
proof (relation "measure (\<lambda>c. unat (cons_e c - cons_w c))", goal_cases)
  case 1
  show ?case by (rule wf_measure)
next
  case (2 c)
  define d where "d = cons_e c - cons_w c"
  have "d \<noteq> 0" using 2 by (simp add: d_def)
  then have "unat (d - 1) < unat d"
    using unat_gt_0 [of d] by (simp add: unat_sub_if_size unat_eq_zero)
  moreover have "cons_e c - 1 - cons_w c = d - 1" by (simp add: d_def)
  ultimately have "unat (cons_e c - 1 - cons_w c) < unat (cons_e c - cons_w c)" by (simp only: d_def)
  then show ?case by (simp add: consputc_def uart_put_def)
qed

declare kill_line.simps [simp del]

definition consoleintr :: "u8 \<Rightarrow> kernel \<Rightarrow> kernel" where
  "consoleintr ch k =
     (if ch = CTRL_P then procdump k
      else if ch = CTRL_U then upd_cons kill_line k
      else if ch = CTRL_H \<or> ch = DEL
      then (if cons_e (cons k) \<noteq> cons_w (cons k)
            then upd_cons (\<lambda>c. consputc None (c\<lparr>cons_e := cons_e c - 1\<rparr>)) k else k)
      else if ch \<noteq> 0 \<and> cons_e (cons k) - cons_r (cons k) < of_nat INPUT_BUF_SIZE
      then let c1 = (if ch = 13 then NL else ch);
               k1 = upd_cons (\<lambda>c. (consputc (Some c1) c)\<lparr>
                      cons_buf := (cons_buf c)[unat (cons_e c) mod INPUT_BUF_SIZE := c1], cons_e := cons_e c + 1\<rparr>) k
           in if c1 = NL \<or> c1 = CTRL_D \<or> cons_e (cons k1) - cons_r (cons k1) = of_nat INPUT_BUF_SIZE
              then wakeup ConsRead (upd_cons (\<lambda>c. c\<lparr>cons_w := cons_e c\<rparr>) k1)
              else k1
      else k)"

end
