(* ===== verification/Fileops.thy ===== *)
theory Fileops
  imports Console
begin

text \<open>
  Pipes (\<open>pipe.c\<close>) and the operations on open files (\<open>file.c\<close>). A pipe operation that has to wait
  puts the process to sleep and returns \<open>Asleep\<close> with its progress; it goes on from there when the
  process has been woken.
\<close>

section \<open>Pipes\<close>

definition new_pipe :: pipe where
  "new_pipe = \<lparr>pi_data = replicate PIPESIZE 5, nread = 0, nwrite = 0, readopen = True, writeopen = True\<rparr>"

definition close_opt :: "nat option \<Rightarrow> kernel \<Rightarrow> kernel option" where
  "close_opt f k = (case f of None \<Rightarrow> Some k | Some f \<Rightarrow> fileclose f k)"

text \<open>The two files, or \<open>None\<close> for the result -1. The page of the pipe holds the 5s of \<open>kalloc\<close>.\<close>

definition pipealloc :: "kernel \<Rightarrow> ((nat \<times> nat) option \<times> kernel) option" where
  "pipealloc k =
     (case filealloc k of (f0, k1) \<Rightarrow>
      case (if f0 = None then (None, k1) else filealloc k1) of (f1, k2) \<Rightarrow>
      case (if f0 = None \<or> f1 = None then (0, k2) else k_alloc k2) of (pi, k3) \<Rightarrow>
        if pi = 0
        then do { k4 \<leftarrow> close_opt f0 k3; k5 \<leftarrow> close_opt f1 k4; Some (None, k5) }
        else let k4 = upd_file (the f0) (\<lambda>f. f\<lparr>f_type := FD_PIPE, f_readable := True, f_writable := False, f_pipe := pi\<rparr>) k3;
                 k5 = upd_file (the f1) (\<lambda>f. f\<lparr>f_type := FD_PIPE, f_readable := False, f_writable := True, f_pipe := pi\<rparr>) k4
             in Some (Some (the f0, the f1), k5\<lparr>pipes := (pipes k5)(pi \<mapsto> new_pipe)\<rparr>))"

function pipewrite_loop :: "u64 \<Rightarrow> u64 \<Rightarrow> nat \<Rightarrow> nat \<Rightarrow> kernel \<Rightarrow> (int blocking \<times> kernel) option" where
  "pipewrite_loop pi addr n i k =
     (if i < n
      then Option.bind (pipes k pi) (\<lambda>p.
        if \<not> readopen p \<or> p_killed (myproc k) then Some (Done (-1), k)
        else if nwrite p = nread p + of_nat PIPESIZE
        then Some (Asleep i, sleep (PipeWrite pi) (wakeup (PipeRead pi) k))
        else Option.bind (copyin (p_pagetable (myproc k)) (addr + of_nat i) 1 k) (\<lambda>(r, ch, k1).
               if r = -1 then Some (Done (int i), wakeup (PipeRead pi) k1)
               else Option.bind (pipes k1 pi) (\<lambda>p1.
                 let p2 = p1\<lparr>pi_data := (pi_data p1)[unat (nwrite p1) mod PIPESIZE := ch ! 0], nwrite := nwrite p1 + 1\<rparr>
                 in pipewrite_loop pi addr n (i + 1) (k1\<lparr>pipes := (pipes k1)(pi \<mapsto> p2)\<rparr>))))
      else Some (Done (int i), wakeup (PipeRead pi) k))"
  by pat_completeness auto
termination by (relation "measure (\<lambda>(pi, addr, n, i, k). n - i)") auto

definition pipewrite :: "u64 \<Rightarrow> u64 \<Rightarrow> int \<Rightarrow> kernel \<Rightarrow> (int blocking \<times> kernel) option" where
  "pipewrite pi addr n k = pipewrite_loop pi addr (nat n) 0 k"

function piperead_loop :: "u64 \<Rightarrow> u64 \<Rightarrow> nat \<Rightarrow> nat \<Rightarrow> kernel \<Rightarrow> (int \<times> kernel) option" where
  "piperead_loop pi addr n i k =
     (if i < n
      then Option.bind (pipes k pi) (\<lambda>p.
        if nread p = nwrite p then Some (int i, k)
        else let ch = pi_data p ! (unat (nread p) mod PIPESIZE)
             in Option.bind (copyout (p_pagetable (myproc k)) (addr + of_nat i) [ch] k) (\<lambda>(r, k1).
                  if r = -1 then Some (if i = 0 then -1 else int i, k1)
                  else Option.bind (pipes k1 pi) (\<lambda>p1.
                    piperead_loop pi addr n (i + 1) (k1\<lparr>pipes := (pipes k1)(pi \<mapsto> p1\<lparr>nread := nread p1 + 1\<rparr>)\<rparr>))))
      else Some (int i, k))"
  by pat_completeness auto
termination by (relation "measure (\<lambda>(pi, addr, n, i, k). n - i)") auto

definition piperead :: "u64 \<Rightarrow> u64 \<Rightarrow> int \<Rightarrow> kernel \<Rightarrow> (int blocking \<times> kernel) option" where
  "piperead pi addr n k = do {
     p \<leftarrow> pipes k pi;
     if nread p = nwrite p \<and> writeopen p
     then if p_killed (myproc k) then Some (Done (-1), k)
          else Some (Asleep 0, sleep (PipeRead pi) k)
     else do {
       (i, k1) \<leftarrow> piperead_loop pi addr (nat n) 0 k;
       Some (Done i, wakeup (PipeWrite pi) k1)
     }
   }"

declare pipewrite_loop.simps [simp del] piperead_loop.simps [simp del]

section \<open>Open files\<close>

text \<open>The 24 bytes of \<open>struct stat\<close> on this machine: four bytes of padding follow the first fields.\<close>

definition le_bytes :: "nat \<Rightarrow> 'a :: len word \<Rightarrow> u8 list" where
  "le_bytes n w = map (\<lambda>i. ucast (drop_bit (8 * i) w)) [0..<n]"

definition stat_bytes :: "stat \<Rightarrow> u8 list \<Rightarrow> u8 list" where
  "stat_bytes st pad = le_bytes 4 (st_dev st) @ le_bytes 4 (st_ino st) @ le_bytes 2 (st_type st) @ le_bytes 2 (st_nlink st) @
     take 4 (pad @ replicate 4 0) @ le_bytes 8 (st_size st)"

definition filestat :: "u8 list \<Rightarrow> nat \<Rightarrow> u64 \<Rightarrow> kernel \<Rightarrow> (int \<times> kernel) option" where
  "filestat pad f addr k =
     (let ff = ftable k ! f
      in if f_type ff = FD_INODE \<or> f_type ff = FD_DEVICE
         then do {
           k1 \<leftarrow> with_fs (\<lambda>s. ilock s (f_ip ff)) k;
           let st = stati (fs k1) (f_ip ff);
           k2 \<leftarrow> with_fs (\<lambda>s. iunlock s (f_ip ff)) k1;
           (r, k3) \<leftarrow> copyout (p_pagetable (myproc k2)) addr (stat_bytes st pad) k2;
           Some (if r < 0 then -1 else 0, k3)
         }
         else Some (-1, k))"

text \<open>The device switch: \<open>consoleinit\<close> fills the entry of the console, the others are null.\<close>

definition has_dev :: "int \<Rightarrow> bool" where
  "has_dev major \<longleftrightarrow> \<not> (major < 0 \<or> major \<ge> NDEV) \<and> major = 1"

definition fileread :: "nat \<Rightarrow> u64 \<Rightarrow> int \<Rightarrow> kernel \<Rightarrow> (int blocking \<times> kernel) option" where
  "fileread f addr n k =
     (let ff = ftable k ! f
      in if \<not> f_readable ff then Some (Done (-1), k)
         else case f_type ff of
           FD_PIPE \<Rightarrow> piperead (f_pipe ff) addr n k
         | FD_DEVICE \<Rightarrow> if has_dev (f_major ff) then consoleread True addr n k else Some (Done (-1), k)
         | FD_INODE \<Rightarrow> do {
             k1 \<leftarrow> with_fs (\<lambda>s. ilock s (f_ip ff)) k;
             (r, k2) \<leftarrow> k_readi True (f_ip ff) addr (f_off (ftable k1 ! f)) (word_of_int n) k1;
             let k3 = (if r > 0 then upd_file f (\<lambda>f. f\<lparr>f_off := f_off f + word_of_int r\<rparr>) k2 else k2);
             k4 \<leftarrow> with_fs (\<lambda>s. iunlock s (f_ip ff)) k3;
             Some (Done r, k4)
           }
         | FD_NONE \<Rightarrow> None)"

text \<open>Three blocks at a time.\<close>

abbreviation max_write :: int where "max_write \<equiv> (MAXOPBLOCKS - 1 - 1 - 2) div 2 * 1024"

definition write_chunk :: "nat \<Rightarrow> u64 \<Rightarrow> int \<Rightarrow> kernel \<Rightarrow> (int \<times> kernel) option" where
  "write_chunk f addr n1 k = do {
     k1 \<leftarrow> with_fs begin_op k;
     k2 \<leftarrow> with_fs (\<lambda>s. ilock s (f_ip (ftable k1 ! f))) k1;
     (r, k3) \<leftarrow> k_writei True (f_ip (ftable k2 ! f)) addr (f_off (ftable k2 ! f)) (word_of_int n1) k2;
     let k4 = (if r > 0 then upd_file f (\<lambda>f. f\<lparr>f_off := f_off f + word_of_int r\<rparr>) k3 else k3);
     k5 \<leftarrow> with_fs (\<lambda>s. iunlock s (f_ip (ftable k4 ! f))) k4;
     Some (r, k_end_op k5)
   }"

function filewrite_loop :: "nat \<Rightarrow> u64 \<Rightarrow> int \<Rightarrow> int \<Rightarrow> kernel \<Rightarrow> (int \<times> kernel) option" where
  "filewrite_loop f addr n i k =
     (if i < n
      then let n1 = min (n - i) max_write
           in Option.bind (write_chunk f (addr + word_of_int i) n1 k) (\<lambda>(r, k1).
                if r \<noteq> n1 then Some (i, k1)
                else filewrite_loop f addr n (i + r) k1)
      else Some (i, k))"
  by pat_completeness auto
termination by (relation "measure (\<lambda>(f, addr, n, i, k). nat (n - i))") auto

declare filewrite_loop.simps [simp del]

definition filewrite :: "nat \<Rightarrow> u64 \<Rightarrow> int \<Rightarrow> kernel \<Rightarrow> (int blocking \<times> kernel) option" where
  "filewrite f addr n k =
     (let ff = ftable k ! f
      in if \<not> f_writable ff then Some (Done (-1), k)
         else case f_type ff of
           FD_PIPE \<Rightarrow> pipewrite (f_pipe ff) addr n k
         | FD_DEVICE \<Rightarrow>
             if has_dev (f_major ff) then map_option (\<lambda>(r, k1). (Done r, k1)) (consolewrite True addr n k) else Some (Done (-1), k)
         | FD_INODE \<Rightarrow> do {
             (i, k1) \<leftarrow> filewrite_loop f addr n 0 k;
             Some (Done (if i = n then n else -1), k1)
           }
         | FD_NONE \<Rightarrow> None)"

end
