(* ===== verification/Proc.thy ===== *)
theory Proc
  imports Fileops
begin

text \<open>
  Processes (\<open>proc.c\<close>): allocation and freeing, the user page table, \<open>fork\<close>, \<open>exit\<close>, \<open>wait\<close>,
  \<open>kill\<close>, and the growth of user memory. \<open>tr\<close> is the physical address of the trampoline page.
  \<open>kexit\<close> ends with the process a zombie at the point where it enters the scheduler.
\<close>

section \<open>Trapframe\<close>

text \<open>The trapframe is a page of memory; its fields are words at fixed offsets.\<close>

abbreviation TF_kernel_satp :: u64 where "TF_kernel_satp \<equiv> 0"
abbreviation TF_kernel_sp :: u64 where "TF_kernel_sp \<equiv> 8"
abbreviation TF_kernel_trap :: u64 where "TF_kernel_trap \<equiv> 16"
abbreviation TF_epc :: u64 where "TF_epc \<equiv> 24"
abbreviation TF_kernel_hartid :: u64 where "TF_kernel_hartid \<equiv> 32"
abbreviation TF_sp :: u64 where "TF_sp \<equiv> 48"
abbreviation TF_a0 :: u64 where "TF_a0 \<equiv> 112"
abbreviation TF_a1 :: u64 where "TF_a1 \<equiv> 120"
abbreviation TF_a7 :: u64 where "TF_a7 \<equiv> 168"

definition tf_get :: "nat \<Rightarrow> u64 \<Rightarrow> kernel \<Rightarrow> u64" where
  "tf_get p off k = load64 (mem (ph k)) (p_trapframe (procs k ! p) + off)"

definition tf_set :: "nat \<Rightarrow> u64 \<Rightarrow> u64 \<Rightarrow> kernel \<Rightarrow> kernel" where
  "tf_set p off v k = set_mem (store64 (mem (ph k)) (p_trapframe (procs k ! p) + off) v) k"

section \<open>The table of processes\<close>

definition procinit :: "kernel \<Rightarrow> kernel" where
  "procinit k = k\<lparr>procs := map (\<lambda>i. (procs k ! i)\<lparr>p_state := UNUSED, p_kstack := KSTACK (of_nat i)\<rparr>) [0..<length (procs k)]\<rparr>"

definition allocpid :: "kernel \<Rightarrow> int \<times> kernel" where
  "allocpid k = (nextpid k, k\<lparr>nextpid := nextpid k + 1\<rparr>)"

definition proc_pagetable :: "u64 \<Rightarrow> nat \<Rightarrow> kernel \<Rightarrow> (u64 \<times> kernel) option" where
  "proc_pagetable tr p k =
     (case uvmcreate (ph k) of (pt, m) \<Rightarrow>
        let k1 = k\<lparr>ph := m\<rparr>
        in if pt = 0 then Some (0, k1)
           else do {
             (r, k2) \<leftarrow> with_ph_ret (\<lambda>m. mappages m pt TRAMPOLINE PGSIZE tr (PTE_R OR PTE_X)) k1;
             if r < 0 then do { k3 \<leftarrow> with_ph (\<lambda>m. uvmfree m pt 0) k2; Some (0, k3) }
             else do {
               (r, k3) \<leftarrow> with_ph_ret (\<lambda>m. mappages m pt TRAPFRAME PGSIZE (p_trapframe (procs k2 ! p)) (PTE_R OR PTE_W)) k2;
               if r < 0
               then do {
                 k4 \<leftarrow> with_ph (\<lambda>m. uvmunmap m pt TRAMPOLINE 1 False) k3;
                 k5 \<leftarrow> with_ph (\<lambda>m. uvmfree m pt 0) k4;
                 Some (0, k5)
               }
               else Some (pt, k3)
             }
           })"

definition proc_freepagetable :: "u64 \<Rightarrow> u64 \<Rightarrow> kernel \<Rightarrow> kernel option" where
  "proc_freepagetable pt sz k = do {
     k1 \<leftarrow> with_ph (\<lambda>m. uvmunmap m pt TRAMPOLINE 1 False) k;
     k2 \<leftarrow> with_ph (\<lambda>m. uvmunmap m pt TRAPFRAME 1 False) k1;
     with_ph (\<lambda>m. uvmfree m pt sz) k2
   }"

definition freeproc :: "nat \<Rightarrow> kernel \<Rightarrow> kernel option" where
  "freeproc p k = do {
     k1 \<leftarrow> (if p_trapframe (procs k ! p) \<noteq> 0 then with_ph (\<lambda>m. kfree m (p_trapframe (procs k ! p))) k else Some k);
     let k2 = upd_proc p (\<lambda>q. q\<lparr>p_trapframe := 0\<rparr>) k1;
     k3 \<leftarrow> (if p_pagetable (procs k2 ! p) \<noteq> 0
       then proc_freepagetable (p_pagetable (procs k2 ! p)) (p_sz (procs k2 ! p)) k2 else Some k2);
     let k4 = upd_proc p (\<lambda>q. q\<lparr>p_pagetable := 0\<rparr>) k3;
     k5 \<leftarrow> (case exec_ip (procs k4 ! p) of
       Some ip \<Rightarrow> map_option (upd_proc p (\<lambda>q. q\<lparr>exec_ip := None\<rparr>)) (with_fs (\<lambda>s. iput s ip) k4)
     | None \<Rightarrow> Some k4);
     Some (upd_proc p (\<lambda>q. q\<lparr>p_sz := 0, p_pid := 0, p_parent := None, p_name := [], p_chan := NoChan,
             p_killed := False, p_xstate := 0, p_state := UNUSED\<rparr>) k5)
   }"

text \<open>The page metadata and the swap table of a new process.\<close>

definition new_memstat :: "int \<Rightarrow> proc_mem_stat" where
  "new_memstat pid = \<lparr>ms_pid = pid, num_pages_total = 0, num_resident_pages = 0, ms_num_swapped_pages = 0, next_fifo_seq = 0,
     ms_pages = replicate MAX_PAGES_INFO \<lparr>ps_va = 0, ps_state = UNMAPPED, ps_dirty = False, ps_seq = 0, ps_slot = -1\<rparr>\<rparr>"

definition init_proc :: "int \<Rightarrow> proc \<Rightarrow> proc" where
  "init_proc pid q = q\<lparr>p_pid := pid, p_state := USED, p_swapfile := None, p_num_swapped_pages := 0,
     p_swap_table := replicate MAX_SWAP_PAGES free_slot, p_memstat := new_memstat pid,
     p_seg := (p_seg q)\<lparr>text_start := 0, text_end := 0, data_start := 0, data_end := 0, heap_start := 0, stack_top := 0\<rparr>,
     p_cnt := \<lparr>pagefault_count = 0, resident_pages = 0, swapped_pages = 0, swapin_count = 0, swapout_count = 0\<rparr>,
     vmtrace := True\<rparr>"

definition allocproc :: "u64 \<Rightarrow> kernel \<Rightarrow> (nat option \<times> kernel) option" where
  "allocproc tr k =
     (case first_idx (\<lambda>q. p_state q = UNUSED) (procs k) of
        None \<Rightarrow> Some (None, k)
      | Some p \<Rightarrow>
          (case allocpid k of (pid, k1) \<Rightarrow>
           case k_alloc (upd_proc p (init_proc pid) k1) of (tf, k2) \<Rightarrow>
             let k3 = upd_proc p (\<lambda>q. q\<lparr>p_trapframe := tf\<rparr>) k2
             in if tf = 0 then do { k4 \<leftarrow> freeproc p k3; Some (None, k4) }
                else do {
                  (pt, k4) \<leftarrow> proc_pagetable tr p k3;
                  let k5 = upd_proc p (\<lambda>q. q\<lparr>p_pagetable := pt\<rparr>) k4;
                  if pt = 0 then do { k6 \<leftarrow> freeproc p k5; Some (None, k6) }
                  else Some (Some p, k5)
                }))"

definition userinit :: "u64 \<Rightarrow> kernel \<Rightarrow> kernel option" where
  "userinit tr k = do {
     (p, k1) \<leftarrow> allocproc tr k;
     p \<leftarrow> p;
     (cwd, k2) \<leftarrow> with_fs_ret (\<lambda>s. namei s 0 [slash]) (k1\<lparr>initproc := p\<rparr>);
     Some (upd_proc p (\<lambda>q. q\<lparr>p_cwd := cwd, p_state := RUNNABLE\<rparr>) k2)
   }"

definition growproc :: "int \<Rightarrow> kernel \<Rightarrow> (int \<times> kernel) option" where
  "growproc n k =
     (let sz = p_sz (myproc k); pt = p_pagetable (myproc k); new = sz + word_of_int n
      in if n > 0
         then if new > TRAPFRAME then Some (-1, k)
              else do {
                (sz1, k1) \<leftarrow> with_ph_ret (\<lambda>m. uvmalloc m pt sz new PTE_W) k;
                if sz1 = 0 then Some (-1, k1)
                else Some (0, upd_proc (cur k1) (\<lambda>q. q\<lparr>p_sz := sz1\<rparr>) k1)
              }
         else if n < 0
         then do {
           (sz1, k1) \<leftarrow> with_ph_ret (\<lambda>m. uvmdealloc m pt sz new) k;
           Some (0, upd_proc (cur k1) (\<lambda>q. q\<lparr>p_sz := sz1\<rparr>) k1)
         }
         else Some (0, k))"

section \<open>fork\<close>

text \<open>The open files of \<open>p\<close>, duplicated into \<open>np\<close>.\<close>

definition dup_files :: "nat \<Rightarrow> nat \<Rightarrow> kernel \<Rightarrow> kernel option" where
  "dup_files p np k = fold_opt (\<lambda>i k.
     case p_ofile (procs k ! p) ! i of
       None \<Rightarrow> Some k
     | Some f \<Rightarrow> map_option (upd_proc np (\<lambda>q. q\<lparr>p_ofile := (p_ofile q)[i := Some f]\<rparr>)) (filedup f k)) [0..<NOFILE] k"

definition kfork :: "u64 \<Rightarrow> kernel \<Rightarrow> (int \<times> kernel) option" where
  "kfork tr k = do {
     (r, k1) \<leftarrow> allocproc tr k;
     let p = cur k1;
     (case r of
        None \<Rightarrow> Some (-1, k1)
      | Some np \<Rightarrow> do {
          (c, k2) \<leftarrow> with_ph_ret (\<lambda>m. uvmcopy m (p_pagetable (procs k1 ! p)) (p_pagetable (procs k1 ! np)) (p_sz (procs k1 ! p))) k1;
          if c < 0 then do { k3 \<leftarrow> freeproc np k2; Some (-1, k3) }
          else do {
            let k3 = upd_proc np (\<lambda>q. q\<lparr>p_sz := p_sz (procs k2 ! p)\<rparr>) k2;
            let k4 = set_mem (store_bytes (mem (ph k3)) (p_trapframe (procs k3 ! np))
                       (mem_bytes (mem (ph k3)) (p_trapframe (procs k3 ! p)) 288)) k3;
            k6 \<leftarrow> dup_files p np (tf_set np TF_a0 0 k4);
            cwd \<leftarrow> p_cwd (procs k6 ! p);
            let k7 = k6\<lparr>fs := idup (fs k6) cwd\<rparr>;
            let src = procs k7 ! p;
            let k8 = upd_proc np (\<lambda>q. q\<lparr>p_cwd := Some cwd, p_name := take 15 (p_name src), p_seg := p_seg src\<rparr>) k7;
            let k9 = (case exec_ip src of
              None \<Rightarrow> k8
            | Some ip \<Rightarrow> upd_proc np (\<lambda>q. q\<lparr>exec_ip := Some ip\<rparr>) (k8\<lparr>fs := idup (fs k8) ip\<rparr>));
            Some (p_pid (procs k9 ! np), upd_proc np (\<lambda>q. q\<lparr>p_parent := Some p, p_state := RUNNABLE\<rparr>) k9)
          }
        })
   }"

section \<open>exit and wait\<close>

definition reparent :: "nat \<Rightarrow> kernel \<Rightarrow> kernel" where
  "reparent p k = fold (\<lambda>i k.
     if p_parent (procs k ! i) = Some p
     then wakeup (ProcChan (initproc k)) (upd_proc i (\<lambda>q. q\<lparr>p_parent := Some (initproc k)\<rparr>) k)
     else k) [0..<length (procs k)] k"

definition close_files :: "nat \<Rightarrow> kernel \<Rightarrow> kernel option" where
  "close_files p k = fold_opt (\<lambda>fd k.
     case p_ofile (procs k ! p) ! fd of
       None \<Rightarrow> Some k
     | Some f \<Rightarrow> map_option (upd_proc p (\<lambda>q. q\<lparr>p_ofile := (p_ofile q)[fd := None]\<rparr>)) (fileclose f k)) [0..<NOFILE] k"

definition parent_chan :: "nat option \<Rightarrow> chan" where
  "parent_chan p = (case p of None \<Rightarrow> NoChan | Some q \<Rightarrow> ProcChan q)"

definition kexit :: "int \<Rightarrow> kernel \<Rightarrow> kernel option" where
  "kexit status k =
     (let p = cur k
      in if p = initproc k then None
         else do {
           k1 \<leftarrow> close_files p k;
           k2 \<leftarrow> with_fs begin_op k1;
           cwd \<leftarrow> p_cwd (procs k2 ! p);
           k3 \<leftarrow> with_fs (\<lambda>s. iput s cwd) k2;
           let k4 = upd_proc p (\<lambda>q. q\<lparr>p_cwd := None\<rparr>) (k_end_op k3);
           k5 \<leftarrow> (if p_swapfile (procs k4 ! p) = None then Some k4
             else do {
               (freed, k') \<leftarrow> swapfile_cleanup p k4;
               Some (printk (SWAPCLEANUP (p_pid (procs k' ! p)) freed) k')
             });
           let k6 = reparent p k5;
           let k7 = wakeup (parent_chan (p_parent (procs k6 ! p))) k6;
           Some (upd_proc p (\<lambda>q. q\<lparr>p_xstate := status, p_state := ZOMBIE\<rparr>) k7)
         })"

definition kwait :: "u64 \<Rightarrow> kernel \<Rightarrow> (int blocking \<times> kernel) option" where
  "kwait addr k =
     (let p = cur k
      in case first_idx (\<lambda>q. p_parent q = Some p \<and> p_state q = ZOMBIE) (procs k) of
           Some pp \<Rightarrow>
             let pid = p_pid (procs k ! pp)
             in do {
               (r, k1) \<leftarrow> (if addr \<noteq> 0
                 then copyout (p_pagetable (procs k ! p)) addr (le_bytes 4 (word_of_int (p_xstate (procs k ! pp)) :: u32)) k
                 else Some (0, k));
               if r < 0 then Some (Done (-1), k1)
               else do { k2 \<leftarrow> freeproc pp k1; Some (Done pid, k2) }
             }
         | None \<Rightarrow>
             if (\<forall>q \<in> set (procs k). p_parent q \<noteq> Some p) \<or> p_killed (procs k ! p) then Some (Done (-1), k)
             else Some (Asleep 0, sleep (ProcChan p) k))"

section \<open>kill and scheduling\<close>

definition kkill :: "int \<Rightarrow> kernel \<Rightarrow> int \<times> kernel" where
  "kkill pid k =
     (case first_idx (\<lambda>q. p_pid q = pid) (procs k) of
        Some p \<Rightarrow> (0, upd_proc p (\<lambda>q. q\<lparr>p_killed := True,
                     p_state := (if p_state q = SLEEPING then RUNNABLE else p_state q)\<rparr>) k)
      | None \<Rightarrow> (-1, k))"

definition yield :: "kernel \<Rightarrow> kernel" where
  "yield k = upd_proc (cur k) (\<lambda>q. q\<lparr>p_state := RUNNABLE\<rparr>) k"

text \<open>One position of the scheduler's scan: process \<open>p\<close> is made to run when it is runnable.\<close>

definition sched_try :: "nat \<Rightarrow> kernel \<Rightarrow> kernel option" where
  "sched_try p k =
     (if p_state (procs k ! p) = RUNNABLE
      then Some ((upd_proc p (\<lambda>q. q\<lparr>p_state := RUNNING\<rparr>) k)\<lparr>cur := p\<rparr>) else None)"

end
