(* ===== verification/Exec.thy ===== *)
theory Exec
  imports Proc
begin

text \<open>
  \<open>kexec\<close> of \<open>exec.c\<close>, which records the segments of the executable for lazy loading instead of
  loading them. The path and the arguments are C strings in kernel memory, given as byte lists.
\<close>

section \<open>ELF headers\<close>

abbreviation ELF_MAGIC :: u32 where "ELF_MAGIC \<equiv> 0x464C457F"
abbreviation ELF_PROG_LOAD :: u32 where "ELF_PROG_LOAD \<equiv> 1"
abbreviation MAXARG :: nat where "MAXARG \<equiv> 32"

definition le_word :: "u8 list \<Rightarrow> nat \<Rightarrow> nat \<Rightarrow> 'a :: len word" where
  "le_word bs o' n = foldr (\<lambda>b w. ucast b OR push_bit 8 w) (take n (drop o' bs)) 0"

record elfhdr =
  elf_magic :: u32
  elf_entry :: u64
  elf_phoff :: u64
  elf_phnum :: u16

definition parse_elfhdr :: "u8 list \<Rightarrow> elfhdr" where
  "parse_elfhdr bs = \<lparr>elf_magic = le_word bs 0 4, elf_entry = le_word bs 24 8, elf_phoff = le_word bs 32 8, elf_phnum = le_word bs 56 2\<rparr>"

record proghdr =
  ph_type :: u32
  ph_flags :: u32
  ph_off :: u64
  ph_vaddr :: u64
  ph_filesz :: u64
  ph_memsz :: u64

definition parse_proghdr :: "u8 list \<Rightarrow> proghdr" where
  "parse_proghdr bs = \<lparr>ph_type = le_word bs 0 4, ph_flags = le_word bs 4 4, ph_off = le_word bs 8 8, ph_vaddr = le_word bs 16 8,
     ph_filesz = le_word bs 32 8, ph_memsz = le_word bs 40 8\<rparr>"

definition read_local :: "fsys \<Rightarrow> nat \<Rightarrow> u32 \<Rightarrow> nat \<Rightarrow> (u8 list option \<times> fsys) option" where
  "read_local s ip off n = do {
     (r, s1, bs) \<leftarrow> readi local_out s [] ip 0 off (of_nat n);
     Some (if r = int n then Some bs else None, s1)
   }"

section \<open>Recording the segments\<close>

text \<open>What one loadable program header adds: \<open>None\<close> is the jump to \<open>bad\<close>.\<close>

definition phdr_ok :: "proghdr \<Rightarrow> bool" where
  "phdr_ok h \<longleftrightarrow> \<not> ph_memsz h < ph_filesz h \<and> \<not> ph_vaddr h + ph_memsz h < ph_vaddr h \<and> ph_vaddr h mod PGSIZE = 0"

definition add_segment :: "proghdr \<Rightarrow> seginfo \<Rightarrow> seginfo" where
  "add_segment h g =
     (if ph_flags h AND 1 \<noteq> 0
      then g\<lparr>text_start := (if text_start g = 0 then ph_vaddr h else text_start g), text_end := ph_vaddr h + ph_memsz h,
             text_off := ucast (ph_off h), text_filesz := ucast (ph_filesz h), text_memsz := ucast (ph_memsz h), text_flags := ph_flags h\<rparr>
      else g\<lparr>data_start := (if data_start g = 0 then ph_vaddr h else data_start g), data_end := ph_vaddr h + ph_memsz h,
             data_off := ucast (ph_off h), data_filesz := ucast (ph_filesz h), data_memsz := ucast (ph_memsz h), data_flags := ph_flags h\<rparr>)"

primrec phdr_loop :: "nat \<Rightarrow> fsys \<Rightarrow> nat \<Rightarrow> u32 \<Rightarrow> seginfo \<Rightarrow> u64 \<Rightarrow> (bool \<times> seginfo \<times> u64 \<times> fsys) option" where
  "phdr_loop 0 s ip off g sz = Some (True, g, sz, s)"
| "phdr_loop (Suc n) s ip off g sz =
     Option.bind (read_local s ip off 56) (\<lambda>(r, s1).
       case r of
         None \<Rightarrow> Some (False, g, sz, s1)
       | Some bs \<Rightarrow>
           let h = parse_proghdr bs
           in if ph_type h \<noteq> ELF_PROG_LOAD then phdr_loop n s1 ip (off + 56) g sz
              else if \<not> phdr_ok h then Some (False, g, sz, s1)
              else phdr_loop n s1 ip (off + 56) (add_segment h g)
                     (if ph_vaddr h + ph_memsz h > sz then ph_vaddr h + ph_memsz h else sz))"

definition empty_seg :: seginfo where
  "empty_seg = \<lparr>text_start = 0, text_end = 0, data_start = 0, data_end = 0, heap_start = 0, stack_top = 0,
     text_off = 0, text_filesz = 0, text_memsz = 0, text_flags = 0, data_off = 0, data_filesz = 0, data_memsz = 0, data_flags = 0\<rparr>"

section \<open>The user stack\<close>

text \<open>
  The loop that copies the argument strings, from argument \<open>argc\<close> on. The result is whether it
  ran to the end, the stack pointer and the addresses of the strings.
\<close>

fun push_args :: "u64 \<Rightarrow> u64 \<Rightarrow> u8 list list \<Rightarrow> u64 \<Rightarrow> u64 list \<Rightarrow> kernel \<Rightarrow> (bool \<times> u64 \<times> u64 list \<times> kernel) option" where
  "push_args pt stackbase [] sp ustack k = Some (True, sp, ustack, k)"
| "push_args pt stackbase (a # as) sp ustack k =
     (if length ustack \<ge> MAXARG then Some (False, sp, ustack, k)
      else let sp1 = sp - (of_nat (length a) + 1); sp2 = sp1 - sp1 mod 16
           in if sp2 < stackbase then Some (False, sp2, ustack, k)
              else Option.bind (copyout pt sp2 (a @ [0]) k) (\<lambda>(r, k1).
                     if r < 0 then Some (False, sp2, ustack, k1)
                     else push_args pt stackbase as sp2 (ustack @ [sp2]) k1))"

text \<open>With \<open>MAXARG\<close> arguments the terminating zero would be written past the end of \<open>ustack\<close>.\<close>

definition push_ustack :: "u64 \<Rightarrow> u64 \<Rightarrow> u8 list list \<Rightarrow> u64 \<Rightarrow> kernel \<Rightarrow> (bool \<times> u64 \<times> kernel) option" where
  "push_ustack pt stackbase argv sp k = do {
     (ok, sp1, ustack, k1) \<leftarrow> push_args pt stackbase argv sp [] k;
     if \<not> ok then Some (False, sp1, k1)
     else if length ustack \<ge> MAXARG then None
     else let n = of_nat (length ustack) + 1; sp2 = sp1 - n * 8; sp3 = sp2 - sp2 mod 16
          in if sp3 < stackbase then Some (False, sp3, k1)
             else do {
               (r, k2) \<leftarrow> copyout pt sp3 (concat (map (le_bytes 8) (ustack @ [0]))) k1;
               Some (\<not> r < 0, sp3, k2)
             }
   }"

definition last_element :: "u8 list \<Rightarrow> u8 list" where
  "last_element path = rev (takeWhile (\<lambda>c. c \<noteq> slash) (rev path))"

section \<open>kexec\<close>

text \<open>The label \<open>bad\<close>: the page table (0 when there is none yet) and the inode are given up.\<close>

definition exec_bad :: "u64 \<Rightarrow> u64 \<Rightarrow> nat \<Rightarrow> kernel \<Rightarrow> (int \<times> kernel) option" where
  "exec_bad pt sz ip k = do {
     k1 \<leftarrow> (if pt \<noteq> 0 then proc_freepagetable pt sz k else Some k);
     k2 \<leftarrow> with_fs (\<lambda>s. ilock s ip) k1;
     k3 \<leftarrow> with_fs (\<lambda>s. iunlockput s ip) k2;
     Some (-1, k_end_op k3)
   }"

definition exec_commit :: "u64 \<Rightarrow> u64 \<Rightarrow> u64 \<Rightarrow> u64 \<Rightarrow> seginfo \<Rightarrow> u8 list \<Rightarrow> nat \<Rightarrow> kernel \<Rightarrow> kernel option" where
  "exec_commit pt sz sp entry g path ip k =
     (let p = cur k; oldpt = p_pagetable (procs k ! p); oldsz = p_sz (procs k ! p);
          k1 = upd_proc p (\<lambda>q. q\<lparr>p_name := take 15 (last_element path), p_pagetable := pt, p_sz := sz\<rparr>) (tf_set p TF_a1 sp k);
          k2 = tf_set p TF_sp sp (tf_set p TF_epc entry k1)
      in do {
        k3 \<leftarrow> proc_freepagetable oldpt oldsz k2;
        let seg_end = (if data_end g \<noteq> 0 then data_end g else text_end g);
        let k4 = upd_proc p (\<lambda>q. q\<lparr>p_seg := g\<lparr>heap_start := PGROUNDUP seg_end, stack_top := sp\<rparr>\<rparr>) k3;
        k5 \<leftarrow> with_fs (\<lambda>s. ilock s ip) k4;
        k6 \<leftarrow> with_fs (\<lambda>s. iunlockput s ip)
                (upd_proc p (\<lambda>q. q\<lparr>exec_ip := Some ip\<rparr>) (k5\<lparr>fs := idup (fs k5) ip\<rparr>));
        let k7 = k_end_op k6;
        let q = procs k7 ! p;
        let k8 = printk (INIT_LAZYMAP (p_pid q) (text_start (p_seg q), text_end (p_seg q)) (data_start (p_seg q), data_end (p_seg q))
                   (heap_start (p_seg q)) (stack_top (p_seg q))) k7;
        (r, k9) \<leftarrow> swapfile_create p k8;
        Some (printk (if r = 0 then SWAPFILE_created (p_pid q) else SWAPFILE_create_failed (p_pid q)) k9)
      })"

text \<open>From the allocation of the stack on, with the inode unlocked.\<close>

definition exec_stack :: "u64 \<Rightarrow> u64 \<Rightarrow> u64 \<Rightarrow> seginfo \<Rightarrow> u8 list \<Rightarrow> u8 list list \<Rightarrow> nat \<Rightarrow> kernel \<Rightarrow> (int \<times> kernel) option" where
  "exec_stack pt sz0 entry g path argv ip k =
     (let sz = PGROUNDUP sz0
      in do {
        (sz1, k1) \<leftarrow> with_ph_ret (\<lambda>m. uvmalloc m pt sz (sz + (USERSTACK + 1) * PGSIZE) PTE_W) k;
        if sz1 = 0 then exec_bad pt sz ip k1
        else do {
          k2 \<leftarrow> with_ph (\<lambda>m. uvmclear m pt (sz1 - (USERSTACK + 1) * PGSIZE)) k1;
          (ok, sp, k3) \<leftarrow> push_ustack pt (sz1 - USERSTACK * PGSIZE) argv sz1 k2;
          if \<not> ok then exec_bad pt sz1 ip k3
          else do {
            k4 \<leftarrow> exec_commit pt sz1 sp entry g path ip k3;
            Some (int (length argv), k4)
          }
        }
      })"

definition kexec :: "u64 \<Rightarrow> u8 list \<Rightarrow> u8 list list \<Rightarrow> kernel \<Rightarrow> (int \<times> kernel) option" where
  "kexec tr path argv k = do {
     k1 \<leftarrow> with_fs begin_op k;
     (r, k2) \<leftarrow> with_fs_ret (\<lambda>s. namei s (kcwd k1) path) k1;
     (case r of
        None \<Rightarrow> Some (-1, k_end_op k2)
      | Some ip \<Rightarrow> do {
          k3 \<leftarrow> with_fs (\<lambda>s. ilock s ip) k2;
          (r, k4) \<leftarrow> with_fs_ret (\<lambda>s. read_local s ip 0 64) k3;
          (case r of
             None \<Rightarrow> exec_bad 0 0 ip k4
           | Some bs \<Rightarrow>
               let elf = parse_elfhdr bs
               in if elf_magic elf \<noteq> ELF_MAGIC then exec_bad 0 0 ip k4
                  else do {
                    (pt, k5) \<leftarrow> proc_pagetable tr (cur k4) k4;
                    if pt = 0 then exec_bad 0 0 ip k5
                    else do {
                      ((ok, g, sz), k6) \<leftarrow> with_fs_ret (\<lambda>s. map_option (\<lambda>(ok, g, sz, s). ((ok, g, sz), s))
                        (phdr_loop (unat (elf_phnum elf)) s ip (ucast (elf_phoff elf)) empty_seg 0)) k5;
                      if \<not> ok then exec_bad pt sz ip k6
                      else do {
                        k7 \<leftarrow> with_fs (\<lambda>s. iunlock s ip) k6;
                        exec_stack pt sz (elf_entry elf) g path argv ip k7
                      }
                    }
                  })
        })
   }"

end
