(* ===== verification/Syscall.thy ===== *)
theory Syscall
  imports Exec
begin

text \<open>
  System calls: fetching arguments (\<open>syscall.c\<close>), the file-system calls (\<open>sysfile.c\<close>), the process
  calls (\<open>sysproc.c\<close>) and the dispatch. A call returns a value, goes to sleep with the progress of
  its loop, or ends the process.
\<close>

datatype outcome = Returns u64 | Sleeps nat | Exits

type_synonym sysresult = "(outcome \<times> kernel) option"

definition ret :: "int \<Rightarrow> kernel \<Rightarrow> sysresult" where
  "ret r k = Some (Returns (word_of_int r), k)"

definition ret_int :: "(int \<times> kernel) option \<Rightarrow> sysresult" where
  "ret_int r = map_option (\<lambda>(r, k). (Returns (word_of_int r), k)) r"

definition ret_blocking :: "(int blocking \<times> kernel) option \<Rightarrow> sysresult" where
  "ret_blocking r = map_option (\<lambda>(b, k). (case b of Done r \<Rightarrow> Returns (word_of_int r) | Asleep i \<Rightarrow> Sleeps i, k)) r"

section \<open>Arguments\<close>

definition fetchaddr :: "u64 \<Rightarrow> kernel \<Rightarrow> (u64 option \<times> kernel) option" where
  "fetchaddr addr k =
     (if addr \<ge> p_sz (myproc k) \<or> addr + 8 > p_sz (myproc k) then Some (None, k)
      else do {
        (r, bs, k1) \<leftarrow> copyin (p_pagetable (myproc k)) addr 8 k;
        Some (if r \<noteq> 0 then None else Some (le_word bs 0 8), k1)
      })"

definition fetchstr :: "u64 \<Rightarrow> nat \<Rightarrow> kernel \<Rightarrow> (u8 list option \<times> kernel) option" where
  "fetchstr addr maxlen k = do {
     (r, str, k1) \<leftarrow> copyinstr (p_pagetable (myproc k)) addr maxlen k;
     Some (if r < 0 then None else Some str, k1)
   }"

definition argraw :: "nat \<Rightarrow> kernel \<Rightarrow> u64" where
  "argraw n k = tf_get (cur k) (TF_a0 + 8 * of_nat n) k"

definition argint :: "nat \<Rightarrow> kernel \<Rightarrow> int" where
  "argint n k = sint (ucast (argraw n k) :: u32)"

definition argaddr :: "nat \<Rightarrow> kernel \<Rightarrow> u64" where
  "argaddr n k = argraw n k"

abbreviation MAXPATH :: nat where "MAXPATH \<equiv> 128"

definition argstr :: "nat \<Rightarrow> nat \<Rightarrow> kernel \<Rightarrow> (u8 list option \<times> kernel) option" where
  "argstr n maxlen k = fetchstr (argaddr n k) maxlen k"

text \<open>The descriptor and its file.\<close>

definition argfd :: "nat \<Rightarrow> kernel \<Rightarrow> (nat \<times> nat) option" where
  "argfd n k =
     (let fd = argint n k
      in if fd < 0 \<or> fd \<ge> int NOFILE then None
         else map_option (\<lambda>f. (nat fd, f)) (p_ofile (myproc k) ! nat fd))"

definition fdalloc :: "nat \<Rightarrow> kernel \<Rightarrow> int \<times> kernel" where
  "fdalloc f k =
     (case first_idx (\<lambda>x. x = None) (p_ofile (myproc k)) of
        Some fd \<Rightarrow> (int fd, upd_proc (cur k) (\<lambda>p. p\<lparr>p_ofile := (p_ofile p)[fd := Some f]\<rparr>) k)
      | None \<Rightarrow> (-1, k))"

definition fdclear :: "nat \<Rightarrow> kernel \<Rightarrow> kernel" where
  "fdclear fd k = upd_proc (cur k) (\<lambda>p. p\<lparr>p_ofile := (p_ofile p)[fd := None]\<rparr>) k"

section \<open>Calls on open files\<close>

definition sys_dup :: "kernel \<Rightarrow> sysresult" where
  "sys_dup k =
     (case argfd 0 k of
        None \<Rightarrow> ret (-1) k
      | Some (_, f) \<Rightarrow>
          (case fdalloc f k of (fd, k1) \<Rightarrow>
             if fd < 0 then ret (-1) k1 else Option.bind (filedup f k1) (\<lambda>k2. ret fd k2)))"

definition sys_read :: "kernel \<Rightarrow> sysresult" where
  "sys_read k =
     (case argfd 0 k of
        None \<Rightarrow> ret (-1) k
      | Some (_, f) \<Rightarrow> ret_blocking (fileread f (argaddr 1 k) (argint 2 k) k))"

definition sys_write :: "kernel \<Rightarrow> sysresult" where
  "sys_write k =
     (case argfd 0 k of
        None \<Rightarrow> ret (-1) k
      | Some (_, f) \<Rightarrow> ret_blocking (filewrite f (argaddr 1 k) (argint 2 k) k))"

definition sys_close :: "kernel \<Rightarrow> sysresult" where
  "sys_close k =
     (case argfd 0 k of
        None \<Rightarrow> ret (-1) k
      | Some (fd, f) \<Rightarrow> Option.bind (fileclose f (fdclear fd k)) (\<lambda>k1. ret 0 k1))"

definition sys_fstat :: "u8 list \<Rightarrow> kernel \<Rightarrow> sysresult" where
  "sys_fstat pad k =
     (case argfd 0 k of
        None \<Rightarrow> ret (-1) k
      | Some (_, f) \<Rightarrow> ret_int (filestat pad f (argaddr 1 k) k))"

section \<open>Calls on paths\<close>

definition fs_namei :: "u8 list \<Rightarrow> kernel \<Rightarrow> (nat option \<times> kernel) option" where
  "fs_namei path k = with_fs_ret (\<lambda>s. namei s (kcwd k) path) k"

definition fs_nameiparent :: "u8 list \<Rightarrow> kernel \<Rightarrow> ((nat \<times> u8 list) option \<times> kernel) option" where
  "fs_nameiparent path k = with_fs_ret (\<lambda>s. nameiparent s (kcwd k) path) k"

definition set_inode :: "nat \<Rightarrow> (inode \<Rightarrow> inode) \<Rightarrow> kernel \<Rightarrow> kernel option" where
  "set_inode ip f k = with_fs (\<lambda>s. iupdate (upd_inode ip f s) ip) k"

definition fail_end :: "kernel \<Rightarrow> sysresult" where
  "fail_end k = ret (-1) (k_end_op k)"

definition put_fail :: "nat \<Rightarrow> kernel \<Rightarrow> sysresult" where
  "put_fail ip k = Option.bind (with_fs (\<lambda>s. iunlockput s ip) k) fail_end"

definition link_bad :: "nat \<Rightarrow> kernel \<Rightarrow> sysresult" where
  "link_bad ip k = do {
     k1 \<leftarrow> with_fs (\<lambda>s. ilock s ip) k;
     k2 \<leftarrow> set_inode ip (\<lambda>i. i\<lparr>i_nlink := i_nlink i - 1\<rparr>) k1;
     put_fail ip k2
   }"

text \<open>The body of \<open>sys_link\<close> once both strings are fetched.\<close>

definition link_paths :: "u8 list \<Rightarrow> u8 list \<Rightarrow> kernel \<Rightarrow> sysresult" where
  "link_paths old new k = do {
     k1 \<leftarrow> with_fs begin_op k;
     (r, k2) \<leftarrow> fs_namei old k1;
     (case r of
        None \<Rightarrow> fail_end k2
      | Some ip \<Rightarrow> do {
          k3 \<leftarrow> with_fs (\<lambda>s. ilock s ip) k2;
          if i_type (itable (fs k3) ! ip) = T_DIR then put_fail ip k3
          else do {
            k4 \<leftarrow> set_inode ip (\<lambda>i. i\<lparr>i_nlink := i_nlink i + 1\<rparr>) k3;
            k5 \<leftarrow> with_fs (\<lambda>s. iunlock s ip) k4;
            (r, k6) \<leftarrow> fs_nameiparent new k5;
            (case r of
               None \<Rightarrow> link_bad ip k6
             | Some (dp, name) \<Rightarrow> do {
                 k7 \<leftarrow> with_fs (\<lambda>s. ilock s dp) k6;
                 (c, k8) \<leftarrow> (if i_dev (itable (fs k7) ! dp) \<noteq> i_dev (itable (fs k7) ! ip) then Some (-1, k7)
                   else with_fs_ret (\<lambda>s. dirlink s dp name (i_inum (itable s ! ip))) k7);
                 k9 \<leftarrow> with_fs (\<lambda>s. iunlockput s dp) k8;
                 if c < 0 then link_bad ip k9
                 else do {
                   k10 \<leftarrow> with_fs (\<lambda>s. iput s ip) k9;
                   ret 0 (k_end_op k10)
                 }
               })
          }
        })
   }"

definition sys_link :: "kernel \<Rightarrow> sysresult" where
  "sys_link k = do {
     (old, k1) \<leftarrow> argstr 0 MAXPATH k;
     (case old of
        None \<Rightarrow> ret (-1) k1
      | Some old \<Rightarrow> do {
          (new, k2) \<leftarrow> argstr 1 MAXPATH k1;
          (case new of None \<Rightarrow> ret (-1) k2 | Some new \<Rightarrow> link_paths old new k2)
        })
   }"

function isdirempty_loop :: "fsys \<Rightarrow> nat \<Rightarrow> u32 \<Rightarrow> (bool \<times> fsys) option" where
  "isdirempty_loop s dp off =
     (if off < i_size (itable s ! dp)
      then Option.bind (readi local_out s [] dp 0 off 16) (\<lambda>(r, s1, de).
             if r \<noteq> 16 then None
             else if de_inum de \<noteq> 0 then Some (False, s1)
             else isdirempty_loop s1 dp (off + 16))
      else Some (True, s))"
  by pat_completeness auto
termination
proof (relation "measure (\<lambda>(s, dp, off). 2 ^ 32 - unat off)", goal_cases)
  case 1
  show ?case by (rule wf_measure)
next
  case (2 s dp off)
  then show ?case using off_step [OF readi_no_wrap, of _ _ _ _ _ off] by fastforce
qed

declare isdirempty_loop.simps [simp del]

definition isdirempty :: "fsys \<Rightarrow> nat \<Rightarrow> (bool \<times> fsys) option" where
  "isdirempty s dp = isdirempty_loop s dp 32"

definition unlink_path :: "u8 list \<Rightarrow> kernel \<Rightarrow> sysresult" where
  "unlink_path path k = do {
     k1 \<leftarrow> with_fs begin_op k;
     (r, k2) \<leftarrow> fs_nameiparent path k1;
     (case r of
        None \<Rightarrow> fail_end k2
      | Some (dp, name) \<Rightarrow> do {
          k3 \<leftarrow> with_fs (\<lambda>s. ilock s dp) k2;
          if namecmp name dot = 0 \<or> namecmp name dotdot = 0 then put_fail dp k3
          else do {
            (r, k4) \<leftarrow> with_fs_ret (\<lambda>s. dirlookup s dp name) k3;
            (case r of
               None \<Rightarrow> put_fail dp k4
             | Some (ip, off) \<Rightarrow> do {
                 k5 \<leftarrow> with_fs (\<lambda>s. ilock s ip) k4;
                 let i = itable (fs k5) ! ip;
                 if sint (i_nlink i) < 1 then None
                 else do {
                   (empty, k6) \<leftarrow> (if i_type i = T_DIR then with_fs_ret (\<lambda>s. isdirempty s ip) k5 else Some (True, k5));
                   if \<not> empty
                   then do { k7 \<leftarrow> with_fs (\<lambda>s. iunlockput s ip) k6; put_fail dp k7 }
                   else do {
                     (n, k7) \<leftarrow> with_fs_ret (\<lambda>s. map_option (\<lambda>(n, s1, _). (n, s1)) (writei local_in s (replicate 16 0) dp 0 off 16)) k6;
                     if n \<noteq> 16 then None
                     else do {
                       k8 \<leftarrow> (if i_type (itable (fs k7) ! ip) = T_DIR
                         then set_inode dp (\<lambda>i. i\<lparr>i_nlink := i_nlink i - 1\<rparr>) k7 else Some k7);
                       k9 \<leftarrow> with_fs (\<lambda>s. iunlockput s dp) k8;
                       k10 \<leftarrow> set_inode ip (\<lambda>i. i\<lparr>i_nlink := i_nlink i - 1\<rparr>) k9;
                       k11 \<leftarrow> with_fs (\<lambda>s. iunlockput s ip) k10;
                       ret 0 (k_end_op k11)
                     }
                   }
                 }
               })
          }
        })
   }"

definition sys_unlink :: "kernel \<Rightarrow> sysresult" where
  "sys_unlink k = do {
     (path, k1) \<leftarrow> argstr 0 MAXPATH k;
     (case path of None \<Rightarrow> ret (-1) k1 | Some path \<Rightarrow> unlink_path path k1)
   }"

text \<open>\<open>create\<close> is the function that \<open>kcreate\<close> of \<open>swap.c\<close> repeats.\<close>

definition create :: "u8 list \<Rightarrow> u16 \<Rightarrow> u16 \<Rightarrow> u16 \<Rightarrow> kernel \<Rightarrow> (nat option \<times> kernel) option" where
  "create path type major minor k = with_fs_ret (\<lambda>s. kcreate s (kcwd k) path type major minor) k"

abbreviation O_RDONLY :: u32 where "O_RDONLY \<equiv> 0"
abbreviation O_WRONLY :: u32 where "O_WRONLY \<equiv> 1"
abbreviation O_RDWR :: u32 where "O_RDWR \<equiv> 2"
abbreviation O_CREATE :: u32 where "O_CREATE \<equiv> 0x200"
abbreviation O_TRUNC :: u32 where "O_TRUNC \<equiv> 0x400"

text \<open>\<open>sys_open\<close> from the locked inode on.\<close>

definition open_inode :: "nat \<Rightarrow> u32 \<Rightarrow> kernel \<Rightarrow> sysresult" where
  "open_inode ip omode k =
     (let i = itable (fs k) ! ip; major = sint (i_major i)
      in if i_type i = T_DEVICE \<and> (major < 0 \<or> major \<ge> NDEV) then put_fail ip k
         else case filealloc k of
           (None, k1) \<Rightarrow> put_fail ip k1
         | (Some f, k1) \<Rightarrow>
             (case fdalloc f k1 of (fd, k2) \<Rightarrow>
                if fd < 0 then Option.bind (fileclose f k2) (put_fail ip)
                else let k3 = upd_file f (\<lambda>f. (if i_type i = T_DEVICE then f\<lparr>f_type := FD_DEVICE, f_major := major\<rparr>
                                else f\<lparr>f_type := FD_INODE, f_off := 0\<rparr>)\<lparr>f_ip := ip,
                                f_readable := (omode AND O_WRONLY = 0),
                                f_writable := (omode AND O_WRONLY \<noteq> 0 \<or> omode AND O_RDWR \<noteq> 0)\<rparr>) k2
                     in do {
                       k4 \<leftarrow> (if omode AND O_TRUNC \<noteq> 0 \<and> i_type i = T_FILE then with_fs (\<lambda>s. itrunc s ip) k3 else Some k3);
                       k5 \<leftarrow> with_fs (\<lambda>s. iunlock s ip) k4;
                       ret fd (k_end_op k5)
                     }))"

definition open_path :: "u8 list \<Rightarrow> u32 \<Rightarrow> kernel \<Rightarrow> sysresult" where
  "open_path path omode k = do {
     k1 \<leftarrow> with_fs begin_op k;
     if omode AND O_CREATE \<noteq> 0
     then do {
       (r, k2) \<leftarrow> create path T_FILE 0 0 k1;
       (case r of None \<Rightarrow> fail_end k2 | Some ip \<Rightarrow> open_inode ip omode k2)
     }
     else do {
       (r, k2) \<leftarrow> fs_namei path k1;
       (case r of
          None \<Rightarrow> fail_end k2
        | Some ip \<Rightarrow> do {
            k3 \<leftarrow> with_fs (\<lambda>s. ilock s ip) k2;
            if i_type (itable (fs k3) ! ip) = T_DIR \<and> omode \<noteq> O_RDONLY then put_fail ip k3
            else open_inode ip omode k3
          })
     }
   }"

definition sys_open :: "kernel \<Rightarrow> sysresult" where
  "sys_open k = do {
     (path, k1) \<leftarrow> argstr 0 MAXPATH k;
     (case path of None \<Rightarrow> ret (-1) k1 | Some path \<Rightarrow> open_path path (word_of_int (argint 1 k)) k1)
   }"

definition make_node :: "u8 list option \<Rightarrow> u16 \<Rightarrow> u16 \<Rightarrow> u16 \<Rightarrow> kernel \<Rightarrow> sysresult" where
  "make_node path type major minor k =
     (case path of
        None \<Rightarrow> fail_end k
      | Some path \<Rightarrow> do {
          (r, k1) \<leftarrow> create path type major minor k;
          (case r of
             None \<Rightarrow> fail_end k1
           | Some ip \<Rightarrow> Option.bind (with_fs (\<lambda>s. iunlockput s ip) k1) (\<lambda>k2. ret 0 (k_end_op k2)))
        })"

definition sys_mkdir :: "kernel \<Rightarrow> sysresult" where
  "sys_mkdir k = do {
     k1 \<leftarrow> with_fs begin_op k;
     (path, k2) \<leftarrow> argstr 0 MAXPATH k1;
     make_node path T_DIR 0 0 k2
   }"

definition sys_mknod :: "kernel \<Rightarrow> sysresult" where
  "sys_mknod k = do {
     k1 \<leftarrow> with_fs begin_op k;
     (path, k2) \<leftarrow> argstr 0 MAXPATH k1;
     make_node path T_DEVICE (word_of_int (argint 1 k1)) (word_of_int (argint 2 k1)) k2
   }"

definition sys_chdir :: "kernel \<Rightarrow> sysresult" where
  "sys_chdir k = do {
     k1 \<leftarrow> with_fs begin_op k;
     (path, k2) \<leftarrow> argstr 0 MAXPATH k1;
     (case path of
        None \<Rightarrow> fail_end k2
      | Some path \<Rightarrow> do {
          (r, k3) \<leftarrow> fs_namei path k2;
          (case r of
             None \<Rightarrow> fail_end k3
           | Some ip \<Rightarrow> do {
               k4 \<leftarrow> with_fs (\<lambda>s. ilock s ip) k3;
               if i_type (itable (fs k4) ! ip) \<noteq> T_DIR then put_fail ip k4
               else do {
                 k5 \<leftarrow> with_fs (\<lambda>s. iunlock s ip) k4;
                 cwd \<leftarrow> p_cwd (myproc k5);
                 k6 \<leftarrow> with_fs (\<lambda>s. iput s cwd) k5;
                 ret 0 (upd_proc (cur k6) (\<lambda>p. p\<lparr>p_cwd := Some ip\<rparr>) (k_end_op k6))
               }
             })
        })
   }"

section \<open>exec and pipe\<close>

text \<open>
  The loop of \<open>sys_exec\<close> that fetches the arguments, from argument \<open>i\<close> on, with \<open>n\<close> entries of
  \<open>argv\<close> left: the pages allocated so far, and the strings, or \<open>None\<close> for the jump to \<open>bad\<close>.
\<close>

fun fetch_argv :: "nat \<Rightarrow> u64 \<Rightarrow> nat \<Rightarrow> (u64 \<times> u8 list) list \<Rightarrow> kernel \<Rightarrow> (bool \<times> (u64 \<times> u8 list) list \<times> kernel) option" where
  "fetch_argv 0 uargv i args k = Some (False, args, k)"
| "fetch_argv (Suc n) uargv i args k =
     Option.bind (fetchaddr (uargv + 8 * of_nat i) k) (\<lambda>(r, k1).
       case r of
         None \<Rightarrow> Some (False, args, k1)
       | Some uarg \<Rightarrow>
           if uarg = 0 then Some (True, args, k1)
           else case k_alloc k1 of (page, k2) \<Rightarrow>
             if page = 0 then Some (False, args, k2)
             else Option.bind (fetchstr uarg 4096 k2) (\<lambda>(str, k3).
               case str of
                 None \<Rightarrow> Some (False, args @ [(page, [])], k3)
               | Some str \<Rightarrow> fetch_argv n uargv (i + 1) (args @ [(page, str)])
                                (set_mem (store_bytes (mem (ph k3)) page (str @ [0])) k3)))"

definition free_args :: "(u64 \<times> u8 list) list \<Rightarrow> kernel \<Rightarrow> kernel option" where
  "free_args args k = fold_opt (\<lambda>a k. with_ph (\<lambda>m. kfree m (fst a)) k) args k"

definition sys_exec :: "u64 \<Rightarrow> kernel \<Rightarrow> sysresult" where
  "sys_exec tr k = do {
     (path, k1) \<leftarrow> argstr 0 MAXPATH k;
     (case path of
        None \<Rightarrow> ret (-1) k1
      | Some path \<Rightarrow> do {
          (ok, args, k2) \<leftarrow> fetch_argv MAXARG (argaddr 1 k) 0 [] k1;
          if ok
          then do {
            (r, k3) \<leftarrow> kexec tr path (map snd args) k2;
            k4 \<leftarrow> free_args args k3;
            ret r k4
          }
          else do { k3 \<leftarrow> free_args args k2; ret (-1) k3 }
        })
   }"

definition int_bytes :: "int \<Rightarrow> u8 list" where
  "int_bytes i = le_bytes 4 (word_of_int i :: u32)"

definition close_both :: "nat \<Rightarrow> nat \<Rightarrow> kernel \<Rightarrow> sysresult" where
  "close_both rf wrf k = do { k1 \<leftarrow> fileclose rf k; k2 \<leftarrow> fileclose wrf k1; ret (-1) k2 }"

definition sys_pipe :: "kernel \<Rightarrow> sysresult" where
  "sys_pipe k =
     (let fdarray = argaddr 0 k
      in do {
        (r, k1) \<leftarrow> pipealloc k;
        (case r of
           None \<Rightarrow> ret (-1) k1
         | Some (rf, wrf) \<Rightarrow>
             (case fdalloc rf k1 of (fd0, k2) \<Rightarrow>
              case (if fd0 < 0 then (-1, k2) else fdalloc wrf k2) of (fd1, k3) \<Rightarrow>
                if fd1 < 0 then close_both rf wrf (if fd0 \<ge> 0 then fdclear (nat fd0) k3 else k3)
                else do {
                  (c0, k4) \<leftarrow> copyout (p_pagetable (myproc k3)) fdarray (int_bytes fd0) k3;
                  (c1, k5) \<leftarrow> (if c0 < 0 then Some (-1, k4)
                    else copyout (p_pagetable (myproc k4)) (fdarray + 4) (int_bytes fd1) k4);
                  if c1 < 0 then close_both rf wrf (fdclear (nat fd1) (fdclear (nat fd0) k5))
                  else ret 0 k5
                }))
      })"

section \<open>Process calls\<close>

definition sys_exit :: "kernel \<Rightarrow> sysresult" where
  "sys_exit k = map_option (\<lambda>k1. (Exits, k1)) (kexit (argint 0 k) k)"

definition sys_getpid :: "kernel \<Rightarrow> sysresult" where
  "sys_getpid k = ret (p_pid (myproc k)) k"

definition sys_fork :: "u64 \<Rightarrow> kernel \<Rightarrow> sysresult" where
  "sys_fork tr k = ret_int (kfork tr k)"

definition sys_wait :: "kernel \<Rightarrow> sysresult" where
  "sys_wait k = ret_blocking (kwait (argaddr 0 k) k)"

abbreviation SBRK_EAGER :: int where "SBRK_EAGER \<equiv> 1"

definition sys_sbrk :: "kernel \<Rightarrow> sysresult" where
  "sys_sbrk k =
     (let n = argint 0 k; t = argint 1 k; addr = p_sz (myproc k); new = addr + word_of_int n
      in if t = SBRK_EAGER \<or> n < 0
         then do {
           (r, k1) \<leftarrow> growproc n k;
           if r < 0 then ret (-1) k1 else Some (Returns addr, k1)
         }
         else if new < addr then ret (-1) k
         else if new > TRAPFRAME then ret (-1) k
         else Some (Returns addr, upd_proc (cur k) (\<lambda>p. p\<lparr>p_sz := p_sz p + word_of_int n\<rparr>) k))"

text \<open>The loop of \<open>sys_pause\<close>; \<open>ticks0\<close> is when the call began.\<close>

definition pause_loop :: "u32 \<Rightarrow> int \<Rightarrow> kernel \<Rightarrow> sysresult" where
  "pause_loop ticks0 n k =
     (if ticks k - ticks0 < word_of_int n
      then if p_killed (myproc k) then ret (-1) k
           else Some (Sleeps (unat ticks0), sleep Ticks k)
      else ret 0 k)"

definition sys_pause :: "kernel \<Rightarrow> sysresult" where
  "sys_pause k = (let n = argint 0 k in pause_loop (ticks k) (if n < 0 then 0 else n) k)"

definition sys_kill :: "kernel \<Rightarrow> sysresult" where
  "sys_kill k = (case kkill (argint 0 k) k of (r, k1) \<Rightarrow> ret r k1)"

definition sys_uptime :: "kernel \<Rightarrow> sysresult" where
  "sys_uptime k = Some (Returns (ucast (ticks k)), k)"

definition sys_memstat :: "kernel \<Rightarrow> sysresult" where
  "sys_memstat k =
     (let p = myproc k; c = p_cnt p
      in ret 0 (printk (MEMSTAT_report (p_pid p) (p_name p) (resident_pages c) (swapped_pages c) (next_fifo_seq (p_memstat p))
           (pagefault_count c) (swapin_count c) (swapout_count c)) k))"

section \<open>Dispatch\<close>

definition syscalls :: "u64 \<Rightarrow> u8 list \<Rightarrow> int \<Rightarrow> (kernel \<Rightarrow> sysresult) option" where
  "syscalls tr pad num =
     (if num = 1 then Some (sys_fork tr) else if num = 2 then Some sys_exit else if num = 3 then Some sys_wait
      else if num = 4 then Some sys_pipe else if num = 5 then Some sys_read else if num = 6 then Some sys_kill
      else if num = 7 then Some (sys_exec tr) else if num = 8 then Some (sys_fstat pad) else if num = 9 then Some sys_chdir
      else if num = 10 then Some sys_dup else if num = 11 then Some sys_getpid else if num = 12 then Some sys_sbrk
      else if num = 13 then Some sys_pause else if num = 14 then Some sys_uptime else if num = 15 then Some sys_open
      else if num = 16 then Some sys_write else if num = 17 then Some sys_mknod else if num = 18 then Some sys_unlink
      else if num = 19 then Some sys_link else if num = 20 then Some sys_mkdir else if num = 21 then Some sys_close
      else if num = 22 then Some sys_memstat else None)"

text \<open>The value is stored in the trapframe when the call returns.\<close>

definition syscall :: "u64 \<Rightarrow> u8 list \<Rightarrow> kernel \<Rightarrow> sysresult" where
  "syscall tr pad k =
     (let num = sint (ucast (tf_get (cur k) TF_a7 k) :: u32)
      in case syscalls tr pad num of
           Some f \<Rightarrow> do {
             (r, k1) \<leftarrow> f k;
             Some (r, case r of Returns v \<Rightarrow> tf_set (cur k1) TF_a0 v k1 | _ \<Rightarrow> k1)
           }
         | None \<Rightarrow> Some (Returns (-1), tf_set (cur k) TF_a0 (-1) (printk (UNKNOWN_syscall (p_pid (myproc k)) (p_name (myproc k)) num) k)))"

end
