(* ===== verification/Trap.thy ===== *)
theory Trap
  imports Syscall
begin

text \<open>
  Traps (\<open>trap.c\<close>): the page-fault handler with demand paging and swapping, the dispatch of
  \<open>usertrap\<close>, timer and device interrupts. The registers a trap reads and writes are a record; the
  addresses of the linker symbols it uses are another. The disk interrupt has no effect here: the
  disk of \<open>Fs\<close> is synchronous.
\<close>

section \<open>Page faults\<close>

abbreviation SCAUSE_EXEC :: u64 where "SCAUSE_EXEC \<equiv> 12"
abbreviation SCAUSE_READ :: u64 where "SCAUSE_READ \<equiv> 13"
abbreviation SCAUSE_WRITE :: u64 where "SCAUSE_WRITE \<equiv> 15"

definition access_of :: "u64 \<Rightarrow> access" where
  "access_of sc = (if sc = SCAUSE_WRITE then Write else if sc = SCAUSE_READ then Read else Exec)"

definition was_swapped :: "proc \<Rightarrow> u64 \<Rightarrow> bool" where
  "was_swapped p va0 \<longleftrightarrow> (\<exists>e \<in> set (ms_pages (p_memstat p)). ps_state e = SWAPPED \<and> ps_va e = ucast va0)"

definition classify :: "proc \<Rightarrow> u64 \<Rightarrow> u64 \<Rightarrow> fault_cause" where
  "classify p sc va =
     (if in_guard p va then Guard
      else if was_swapped p (PGROUNDDOWN va) then Swap
      else if in_text p va \<or> in_data p va then ExecSeg
      else if in_stack p va \<and> sc \<noteq> SCAUSE_EXEC then Stack
      else if in_heap p va \<and> sc \<noteq> SCAUSE_EXEC then Heap
      else Invalid)"

definition upd_memstat :: "(proc_mem_stat \<Rightarrow> proc_mem_stat) \<Rightarrow> kernel \<Rightarrow> kernel" where
  "upd_memstat f k = upd_proc (cur k) (\<lambda>p. p\<lparr>p_memstat := f (p_memstat p)\<rparr>) k"

text \<open>The first entry with the page's address, when it satisfies \<open>Q\<close>, becomes dirty.\<close>

definition set_dirty :: "(page_stat \<Rightarrow> bool) \<Rightarrow> u64 \<Rightarrow> proc_mem_stat \<Rightarrow> proc_mem_stat" where
  "set_dirty Q va0 ms =
     (case first_idx (\<lambda>e. ps_va e = ucast va0 \<and> Q e) (ms_pages ms) of
        Some i \<Rightarrow> upd_page i (\<lambda>e. e\<lparr>ps_dirty := True\<rparr>) ms
      | None \<Rightarrow> ms)"

definition trace_event :: "event \<Rightarrow> kernel \<Rightarrow> kernel" where
  "trace_event ev k = (if vmtrace (myproc k) then printk ev k else k)"

text \<open>A page has become resident: it gets the next sequence number.\<close>

definition note_resident :: "u64 \<Rightarrow> kernel \<Rightarrow> kernel" where
  "note_resident va0 k =
     (let seq = next_fifo_seq (p_memstat (myproc k));
          k1 = upd_memstat (\<lambda>ms. ms\<lparr>next_fifo_seq := seq + 1\<rparr>) k;
          k2 = trace_event (RESIDENT_page (p_pid (myproc k)) va0 seq) k1
      in upd_memstat (\<lambda>ms. memstat_mark_resident ms va0 seq) k2)"

definition inc_resident :: "kernel \<Rightarrow> kernel" where
  "inc_resident k = upd_proc (cur k) (upd_cnt (\<lambda>c. c\<lparr>resident_pages := resident_pages c + 1\<rparr>)) k"

definition kill_cur :: "kernel \<Rightarrow> kernel" where
  "kill_cur k = setkilled (cur k) k"

definition free_and_kill :: "u64 \<Rightarrow> kernel \<Rightarrow> kernel option" where
  "free_and_kill pa k = map_option kill_cur (with_ph (\<lambda>m. kfree m pa) k)"

definition mapped_at :: "kernel \<Rightarrow> u64 \<Rightarrow> u64 \<Rightarrow> bool option" where
  "mapped_at k pt va0 = do {
     (pte, _) \<leftarrow> walk (ph k) pt va0 False;
     Some (pte \<noteq> 0 \<and> load64 (mem (ph k)) pte AND PTE_V \<noteq> 0)
   }"

text \<open>A fault on a heap, stack or swapped page.\<close>

definition anon_fault :: "allocator \<Rightarrow> bool \<Rightarrow> u64 \<Rightarrow> u64 \<Rightarrow> kernel \<Rightarrow> kernel option" where
  "anon_fault alloc swapped sc va k =
     (let p = myproc k; pid = p_pid p; va0 = PGROUNDDOWN va
      in do {
        mapped \<leftarrow> mapped_at k (p_pagetable p) va0;
        if sc = SCAUSE_EXEC then Some (kill_cur (printk (KILL_invalid_access pid va (access_of sc)) k))
        else if \<not> mapped
        then if in_guard p va0 then Some (kill_cur (printk (KILL_guard_page pid va0) k))
             else do {
               (buf, k1) \<leftarrow> alloc k;
               if buf = 0 then Some (kill_cur k1)
               else do {
                 (r, k2) \<leftarrow> (if swapped then swapin_page (cur k1) va0 buf k1
                   else Some (0, set_mem (memset (mem (ph k1)) buf 0 4096) k1));
                 if r < 0 then free_and_kill buf k2
                 else do {
                   (c, k3) \<leftarrow> with_ph_ret (\<lambda>m. mappages m (p_pagetable (myproc k2)) va0 PGSIZE buf (PTE_U OR PTE_R OR PTE_W)) k2;
                   if c < 0 then free_and_kill buf k3
                   else let k4 = (if swapped then k3 else trace_event (ALLOC pid va0) k3);
                            k5 = note_resident va0 k4;
                            k6 = (if sc = SCAUSE_WRITE then upd_memstat (set_dirty (\<lambda>e. True) va0) k5 else k5)
                        in Some (inc_resident k6)
                 }
               }
             }
        else if sc = SCAUSE_WRITE then Some (upd_memstat (set_dirty (\<lambda>e. ps_state e = RESIDENT) va0) k)
        else Some k
      })"

text \<open>Changing the flags of the entry of a mapped page.\<close>

definition upd_pte :: "u64 \<Rightarrow> (u64 \<Rightarrow> u64) \<Rightarrow> kernel \<Rightarrow> kernel option" where
  "upd_pte va0 f k = do {
     (pte, _) \<leftarrow> walk (ph k) (p_pagetable (myproc k)) va0 False;
     Some (if pte = 0 then k else set_mem (store64 (mem (ph k)) pte (f (load64 (mem (ph k)) pte))) k)
   }"

definition text_page :: "proc \<Rightarrow> u64 \<Rightarrow> bool" where
  "text_page p va0 \<longleftrightarrow> va0 \<ge> text_start (p_seg p) \<and> va0 < text_end (p_seg p)"

text \<open>A page of the executable that is not mapped: allocate, zero, load, map.\<close>

definition load_exec_page :: "allocator \<Rightarrow> u64 \<Rightarrow> kernel \<Rightarrow> kernel option" where
  "load_exec_page alloc va0 k = do {
     (buf, k1) \<leftarrow> alloc k;
     if buf = 0 then Some (kill_cur k1)
     else let p = myproc k1; text = text_page p va0; (off, filesz) = seg_range (p_seg p) text va0;
              k2 = set_mem (memset (mem (ph k1)) buf 0 4096) k1
          in do {
            (ok, k3) \<leftarrow> (case exec_ip p of
               Some ip \<Rightarrow> if filesz > 0
                 then do { (n, k') \<leftarrow> load_from ip buf off filesz k2; Some (n = int (unat filesz), k') }
                 else Some (True, k2)
             | None \<Rightarrow> Some (True, k2));
            if \<not> ok then free_and_kill buf k3
            else do {
              (c, k4) \<leftarrow> with_ph_ret (\<lambda>m. mappages m (p_pagetable p) va0 PGSIZE buf (PTE_U OR PTE_R OR (if text then PTE_X else 0))) k3;
              if c < 0 then free_and_kill buf k4
              else Some (inc_resident (note_resident va0 (trace_event (LOADEXEC (p_pid p) va0) k4)))
            }
          }
   }"

definition exec_fault :: "allocator \<Rightarrow> u64 \<Rightarrow> u64 \<Rightarrow> kernel \<Rightarrow> kernel option" where
  "exec_fault alloc sc va k =
     (let p = myproc k; va0 = PGROUNDDOWN va; text = text_page p va0
      in do {
        _ \<leftarrow> mapped_at k (p_pagetable p) va0;
        pa \<leftarrow> walkaddr (ph k) (p_pagetable p) va0;
        if sc = SCAUSE_WRITE \<and> text then Some (kill_cur (trace_event (KILL_write_to_text (p_pid p) va) k))
        else if pa = 0 then load_exec_page alloc va0 k
        else if sc = SCAUSE_WRITE
        then do {
          (pte, _) \<leftarrow> walk (ph k) (p_pagetable p) va0 False;
          if pte = 0 then Some k
          else do {
            k1 \<leftarrow> upd_pte va0 (\<lambda>x. x OR PTE_W) k;
            Some (upd_memstat (set_dirty (\<lambda>e. True) va0) k1)
          }
        }
        else upd_pte va0 (\<lambda>x. if text then (x OR (PTE_U OR PTE_R) OR PTE_X) AND NOT PTE_W
               else (x OR (PTE_U OR PTE_R)) AND NOT PTE_W AND NOT PTE_X) k
      })"

definition page_fault_with :: "allocator \<Rightarrow> u64 \<Rightarrow> u64 \<Rightarrow> kernel \<Rightarrow> kernel option" where
  "page_fault_with alloc sc va k =
     (let p = myproc k; pid = p_pid p; cause = classify p sc va;
          k1 = upd_proc (cur k) (upd_cnt (\<lambda>c. c\<lparr>pagefault_count := pagefault_count c + 1\<rparr>)) k;
          k2 = trace_event (PAGEFAULT pid va (access_of sc) cause) k1
      in case cause of
           Guard \<Rightarrow> Some (kill_cur (printk (KILL_invalid_access pid va (access_of sc)) k2))
         | Invalid \<Rightarrow> Some (kill_cur (printk (KILL_invalid_access pid va (access_of sc)) k2))
         | ExecSeg \<Rightarrow> exec_fault alloc sc va k2
         | Swap \<Rightarrow> anon_fault alloc True sc va k2
         | _ \<Rightarrow> anon_fault alloc False sc va k2)"

definition page_fault :: "u64 \<Rightarrow> u64 \<Rightarrow> kernel \<Rightarrow> kernel option" where
  "page_fault = page_fault_with try_kalloc_or_replace"

definition bonus_page_fault :: "u64 \<Rightarrow> u64 \<Rightarrow> kernel \<Rightarrow> kernel option" where
  "bonus_page_fault = page_fault_with bonus_try_kalloc_or_replace"

section \<open>Interrupts\<close>

record regs =
  r_sstatus :: u64
  r_sepc :: u64
  r_scause :: u64
  r_stval :: u64
  r_satp :: u64
  r_stvec :: u64
  r_tp :: u64

text \<open>Addresses of linker symbols; the interrupt that the PLIC reports and the characters the UART has received.\<close>

record image =
  im_trampoline :: u64
  im_uservec :: u64
  im_kernelvec :: u64
  im_usertrap :: u64

record device =
  d_irq :: nat
  d_rx :: "u8 list"

abbreviation SSTATUS_SPP :: u64 where "SSTATUS_SPP \<equiv> 256"
abbreviation SSTATUS_SPIE :: u64 where "SSTATUS_SPIE \<equiv> 32"
abbreviation SSTATUS_SIE :: u64 where "SSTATUS_SIE \<equiv> 2"
abbreviation UART0_IRQ :: nat where "UART0_IRQ \<equiv> 10"
abbreviation VIRTIO0_IRQ :: nat where "VIRTIO0_IRQ \<equiv> 1"

definition clockintr :: "u64 \<Rightarrow> kernel \<Rightarrow> kernel" where
  "clockintr hart k = (if hart = 0 then wakeup Ticks (k\<lparr>ticks := ticks k + 1\<rparr>) else k)"

definition uartintr :: "u8 list \<Rightarrow> kernel \<Rightarrow> kernel" where
  "uartintr cs k = fold consoleintr cs k"

definition devintr :: "regs \<Rightarrow> device \<Rightarrow> kernel \<Rightarrow> nat \<times> kernel" where
  "devintr r d k =
     (if r_scause r = 0x8000000000000009
      then (1, if d_irq d = UART0_IRQ then uartintr (d_rx d) k
              else if d_irq d = VIRTIO0_IRQ \<or> d_irq d = 0 then k else printk (UNEXPECTED_irq (d_irq d)) k)
      else if r_scause r = 0x8000000000000005 then (2, clockintr (r_tp r) k)
      else (0, k))"

section \<open>usertrap\<close>

definition MAKE_SATP :: "u64 \<Rightarrow> u64" where
  "MAKE_SATP pt = push_bit 60 8 OR drop_bit 12 pt"

definition prepare_return :: "image \<Rightarrow> regs \<Rightarrow> kernel \<Rightarrow> regs \<times> kernel" where
  "prepare_return im r k =
     (let p = cur k;
          k1 = tf_set p TF_kernel_satp (r_satp r) k;
          k2 = tf_set p TF_kernel_sp (p_kstack (procs k1 ! p) + PGSIZE) k1;
          k3 = tf_set p TF_kernel_trap (im_usertrap im) k2;
          k4 = tf_set p TF_kernel_hartid (r_tp r) k3
      in (r\<lparr>r_stvec := TRAMPOLINE + (im_uservec im - im_trampoline im),
            r_sstatus := ((r_sstatus r AND NOT SSTATUS_SIE) AND NOT SSTATUS_SPP) OR SSTATUS_SPIE,
            r_sepc := tf_get p TF_epc k4\<rparr>, k4))"

text \<open>
  What becomes of the process: it goes back to user mode with the page table in \<open>satp\<close>, has given
  up the CPU after a timer interrupt, sleeps in a system call, or has exited.
\<close>

datatype trap_end = ToUser regs u64 | Yields regs | Waits nat | Gone

definition exit_or :: "regs \<Rightarrow> kernel \<Rightarrow> (kernel \<Rightarrow> (trap_end \<times> kernel) option) \<Rightarrow> (trap_end \<times> kernel) option" where
  "exit_or r k cont =
     (if p_killed (myproc k) then map_option (\<lambda>k1. (Gone, k1)) (kexit (-1) k) else cont k)"

definition to_user :: "image \<Rightarrow> regs \<Rightarrow> kernel \<Rightarrow> (trap_end \<times> kernel) option" where
  "to_user im r k = (case prepare_return im r k of (r1, k1) \<Rightarrow> Some (ToUser r1 (MAKE_SATP (p_pagetable (myproc k1))), k1))"

definition usertrap :: "image \<Rightarrow> u8 list \<Rightarrow> regs \<Rightarrow> device \<Rightarrow> kernel \<Rightarrow> (trap_end \<times> kernel) option" where
  "usertrap im pad r0 d k =
     (if r_sstatus r0 AND SSTATUS_SPP \<noteq> 0 then None
      else let r = r0\<lparr>r_stvec := im_kernelvec im\<rparr>; k0 = tf_set (cur k) TF_epc (r_sepc r) k
      in if r_scause r = 8
         then exit_or r k0 (\<lambda>k.
                let k1 = tf_set (cur k) TF_epc (tf_get (cur k) TF_epc k + 4) k
                in Option.bind (syscall (im_trampoline im) pad k1) (\<lambda>(out, k2).
                     case out of
                       Returns _ \<Rightarrow> exit_or r k2 (to_user im r)
                     | Sleeps i \<Rightarrow> Some (Waits i, k2)
                     | Exits \<Rightarrow> Some (Gone, k2)))
         else case devintr r d k0 of (which_dev, k1) \<Rightarrow>
           Option.bind
             (if which_dev \<noteq> 0 then Some k1
              else if r_scause r = SCAUSE_WRITE \<or> r_scause r = SCAUSE_READ \<or> r_scause r = SCAUSE_EXEC
              then page_fault (r_scause r) (r_stval r) k1
              else Some (kill_cur (printk (UNEXPECTED_scause (p_pid (myproc k1)) (r_scause r) (r_sepc r) (r_stval r)) k1)))
             (\<lambda>k2. exit_or r k2 (\<lambda>k. if which_dev = 2 then Some (Yields r, yield k) else to_user im r k)))"

definition kerneltrap :: "regs \<Rightarrow> device \<Rightarrow> bool \<Rightarrow> kernel \<Rightarrow> (bool \<times> kernel) option" where
  "kerneltrap r d running k =
     (if r_sstatus r AND SSTATUS_SPP = 0 then None
      else if r_sstatus r AND SSTATUS_SIE \<noteq> 0 then None
      else case devintr r d k of (which_dev, k1) \<Rightarrow>
        if which_dev = 0 then None
        else if which_dev = 2 \<and> running then Some (True, yield k1) else Some (False, k1))"

end
