(* ===== verification/Faultspec.thy ===== *)
theory Faultspec
  imports Pager Trap
begin

text \<open>
  The page-fault handler of \<open>trap.c\<close> on the memory of the current process: invalid accesses kill it,
  and faults on heap, stack and swapped pages map the page with the right contents.
\<close>

section \<open>Bookkeeping\<close>

text \<open>Steps that change neither memory, nor the disk, nor where the pages are.\<close>

definition book :: "kernel \<Rightarrow> kernel \<Rightarrow> bool" where
  "book k k' \<longleftrightarrow> ph k' = ph k \<and> fs k' = fs k \<and> rest k' = rest k \<and> contents k' = contents k
     \<and> swapped k' (cur k') = swapped k (cur k) \<and> (\<forall>xs. pager_ok k' xs = pager_ok k xs)"

lemma book_refl: "book k k"
  by (simp add: book_def)

lemma book_trans: "book k1 k2 \<Longrightarrow> book k2 k3 \<Longrightarrow> book k1 k3"
  by (simp add: book_def)

lemma bookD:
  assumes "book k k'"
  shows "ph k' = ph k" "fs k' = fs k" "rest k' = rest k" "contents k' = contents k" "swapped k' (cur k') = swapped k (cur k)"
    "pager_ok k' xs = pager_ok k xs"
  using assms by (simp_all add: book_def)

lemma book_upd:
  assumes f: "\<And>q. p_swap_table (f q) = p_swap_table q" "\<And>q. p_swapfile (f q) = p_swapfile q" "\<And>q. p_pagetable (f q) = p_pagetable q"
    "\<And>q. erase (f q) = erase q" and p: "p = cur k"
  shows "book k (upd_proc p f k)"
proof -
  let ?k = "upd_proc p f k"
  have pt: "p_pagetable (myproc ?k) = p_pagetable (myproc k)"
    using f(3) p by (cases "cur k < length (procs k)") (simp_all add: upd_proc_def list_update_beyond)
  have "contents ?k = contents k"
    by (rule contents_cong) (use swap_upd [OF f(1,2)] pt p in simp_all)
  then show ?thesis
    using swap_upd [OF f(1,2), of p k] pt rest_upd [OF f(4), of p k] p by (simp add: book_def pager_ok_def cur_rest)
qed

lemma book_printk: "book k (printk ev k)"
  by (auto simp: book_def pager_ok_def intro: contents_cong)

lemma book_steps:
  "book k (trace_event ev k)" "book k (upd_memstat g k)" "book k (inc_resident k)" "book k (kill_cur k)"
  by (auto simp: trace_event_def upd_memstat_def inc_resident_def kill_cur_def setkilled_def upd_cnt_def erase_def
      intro!: book_refl book_printk book_upd)

lemma book_note: "book k (note_resident va0 k)"
  unfolding note_resident_def Let_def by (rule book_trans [OF book_trans [OF book_steps(2) book_steps(1)] book_steps(2)])

lemma kill_cur_killed: "cur k < length (procs k) \<Longrightarrow> p_killed (myproc (kill_cur k))"
  by (simp add: kill_cur_def setkilled_def)

text \<open>
  C10: the handler, of both kernels, kills the process and changes neither memory, nor the disk, nor
  the contents of any page, on an access to the stack guard page (the second page below the end of
  the stack), and, unless the page is marked as swapped out, on an access at or above the break and on
  an instruction fetch outside the text and data segments.
\<close>

theorem bad_access_kills:
  assumes "cur k < length (procs k)" and "seg = p_seg (myproc k)"
    and "PGROUNDUP (stack_top seg) - 2 * PGSIZE \<le> va \<and> va < PGROUNDUP (stack_top seg) - PGSIZE
       \<or> (\<forall>e \<in> set (ms_pages (p_memstat (myproc k))). \<not> (ps_state e = SWAPPED \<and> ps_va e = ucast (PGROUNDDOWN va)))
         \<and> (p_sz (myproc k) \<le> va
           \<or> sc = SCAUSE_EXEC \<and> \<not> (text_start seg \<le> va \<and> va < text_end seg) \<and> \<not> (data_start seg \<le> va \<and> va < data_end seg))"
  shows "\<exists>k'. page_fault sc va k = Some k' \<and> bonus_page_fault sc va k = Some k' \<and> p_killed (myproc k')
     \<and> ph k' = ph k \<and> fs k' = fs k \<and> contents k' = contents k \<and> rest k' = rest k"
proof -
  have cl: "classify (myproc k) sc va = Guard \<or> classify (myproc k) sc va = Invalid"
    using assms(3)
  proof
    assume "PGROUNDUP (stack_top seg) - 2 * PGSIZE \<le> va \<and> va < PGROUNDUP (stack_top seg) - PGSIZE"
    then have "in_guard (myproc k) va" by (simp add: in_guard_def stack_guard_def stack_base_def stack_end_def assms(2))
    then show ?thesis by (simp add: classify_def)
  next
    assume a: "(\<forall>e \<in> set (ms_pages (p_memstat (myproc k))). \<not> (ps_state e = SWAPPED \<and> ps_va e = ucast (PGROUNDDOWN va)))
      \<and> (p_sz (myproc k) \<le> va
        \<or> sc = SCAUSE_EXEC \<and> \<not> (text_start seg \<le> va \<and> va < text_end seg) \<and> \<not> (data_start seg \<le> va \<and> va < data_end seg))"
    then have "\<not> was_swapped (myproc k) (PGROUNDDOWN va)" unfolding was_swapped_def by blast
    moreover have "\<not> in_text (myproc k) va" "\<not> in_data (myproc k) va" "sc = SCAUSE_EXEC \<or> \<not> in_stack (myproc k) va \<and> \<not> in_heap (myproc k) va"
      using a unfolding in_text_def in_data_def in_stack_def in_heap_def assms(2) linorder_not_less [symmetric] by blast+
    ultimately show ?thesis by (auto simp: classify_def)
  qed
  define k2 where "k2 = trace_event (PAGEFAULT (p_pid (myproc k)) va (access_of sc) (classify (myproc k) sc va))
     (upd_proc (cur k) (upd_cnt (\<lambda>c. c\<lparr>pagefault_count := pagefault_count c + 1\<rparr>)) k)"
  define k3 where "k3 = printk (KILL_invalid_access (p_pid (myproc k)) va (access_of sc)) k2"
  have "book k (upd_proc (cur k) (upd_cnt (\<lambda>c. c\<lparr>pagefault_count := pagefault_count c + 1\<rparr>)) k)"
    by (rule book_upd) (simp_all add: upd_cnt_def)
  from book_trans [OF book_trans [OF this book_steps(1)] book_printk] have b: "book k k3"
    unfolding k3_def k2_def .
  then have b': "book k (kill_cur k3)"
    by (rule book_trans [OF _ book_steps(4)])
  have "cur k3 < length (procs k3)"
    using restD(1,7) [OF bookD(3) [OF b]] assms(1) by simp
  then have "p_killed (myproc (kill_cur k3))"
    by (rule kill_cur_killed)
  moreover have "page_fault sc va k = Some (kill_cur k3)" "bonus_page_fault sc va k = Some (kill_cur k3)"
    using cl by (auto simp: page_fault_def bonus_page_fault_def page_fault_with_def Let_def k3_def k2_def)
  ultimately show ?thesis
    using bookD(1-4) [OF b'] by blast
qed

section \<open>Filling a page\<close>

lemma rest_swapin [rest_eqs]:
  assumes run: "swapin_page p va dst k = Some (r, k')" and p: "p = cur k"
  shows "rest k' = rest k"
  using run p unfolding swapin_page_def
  by (auto simp: bind_eq_Some_conv Let_def rest_upd cur_rest erase_def split: if_split_asm option.split_asm dest!: rest_with(1))

lemma store_bytes_page:
  assumes "page_aligned x" "length bs = 4096" "PGROUNDDOWN y \<noteq> x"
  shows "store_bytes m x bs y = m y"
proof -
  have "\<not> unat (y - x) < 4096"
    using assms(3) in_page_iff [OF assms(1), of y] by (simp add: word_less_nat_alt)
  then show ?thesis
    using assms(2) by (simp add: store_bytes_def)
qed

text \<open>
  \<open>buf\<close> holds the bytes \<open>bs\<close> in \<open>k'\<close>; the page table maps nothing at \<open>va0\<close>, and the swap file no
  longer does.
\<close>

definition filled :: "kernel \<Rightarrow> kernel \<Rightarrow> u64 \<Rightarrow> u64 list \<Rightarrow> u64 \<Rightarrow> u8 list \<Rightarrow> bool" where
  "filled k k' va0 ys buf bs \<longleftrightarrow> pager_ok k' ys \<and> spare k' ys buf \<and> rest k' = rest k
     \<and> mem_bytes (mem (ph k')) buf 4096 = bs
     \<and> \<not> valid_pte (pte_of (mem (ph k')) (p_pagetable (myproc k')) va0)
     \<and> (\<forall>vb. vb \<noteq> va0 \<longrightarrow> contents k' vb = contents k vb)"

lemma fill_zero:
  assumes ok: "pager_ok k ys" and sp: "spare k ys buf" and nv: "\<not> valid_pte (pte_of (mem (ph k)) (p_pagetable (myproc k)) va0)"
  shows "filled k (set_mem (memset (mem (ph k)) buf 0 4096) k) va0 ys buf (replicate 4096 0)"
proof -
  have al: "page_aligned buf" using sp by (auto simp: spare_def)
  let ?k = "set_mem (memset (mem (ph k)) buf 0 4096) k"
  have m: "memset (mem (ph k)) buf 0 4096 y = mem (ph k) y" if "PGROUNDDOWN y \<noteq> buf" for y
    using that memset_page [OF al] by simp
  note w = spare_write [OF ok sp m]
  have z: "mem_bytes (mem (ph ?k)) buf 4096 = replicate 4096 0"
    by (rule page_bytes_const [OF al]) (simp add: set_mem_def memset_page [OF al])
  have pt: "p_pagetable (myproc ?k) = p_pagetable (myproc k)" by (simp add: set_mem_def)
  have "pte_of (memset (mem (ph k)) buf 0 4096) (p_pagetable (myproc k)) va0 = pte_of (mem (ph k)) (p_pagetable (myproc k)) va0"
    by (rule fw_pte [OF ok sp]) (simp add: memset_page [OF al])
  then show ?thesis
    using w z nv pt by (simp add: filled_def) (simp add: set_mem_def)
qed

lemma fill_swap:
  assumes ok: "pager_ok k ys" and sp: "spare k ys buf" and va: "PGROUNDDOWN va0 = va0"
    and nv: "\<not> valid_pte (pte_of (mem (ph k)) (p_pagetable (myproc k)) va0)"
    and run: "swapin_page (cur k) va0 buf k = Some (r, k')" and r: "0 \<le> r"
  obtains bs where "contents k va0 = Some bs" "filled k k' va0 ys buf bs" "swapped k' (cur k') va0 = None"
proof -
  let ?r = "p_pagetable (myproc k)"
  have sw: "swap_inv k (cur k)" and spo: "space_ok (ph k) ?r ys" using ok by (simp_all add: pager_ok_def)
  have x: "ram_page (ph k) buf" "buf \<notin> pt_pages (mem (ph k)) ?r \<union> set ys" "\<And>va. upage (ph k) ?r va \<Longrightarrow> frame_of (ph k) ?r va \<noteq> buf"
    using sp by (auto simp: spare_def)
  have al: "page_aligned buf" using x(1) by auto
  obtain bs s1 where bs: "swapped k (cur k) va0 = Some bs" and s1: "begin_op (fs k) = Some s1"
    using swapin_Some [OF sw run r] va by auto
  have k': "ph k' = mem_put (ph k) buf bs" "swap_inv k' (cur k)" "swapped k' (cur k) = (swapped k (cur k))(va0 := None)"
    using swapin_spec [OF sw, of va0 bs s1 buf] bs s1 va run by auto
  have len: "length bs = 4096"
    using bs by (auto simp: swapped_def)
  have m: "store_bytes (mem (ph k)) buf bs y = mem (ph k) y" if "PGROUNDDOWN y \<noteq> buf" for y
    by (rule store_bytes_page [OF al len that])
  have phk: "ph k' = (ph k)\<lparr>mem := store_bytes (mem (ph k)) buf bs\<rparr>" using k'(1) by (simp add: mem_put_def)
  note fw = frame_write [OF spo x m]
  have rest: "rest k' = rest k" by (rule rest_swapin [OF run refl])
  note rp = rest_pt [OF rest swap_inv_cur [OF sw]]
  have po: "page_of (ph k') ?r = page_of (ph k) ?r" using fw(2) phk by simp
  have n: "page_of (ph k) ?r va0 = None"
    using nv by (auto simp: page_of_def upage_def user_pte_def)
  have "filled k k' va0 ys buf bs"
    unfolding filled_def
  proof (intro conjI allI impI)
    show "pager_ok k' ys" using fw(1) k'(2) rp phk by (simp add: pager_ok_def)
    show "spare k' ys buf" using sp fw(3,4) rp phk by (simp add: spare_def upage_def frame_of_def)
    show "mem_bytes (mem (ph k')) buf 4096 = bs" using mem_bytes_put [of bs "ph k" buf] len k'(1) by simp
    show "\<not> valid_pte (pte_of (mem (ph k')) (p_pagetable (myproc k')) va0)" using nv fw(4) rp phk by simp
    show "contents k' vb = contents k vb" if "vb \<noteq> va0" for vb
      using that po k'(3) rp by (simp add: contents_def split: option.split)
  qed (rule rest)
  moreover have "contents k va0 = Some bs" using n bs by (simp add: contents_def)
  moreover have "swapped k' (cur k') va0 = None" using k'(3) rp by simp
  ultimately show thesis using that by blast
qed

lemma map_filled:
  assumes f: "filled k k2 va0 ys buf bs" and va: "page_aligned va0" "va0 < MAXVA" and cur: "cur k < length (procs k)"
    and run: "with_ph_ret (\<lambda>m. mappages m (p_pagetable (myproc k2)) va0 PGSIZE buf (PTE_U OR PTE_R OR PTE_W)) k2 = Some (c, k3)"
    and c: "\<not> c < 0"
  shows "\<exists>zs. pager_ok k3 zs" "rest k3 = rest k" "contents k3 = (contents k)(va0 \<mapsto> bs)"
    "page_of (ph k3) (p_pagetable (myproc k3)) va0 = Some bs" "swapped k3 (cur k3) = swapped k2 (cur k2)"
    "pte_of (mem (ph k3)) (p_pagetable (myproc k3)) va0 = PA2PTE buf OR (PTE_U OR PTE_R OR PTE_W) OR PTE_V"
proof -
  let ?r = "p_pagetable (myproc k2)"
  have k2: "pager_ok k2 ys" "spare k2 ys buf" "mem_bytes (mem (ph k2)) buf 4096 = bs" "rest k2 = rest k"
    "\<not> valid_pte (pte_of (mem (ph k2)) ?r va0)" "\<And>vb. vb \<noteq> va0 \<Longrightarrow> contents k2 vb = contents k vb"
    using f by (simp_all add: filled_def)
  have x: "ram_page (ph k2) buf" "buf \<notin> pt_pages (mem (ph k2)) ?r \<union> set ys" "\<And>va. upage (ph k2) ?r va \<Longrightarrow> frame_of (ph k2) ?r va \<noteq> buf"
    and sp: "space_ok (ph k2) ?r ys"
    using k2(1,2) by (auto simp: spare_def pager_ok_def)
  obtain m where m: "mappages (ph k2) ?r va0 PGSIZE buf (PTE_U OR PTE_R OR PTE_W) = Some (c, m)" "k3 = k2\<lparr>ph := m\<rparr>"
    using run by (auto simp: with_ph_ret_def split: option.split_asm prod.split_asm)
  have perm: "PTE_U OR PTE_R OR PTE_W < 0x400" "(PTE_U OR PTE_R OR PTE_W) AND PTE_U \<noteq> 0" by simp_all
  note ms = map_space [OF sp va k2(5) x(1,2) _ perm]
  obtain zs where z: "space_ok m ?r zs" "page_of m ?r = (page_of (ph k2) ?r)(va0 \<mapsto> bs)"
     "pte_of (mem m) ?r va0 = PA2PTE buf OR (PTE_U OR PTE_R OR PTE_W) OR PTE_V"
    using ms [OF x(3)] m(1) c k2(3) by auto
  have k3: "ph k3 = m" "procs k3 = procs k2" "cur k3 = cur k2" using m(2) by simp_all
  show "\<exists>zs. pager_ok k3 zs" using z(1) k2(1) m(2) by (auto simp: pager_ok_def)
  show "rest k3 = rest k" using k2(4) m(2) by simp
  show sw: "swapped k3 (cur k3) = swapped k2 (cur k2)" using m(2) by simp
  show "page_of (ph k3) (p_pagetable (myproc k3)) va0 = Some bs" using z(2) k3 by simp
  show "pte_of (mem (ph k3)) (p_pagetable (myproc k3)) va0 = PA2PTE buf OR (PTE_U OR PTE_R OR PTE_W) OR PTE_V" using z(3) k3 by simp
  show "contents k3 = (contents k)(va0 \<mapsto> bs)"
  proof
    fix vb
    show "contents k3 vb = ((contents k)(va0 \<mapsto> bs)) vb"
      using k2(6) [of vb] unfolding contents_def sw k3(1) by (cases "vb = va0") (simp_all add: z(2) k3(2,3))
  qed
qed

lemma killed_or:
  assumes "rest k1 = rest k" "cur k < length (procs k)"
  shows "p_killed (myproc (kill_cur k1))" "free_and_kill pa k1 = Some k' \<Longrightarrow> p_killed (myproc k')"
proof -
  show "p_killed (myproc (kill_cur k1))"
    using restD(1,7) [OF assms(1)] assms(2) by (simp add: kill_cur_killed)
  assume "free_and_kill pa k1 = Some k'"
  then obtain k2 where "with_ph (\<lambda>m. kfree m pa) k1 = Some k2" "k' = kill_cur k2"
    by (auto simp: free_and_kill_def)
  then show "p_killed (myproc k')"
    using rest_with(3) restD(1,7) assms by (metis kill_cur_killed)
qed

lemma anon_filled:
  assumes ok: "pager_ok k xs" "tracked k" and al: "alloc = try_kalloc_or_replace \<or> alloc = bonus_try_kalloc_or_replace"
    and va: "va0 = PGROUNDDOWN va" "va0 < MAXVA" "\<not> valid_pte (pte_of (mem (ph k)) (p_pagetable (myproc k)) va0)"
    and sc: "sc \<noteq> SCAUSE_EXEC" and run: "anon_fault alloc sw sc va k = Some k'" and live: "\<not> p_killed (myproc k')"
  obtains k1 buf ys k2 bs c k3 where "alloc k = Some (buf, k1)" "mostly_kept k k1" "rest k1 = rest k" "filled k1 k2 va0 ys buf bs"
    "if sw then contents k va0 = Some bs \<and> swapped k2 (cur k2) va0 = None else bs = replicate 4096 0"
    "with_ph_ret (\<lambda>m. mappages m (p_pagetable (myproc k2)) va0 PGSIZE buf (PTE_U OR PTE_R OR PTE_W)) k2 = Some (c, k3)" "\<not> c < 0"
    "k' = inc_resident ((if sc = SCAUSE_WRITE then upd_memstat (set_dirty (\<lambda>e. True) va0) else id)
       (note_resident va0 (if sw then k3 else trace_event (ALLOC (p_pid (myproc k)) va0) k3)))"
proof -
  let ?r = "p_pagetable (myproc k)"
  have cur: "cur k < length (procs k)" using ok(1) swap_inv_cur by (simp add: pager_ok_def)
  have "ismapped (ph k) ?r va0 = Some False"
    using ismapped_spec [OF _ va(2), of "ph k" ?r xs] ok(1) va(3) space_okD(1) by (auto simp: pager_ok_def)
  then have mp: "mapped_at k ?r va0 = Some False"
    by (auto simp: mapped_at_def ismapped_def bind_eq_Some_conv split: if_split_asm)
  have g: "\<not> in_guard (myproc k) va0"
    using run mp sc va(1) live killed_or(1) [OF _ cur, of "printk (KILL_guard_page (p_pid (myproc k)) va0) k"]
    by (auto simp: anon_fault_def Let_def)
  obtain buf k1 where a: "alloc k = Some (buf, k1)"
    using run mp sc va(1) g by (auto simp: anon_fault_def Let_def bind_eq_Some_conv)
  note pa = pager_alloc [OF ok al a]
  have r1: "rest k1 = rest k" and mk: "mostly_kept k k1" using pa by blast+
  note rp = rest_pt [OF r1 cur]
  have cur1: "cur k1 < length (procs k1)" using rp cur by simp
  have b: "buf \<noteq> 0"
    using run mp sc va(1) g a live killed_or(1) [OF r1 cur] by (auto simp: anon_fault_def Let_def)
  then obtain ys where y: "pager_ok k1 ys" "spare k1 ys buf" "unmapped_kept (ph k) (ph k1) ?r"
    using pa by auto
  have nv: "\<not> valid_pte (pte_of (mem (ph k1)) (p_pagetable (myproc k1)) va0)"
    using y(3) va(2,3) rp by (simp add: unmapped_kept_def)
  define fill where "fill = (if sw then swapin_page (cur k1) va0 buf k1 else Some (0, set_mem (memset (mem (ph k1)) buf 0 4096) k1))"
  have "anon_fault alloc sw sc va k = do { (r, k2) \<leftarrow> fill; (if r < 0 then free_and_kill buf k2 else do {
       (c, k3) \<leftarrow> with_ph_ret (\<lambda>m. mappages m (p_pagetable (myproc k2)) va0 PGSIZE buf (PTE_U OR PTE_R OR PTE_W)) k2;
       if c < 0 then free_and_kill buf k3
       else Some (inc_resident ((if sc = SCAUSE_WRITE then upd_memstat (set_dirty (\<lambda>e. True) va0) else id)
         (note_resident va0 (if sw then k3 else trace_event (ALLOC (p_pid (myproc k)) va0) k3)))) }) }"
    unfolding anon_fault_def Let_def fill_def va(1) [symmetric] split_def using mp sc g a b by (cases "sc = SCAUSE_WRITE") (simp_all cong: if_cong)
  from trans [OF this [symmetric] run] obtain r k2 where f: "fill = Some (r, k2)"
    and tl: "(if r < 0 then free_and_kill buf k2 else do {
       (c, k3) \<leftarrow> with_ph_ret (\<lambda>m. mappages m (p_pagetable (myproc k2)) va0 PGSIZE buf (PTE_U OR PTE_R OR PTE_W)) k2;
       if c < 0 then free_and_kill buf k3
       else Some (inc_resident ((if sc = SCAUSE_WRITE then upd_memstat (set_dirty (\<lambda>e. True) va0) else id)
         (note_resident va0 (if sw then k3 else trace_event (ALLOC (p_pid (myproc k)) va0) k3)))) }) = Some k'"
    by (auto simp only: bind_eq_Some_conv split_paired_Ex prod.case)
  have r2: "rest k2 = rest k1"
    using f rest_swapin unfolding fill_def by (cases sw) auto
  have rr: "\<not> r < 0"
    using tl live killed_or(2) [of k2 k buf k'] r1 r2 cur by auto
  obtain bs where bs: "filled k1 k2 va0 ys buf bs" "if sw then contents k1 va0 = Some bs \<and> swapped k2 (cur k2) va0 = None else bs = replicate 4096 0"
  proof (cases sw)
    case True
    then have s: "swapin_page (cur k1) va0 buf k1 = Some (r, k2)" using f by (simp add: fill_def)
    show thesis
      by (rule fill_swap [OF y(1,2) _ nv s]) (use that rr True va(1) in auto)
  next
    case False
    then show thesis using that [of "replicate 4096 0"] fill_zero [OF y(1,2) nv] f by (simp add: fill_def)
  qed
  have cc: "contents k1 va0 = contents k va0"
    by (rule fault_page_kept(2) [OF ok(2) mk _ va(3)]) (simp add: va(1))
  obtain c k3 where c: "with_ph_ret (\<lambda>m. mappages m (p_pagetable (myproc k2)) va0 PGSIZE buf (PTE_U OR PTE_R OR PTE_W)) k2 = Some (c, k3)"
    using tl rr by (auto simp: bind_eq_Some_conv)
  have c0: "\<not> c < 0"
    using tl rr c live killed_or(2) [of k3 k buf k'] rest_with(4) [OF c] r1 r2 cur by auto
  show thesis
    using that [OF a mk r1 bs(1) bs(2) [unfolded cc] c c0] c tl rr c0 by auto
qed

lemma resumed_book:
  "book k3 (inc_resident ((if w then upd_memstat f else id) (note_resident va0 (if sw then k3 else trace_event ev k3))))"
proof -
  have "book k3 (if sw then k3 else trace_event ev k3)"
    by (simp add: book_refl book_steps(1))
  then have "book k3 (note_resident va0 (if sw then k3 else trace_event ev k3))"
    by (rule book_trans [OF _ book_note])
  then have "book k3 ((if w then upd_memstat f else id) (note_resident va0 (if sw then k3 else trace_event ev k3)))"
    by (cases w) (auto intro: book_trans [OF _ book_steps(2)])
  then show ?thesis
    by (rule book_trans [OF _ book_steps(3)])
qed

text \<open>Counting and reporting the fault, which the handler does first.\<close>

definition reported :: "event \<Rightarrow> kernel \<Rightarrow> kernel" where
  "reported ev k = trace_event ev (upd_proc (cur k) (upd_cnt (\<lambda>c. c\<lparr>pagefault_count := pagefault_count c + 1\<rparr>)) k)"

lemma reported:
  "book k (reported ev k)" "p_memstat (myproc (reported ev k)) = p_memstat (myproc k)" "cur (reported ev k) = cur k"
  "length (procs (reported ev k)) = length (procs k)" "p_pagetable (myproc (reported ev k)) = p_pagetable (myproc k)"
proof -
  have "book k (upd_proc (cur k) (upd_cnt (\<lambda>c. c\<lparr>pagefault_count := pagefault_count c + 1\<rparr>)) k)"
    by (rule book_upd) (simp_all add: upd_cnt_def)
  then show "book k (reported ev k)"
    unfolding reported_def by (rule book_trans [OF _ book_steps(1)])
  show "p_memstat (myproc (reported ev k)) = p_memstat (myproc k)" "cur (reported ev k) = cur k"
    "length (procs (reported ev k)) = length (procs k)" "p_pagetable (myproc (reported ev k)) = p_pagetable (myproc k)"
    by (cases "cur k < length (procs k)"; simp add: reported_def trace_event_def upd_cnt_def upd_proc_def list_update_beyond)+
qed

lemma reported_tracked:
  "tracked (reported ev k) = tracked k" "dropped (reported ev k) = dropped k" "mostly_kept (reported ev k) k' = mostly_kept k k'"
proof -
  note b = bookD [OF reported(1) [of k ev]]
  have v: "victim_page (reported ev k) i = victim_page k i" "victim_dirty (reported ev k) i = victim_dirty k i" "resident (reported ev k) i = resident k i" for i
    by (simp_all add: victim_page_def victim_dirty_def resident_def reported(2))
  show "tracked (reported ev k) = tracked k"
    unfolding tracked_def v reported(2,5) b(1,5) ..
  show d: "dropped (reported ev k) = dropped k"
    by (simp add: dropped_def v)
  show "mostly_kept (reported ev k) k' = mostly_kept k k'"
    using b(4) by (simp add: mostly_kept_def d)
qed

lemma mostly_kept_set:
  assumes "mostly_kept k k1"
  shows "\<exists>D \<subseteq> dropped k. card D \<le> 1 \<and> (\<forall>vb. contents k1 vb = (if vb \<in> D then None else contents k vb))"
  using assms unfolding mostly_kept_def
proof
  assume "\<exists>va \<in> dropped k. contents k1 = (contents k)(va := None)"
  then obtain va where "va \<in> dropped k" "contents k1 = (contents k)(va := None)" by blast
  then show ?thesis by (intro exI [of _ "{va}"]) simp
qed (intro exI [of _ "{}"], simp)

lemma resumes:
  assumes "pager_ok k xs" and "tracked k" and "alloc = try_kalloc_or_replace \<or> alloc = bonus_try_kalloc_or_replace"
    and "va0 = PGROUNDDOWN va" and "va0 < MAXVA" and "\<not> valid_pte (pte_of (mem (ph k)) (p_pagetable (myproc k)) va0)"
    and "c = classify (myproc k) sc va" and "c \<in> {Swap, Stack, Heap}" and "sc \<noteq> SCAUSE_EXEC"
    and "page_fault_with alloc sc va k = Some k'" and "\<not> p_killed (myproc k')"
  shows "(\<exists>ys. pager_ok k' ys) \<and> upage (ph k') (p_pagetable (myproc k')) va0 \<and> rest k' = rest k
     \<and> contents k' va0 \<noteq> None \<and> (c = Swap \<longrightarrow> swapped k' (cur k') va0 = None)
     \<and> contents k' va0 = (if c = Swap then contents k va0 else Some (replicate 4096 0))
     \<and> (\<exists>D \<subseteq> dropped k. card D \<le> 1 \<and> (\<forall>vb. vb \<noteq> va0 \<longrightarrow> contents k' vb = (if vb \<in> D then None else contents k vb)))"
proof -
  define ev where "ev = PAGEFAULT (p_pid (myproc k)) va (access_of sc) c"
  note b = bookD [OF reported(1) [of k ev]]
  have run: "anon_fault alloc (c = Swap) sc va (reported ev k) = Some k'"
    using assms(7,8,10) by (auto simp: page_fault_with_def Let_def reported_def ev_def)
  have ok: "pager_ok (reported ev k) xs" "tracked (reported ev k)"
    using assms(1,2) b(6) by (simp_all add: reported_tracked)
  have cur: "cur k < length (procs k)" using assms(1) swap_inv_cur by (simp add: pager_ok_def)
  have nv: "\<not> valid_pte (pte_of (mem (ph (reported ev k))) (p_pagetable (myproc (reported ev k))) va0)"
    using assms(6) unfolding reported(5) b(1) .
  from anon_filled [OF ok assms(3-5) nv assms(9) run assms(11)]
  obtain k1 buf ys k2 bs r k3 where f: "mostly_kept (reported ev k) k1" "rest k1 = rest (reported ev k)" "filled k1 k2 va0 ys buf bs"
    "if c = Swap then contents (reported ev k) va0 = Some bs \<and> swapped k2 (cur k2) va0 = None else bs = replicate 4096 0"
    "with_ph_ret (\<lambda>m. mappages m (p_pagetable (myproc k2)) va0 PGSIZE buf (PTE_U OR PTE_R OR PTE_W)) k2 = Some (r, k3)" "\<not> r < 0"
    and k': "k' = inc_resident ((if sc = SCAUSE_WRITE then upd_memstat (set_dirty (\<lambda>e. True) va0) else id)
       (note_resident va0 (if c = Swap then k3 else trace_event (ALLOC (p_pid (myproc (reported ev k))) va0) k3)))"
    by metis
  have "cur k1 < length (procs k1)"
    using restD(1,7) [OF f(2)] cur by (simp add: reported)
  note m = map_filled [OF f(3) _ assms(5) this f(5,6)]
  have al: "page_aligned va0" by (simp add: assms(4))
  have bk: "book k3 k'" unfolding k' by (rule resumed_book)
  note bd = bookD [OF bk]
  have r3: "rest k3 = rest k" using m(2) [OF al] f(2) b(3) by simp
  have pt: "p_pagetable (myproc k') = p_pagetable (myproc k3)"
    using rest_pt(1) [OF bd(3)] restD(1,7) [OF r3] cur by simp
  obtain D where D: "D \<subseteq> dropped k" "card D \<le> 1" "\<And>vb. contents k1 vb = (if vb \<in> D then None else contents k vb)"
    using mostly_kept_set [OF f(1)] b(4) by (auto simp: reported_tracked)
  have c': "contents k' = (contents k1)(va0 \<mapsto> bs)" using m(3) [OF al] bd(4) by simp
  have "upage (ph k') (p_pagetable (myproc k')) va0"
    using m(4) [OF al] bd(1) pt by (auto simp: page_of_def split: if_split_asm)
  moreover have "\<exists>ys. pager_ok k' ys" using m(1) [OF al] bd(6) by simp
  moreover have "contents k' va0 = (if c = Swap then contents k va0 else Some (replicate 4096 0))"
    using f(4) c' unfolding b(4) by (cases "c = Swap") simp_all
  moreover have "contents k' va0 \<noteq> None" using c' by simp
  moreover have "c = Swap \<longrightarrow> swapped k' (cur k') va0 = None"
    using f(4) unfolding bd(5) m(5) [OF al] by simp
  moreover have "rest k' = rest k" using r3 bd(3) by simp
  moreover have "\<exists>D \<subseteq> dropped k. card D \<le> 1 \<and> (\<forall>vb. vb \<noteq> va0 \<longrightarrow> contents k' vb = (if vb \<in> D then None else contents k vb))"
    using D c' by (intro exI [of _ D]) simp
  ultimately show ?thesis by (intro conjI)
qed

text \<open>
  C2: when a process faults on an unmapped page of its heap or stack, or on one that was swapped
  out, and the handler does not kill it, the page is mapped on return: with zeros for a heap or
  stack page, with the contents it had for a swapped page, whose slot is freed. Every other page, in memory or in the
  swap file, keeps its contents, except that one resident page not marked dirty may be dropped.
\<close>

theorem page_fault_resumes:
  assumes "pager_ok k xs" and "tracked k" and "alloc = try_kalloc_or_replace \<or> alloc = bonus_try_kalloc_or_replace"
    and "va0 = PGROUNDDOWN va" and "va0 < MAXVA" and "\<not> valid_pte (pte_of (mem (ph k)) (p_pagetable (myproc k)) va0)"
    and "c = classify (myproc k) sc va" and "c \<in> {Swap, Stack, Heap}" and "sc \<noteq> SCAUSE_EXEC"
    and "page_fault_with alloc sc va k = Some k'" and "\<not> p_killed (myproc k')"
  shows "(\<exists>ys. pager_ok k' ys) \<and> upage (ph k') (p_pagetable (myproc k')) va0 \<and> rest k' = rest k
     \<and> contents k' va0 \<noteq> None \<and> (c = Swap \<longrightarrow> swapped k' (cur k') va0 = None)
     \<and> contents k' va0 = (if c = Swap then contents k va0 else Some (replicate 4096 0))
     \<and> (\<exists>D \<subseteq> dropped k. card D \<le> 1 \<and> (\<forall>vb. vb \<noteq> va0 \<longrightarrow> contents k' vb = (if vb \<in> D then None else contents k vb)))"
  using assms by (rule resumes)

section \<open>Witnesses\<close>

lemma swapin_proc:
  assumes "swapin_page p va dst k = Some (r, k')" "0 \<le> r" "p < length (procs k)"
  shows "p_killed (procs k' ! p) = p_killed (procs k ! p)"
    "p_memstat (procs k' ! p) = set_page_entry (PGROUNDDOWN va) (\<lambda>e. e\<lparr>ps_state := RESIDENT, ps_slot := -1, ps_dirty := False\<rparr>) (p_memstat (procs k ! p))"
  using assms unfolding swapin_page_def
  by (auto simp: bind_eq_Some_conv Let_def with_fs_def k_end_op_def split: if_split_asm option.split_asm)

abbreviation swapped_kernel :: kernel where
  "swapped_kernel \<equiv> user_kernel True 4096 empty_space (one_entry 0x5000 SWAPPED False)"

lemma swapped_kernel:
  "pager_ok swapped_kernel [0x87FFC000, 0x87FFD000, 0x87FFE000, 0x87FFF000]" "tracked swapped_kernel"
  "contents swapped_kernel 0x5000 = Some (replicate 4096 9)" "classify (myproc swapped_kernel) SCAUSE_READ 0x5678 = Swap"
proof -
  show "pager_ok swapped_kernel [0x87FFC000, 0x87FFD000, 0x87FFE000, 0x87FFF000]"
    by (rule user_kernel_pager(1) [OF empty_space_ok]) simp
  have "\<not> resident swapped_kernel i" for i
    using one_entry(3) [of i "0x5000" SWAPPED False] by (auto simp: resident_def user_kernel_simps)
  then show "tracked swapped_kernel"
    by (simp add: tracked_def user_kernel_simps one_entry)
  show "contents swapped_kernel 0x5000 = Some (replicate 4096 9)"
    using user_kernel_pager(2) [OF empty_space_ok, of True 4096 _ "0x5000"] empty_space(2)
    by (simp add: contents_def page_of_def upage_def user_pte_def user_kernel_simps)
  show "classify (myproc swapped_kernel) SCAUSE_READ 0x5678 = Swap"
    by (simp add: classify_def was_swapped_def user_kernel_simps one_entry_def in_guard_def stack_guard_def stack_base_def
      stack_end_def swap_proc_def no_seg_def PGROUNDUP_def PGROUNDDOWN_def)
qed

abbreviation faulted_kernel :: kernel where
  "faulted_kernel \<equiv> reported (PAGEFAULT 3 0x5678 Read Swap) swapped_kernel"

lemma va5: "PGROUNDDOWN 0x5678 = 0x5000" "PGROUNDDOWN 0x5000 = 0x5000" "(0x5000 :: u64) < MAXVA" "page_aligned 0x5000"
  by (simp_all add: PGROUNDDOWN_def page_aligned_def)

lemma faulted_kernel:
  "cur faulted_kernel = 0" "ph faulted_kernel = empty_space" "length (procs faulted_kernel) = 1"
  "p_pagetable (procs faulted_kernel ! 0) = 0x87FFB000" "p_memstat (procs faulted_kernel ! 0) = one_entry 0x5000 SWAPPED False"
  "\<not> p_killed (procs faulted_kernel ! 0)" "\<not> in_guard (procs faulted_kernel ! 0) 0x5000" "fs faulted_kernel = swap_fs 4096"
  "pager_ok faulted_kernel [0x87FFC000, 0x87FFD000, 0x87FFE000, 0x87FFF000]"
  "swapped faulted_kernel 0 0x5000 = Some (replicate 4096 9)"
proof -
  note b = bookD [OF reported(1) [of swapped_kernel]]
  show "cur faulted_kernel = 0" "ph faulted_kernel = empty_space" "length (procs faulted_kernel) = 1"
    "p_pagetable (procs faulted_kernel ! 0) = 0x87FFB000" "p_memstat (procs faulted_kernel ! 0) = one_entry 0x5000 SWAPPED False"
    "\<not> p_killed (procs faulted_kernel ! 0)" "\<not> in_guard (procs faulted_kernel ! 0) 0x5000"
    by (simp_all add: reported_def trace_event_def upd_cnt_def user_kernel_simps swap_proc_def in_guard_def stack_guard_def stack_base_def
      stack_end_def no_seg_def PGROUNDUP_def)
  show "fs faulted_kernel = swap_fs 4096" unfolding b(2) by (simp add: user_kernel_def swap_kernel_def)
  show "pager_ok faulted_kernel [0x87FFC000, 0x87FFD000, 0x87FFE000, 0x87FFF000]" using swapped_kernel(1) unfolding b(6) .
  show "swapped faulted_kernel 0 0x5000 = Some (replicate 4096 9)"
    using user_kernel_pager(2) [OF empty_space_ok, of True 4096 _ "0x5000"] b(5) by (simp add: reported(3) user_kernel_simps)
qed

lemma faulted_filled:
  obtains s slot k2 bs where "try_kalloc_or_replace faulted_kernel = Some (0x87FFC000, faulted_kernel\<lparr>ph := s\<rparr>)"
    "swapin_page 0 0x5000 0x87FFC000 (faulted_kernel\<lparr>ph := s\<rparr>) = Some (int slot, k2)"
    "filled (faulted_kernel\<lparr>ph := s\<rparr>) k2 0x5000 [0x87FFD000, 0x87FFE000, 0x87FFF000] 0x87FFC000 bs"
proof -
  let ?ys = "[0x87FFD000, 0x87FFE000, 0x87FFF000] :: u64 list"
  note kr = faulted_kernel
  obtain q s where k: "kalloc empty_space = (q, s)" by (cases "kalloc empty_space")
  note ks = kalloc_space [OF empty_space_ok k]
  let ?k1 = "faulted_kernel\<lparr>ph := s\<rparr>"
  have a: "try_kalloc_or_replace faulted_kernel = Some (0x87FFC000, ?k1)"
    using k ks(1) kr(2) by (simp add: try_kalloc_or_replace_def try_kalloc_or_replace_with_def k_alloc_def)
  have ok1: "pager_ok ?k1 ?ys" using kr(9) ks(2) kr by (simp add: pager_ok_def)
  have sp: "spare ?k1 ?ys 0x87FFC000" using ks(4-7) kr by (auto simp: spare_def)
  have nv: "\<not> valid_pte (pte_of (mem (ph ?k1)) (p_pagetable (myproc ?k1)) 0x5000)"
    using kalloc_pt(2) [OF empty_space(1) k, of "0x5000"] empty_space(2) kr by simp
  have sw: "swapped ?k1 0 0x5000 = Some (replicate 4096 9)" "swap_inv ?k1 0" "cur ?k1 = 0"
    using ok1 kr by (simp_all add: pager_ok_def)
  obtain s5 where s5: "begin_op (fs ?k1) = Some s5" using kr(8) by (auto simp: begin_op_def swap_fs_def)
  obtain slot k2 where k2: "swapin_page 0 0x5000 0x87FFC000 ?k1 = Some (int slot, k2)"
    using swapin_spec [OF sw(2) _ s5, of "0x5000" "replicate 4096 9" "0x87FFC000"] sw(1) va5(2) by auto
  obtain bs where f: "filled ?k1 k2 0x5000 ?ys 0x87FFC000 bs"
    using fill_swap [OF ok1 sp va5(2) nv] k2 sw(3) by (metis of_nat_0_le_iff)
  from a k2 f show thesis by (rule that)
qed

lemma swapped_kernel_faults:
  obtains k1 where "page_fault SCAUSE_READ 0x5678 swapped_kernel = Some k1" "\<not> p_killed (myproc k1)"
    "p_memstat (myproc k1) = (one_entry 0x5000 RESIDENT False)\<lparr>next_fifo_seq := 1\<rparr>"
proof -
  note kr = faulted_kernel
  obtain s slot k2 bs where a: "try_kalloc_or_replace faulted_kernel = Some (0x87FFC000, faulted_kernel\<lparr>ph := s\<rparr>)"
    and k2: "swapin_page 0 0x5000 0x87FFC000 (faulted_kernel\<lparr>ph := s\<rparr>) = Some (int slot, k2)"
    and f: "filled (faulted_kernel\<lparr>ph := s\<rparr>) k2 0x5000 [0x87FFD000, 0x87FFE000, 0x87FFF000] 0x87FFC000 bs"
    by (rule faulted_filled)
  let ?r = "p_pagetable (myproc k2)"
  have x: "ram_page (ph k2) 0x87FFC000" "0x87FFC000 \<notin> pt_pages (mem (ph k2)) ?r \<union> set [0x87FFD000, 0x87FFE000, 0x87FFF000]" "\<And>va. upage (ph k2) ?r va \<Longrightarrow> frame_of (ph k2) ?r va \<noteq> 0x87FFC000"
    and sp: "space_ok (ph k2) ?r [0x87FFD000, 0x87FFE000, 0x87FFF000]" "\<not> valid_pte (pte_of (mem (ph k2)) ?r 0x5000)" "rest k2 = rest faulted_kernel"
    using f by (auto simp: filled_def spare_def pager_ok_def)
  have perm: "PTE_U OR PTE_R OR PTE_W < 0x400" "(PTE_U OR PTE_R OR PTE_W) AND PTE_U \<noteq> 0" by simp_all
  note ms = map_space [OF sp(1) va5(4,3) sp(2) x(1,2) _ perm]
  obtain m where m: "mappages (ph k2) ?r 0x5000 PGSIZE 0x87FFC000 (PTE_U OR PTE_R OR PTE_W) = Some (0, m)"
    using ms [OF x(3)] by auto
  let ?k3 = "k2\<lparr>ph := m\<rparr>" and ?k4 = "inc_resident (note_resident 0x5000 (k2\<lparr>ph := m\<rparr>))"
  have w: "with_ph_ret (\<lambda>m. mappages m ?r 0x5000 PGSIZE 0x87FFC000 (PTE_U OR PTE_R OR PTE_W)) k2 = Some (0, ?k3)"
    using m by (simp add: with_ph_ret_def)
  have "ismapped empty_space 0x87FFB000 0x5000 = Some False"
    using ismapped_spec [OF empty_space(1) va5(3)] empty_space(2) by auto
  then have mp: "mapped_at faulted_kernel 0x87FFB000 0x5000 = Some False"
    using kr(2) by (auto simp: mapped_at_def ismapped_def bind_eq_Some_conv split: if_split_asm)
  have "anon_fault try_kalloc_or_replace True SCAUSE_READ 0x5678 faulted_kernel = Some ?k4"
    using mp a k2 w kr by (simp add: anon_fault_def va5)
  then have run: "page_fault SCAUSE_READ 0x5678 swapped_kernel = Some ?k4"
    using swapped_kernel(4) unfolding page_fault_def page_fault_with_def Let_def
    by (simp add: reported_def access_of_def user_kernel_simps swap_proc_def)
  have c: "cur k2 = 0" "length (procs k2) = 1"
    using restD(1,7) [OF sp(3)] kr by simp_all
  have "set_page_entry 0x5000 (\<lambda>e. e\<lparr>ps_state := RESIDENT, ps_slot := -1, ps_dirty := False\<rparr>) (one_entry 0x5000 SWAPPED False) = one_entry 0x5000 RESIDENT False"
    by (simp add: set_page_entry_def one_entry_def upd_page_def)
  then have p2: "p_memstat (procs k2 ! 0) = one_entry 0x5000 RESIDENT False" "\<not> p_killed (procs k2 ! 0)"
    using swapin_proc [OF k2] kr va5(2) by simp_all
  have "memstat_mark_resident ((one_entry 0x5000 RESIDENT False)\<lparr>next_fifo_seq := 1\<rparr>) 0x5000 0 = (one_entry 0x5000 RESIDENT False)\<lparr>next_fifo_seq := 1\<rparr>"
    by (simp add: memstat_mark_resident_def memstat_find_index_def one_entry_def upd_page_def fresh_memstat_def)
  moreover have "next_fifo_seq (one_entry 0x5000 RESIDENT False) = 0" by (simp add: one_entry_def fresh_memstat_def)
  ultimately have "\<not> p_killed (myproc ?k4)" "p_memstat (myproc ?k4) = (one_entry 0x5000 RESIDENT False)\<lparr>next_fifo_seq := 1\<rparr>"
    using c p2 by (simp_all add: inc_resident_def note_resident_def upd_memstat_def trace_event_def upd_cnt_def Let_def)
  with run show thesis by (rule that)
qed

text \<open>A write to the guard page of a stack that ends at \<open>0x9000\<close>, below the break.\<close>

theorem bad_access_kills_witness:
  "let k = upd_proc 0 (\<lambda>p. p\<lparr>p_seg := (p_seg p)\<lparr>stack_top := 0x9000\<rparr>\<rparr>) swapped_kernel
   in 0x7123 < p_sz (myproc k) \<and> (\<exists>k'. page_fault SCAUSE_WRITE 0x7123 k = Some k' \<and> p_killed (myproc k') \<and> contents k' = contents k)"
proof -
  define k where "k = upd_proc 0 (\<lambda>p. p\<lparr>p_seg := (p_seg p)\<lparr>stack_top := 0x9000\<rparr>\<rparr>) swapped_kernel"
  have k: "cur k = 0" "length (procs k) = 1" "p_sz (myproc k) = 0x10000" "stack_top (p_seg (myproc k)) = 0x9000"
    by (simp_all add: k_def user_kernel_simps swap_proc_def)
  have "\<exists>k'. page_fault SCAUSE_WRITE 0x7123 k = Some k' \<and> p_killed (myproc k') \<and> contents k' = contents k"
    using bad_access_kills [OF _ refl, of k "0x7123" SCAUSE_WRITE] k by (auto simp: PGROUNDUP_def)
  then show ?thesis using k(3) by (simp add: Let_def flip: k_def)
qed

lemma swapped_kernel_read:
  obtains k1 ys where "page_fault SCAUSE_READ 0x5678 swapped_kernel = Some k1" "pager_ok k1 ys" "contents k1 0x5000 = Some (replicate 4096 9)"
    "\<not> p_killed (myproc k1)" "p_memstat (myproc k1) = (one_entry 0x5000 RESIDENT False)\<lparr>next_fifo_seq := 1\<rparr>"
proof -
  obtain k1 where k1: "page_fault SCAUSE_READ 0x5678 swapped_kernel = Some k1" "\<not> p_killed (myproc k1)"
    "p_memstat (myproc k1) = (one_entry 0x5000 RESIDENT False)\<lparr>next_fifo_seq := 1\<rparr>"
    by (rule swapped_kernel_faults)
  have nv: "\<not> valid_pte (pte_of (mem (ph swapped_kernel)) (p_pagetable (myproc swapped_kernel)) 0x5000)"
    using empty_space(2) by (simp add: user_kernel_simps)
  note f = resumes [OF swapped_kernel(1,2) disjI1 [OF refl] va5(1) [symmetric] va5(3) nv refl _ _ k1(1) [unfolded page_fault_def] k1(2)]
  then show thesis
    using that [OF k1(1) _ _ k1(2,3)] swapped_kernel(3,4) by auto
qed

theorem page_fault_resumes_witness:
  "\<exists>k'. page_fault SCAUSE_READ 0x5678 swapped_kernel = Some k' \<and> upage (ph k') (p_pagetable (myproc k')) 0x5000
     \<and> contents k' 0x5000 = Some (replicate 4096 9)"
proof -
  obtain k' where k': "page_fault SCAUSE_READ 0x5678 swapped_kernel = Some k'" "\<not> p_killed (myproc k')"
    by (rule swapped_kernel_faults)
  have nv: "\<not> valid_pte (pte_of (mem (ph swapped_kernel)) (p_pagetable (myproc swapped_kernel)) 0x5000)"
    using empty_space(2) by (simp add: user_kernel_simps)
  show ?thesis
    using page_fault_resumes [OF swapped_kernel(1,2) disjI1 [OF refl] va5(1) [symmetric] va5(3) nv refl _ _ k'(1) [unfolded page_fault_def] k'(2)]
      swapped_kernel(3,4) k'(1) by simp
qed

section \<open>A page lost\<close>

lemma discard_victim:
  assumes ok: "pager_ok k xs" and up: "upage (ph k) (p_pagetable (myproc k)) (victim_page k idx)"
    and new: "swapped k (cur k) (victim_page k idx) = None" and d: "\<not> victim_dirty k idx"
  shows "\<exists>pa k'. replace_victim idx algo k = Some (pa, k') \<and> pa \<noteq> 0 \<and> contents k' = (contents k)(victim_page k idx := None)"
proof -
  let ?r = "p_pagetable (myproc k)" and ?va = "victim_page k idx"
  let ?f = "frame_of (ph k) ?r ?va"
  have sp: "space_ok (ph k) ?r xs" using ok by (simp add: pager_ok_def)
  obtain pte s1 s2 where e: "walk (ph k) ?r ?va False = Some (pte, ph k)" "pte \<noteq> 0" "load64 (mem (ph k)) pte = pte_of (mem (ph k)) ?r ?va"
    "kfree ((ph k)\<lparr>mem := store64 (mem (ph k)) pte 0\<rparr>) ?f = Some s1" "kalloc s1 = (?f, s2)" "?f \<noteq> 0"
    using evict_space [OF sp up] by metis
  have v: "valid_pte (load64 (mem (ph k)) pte)" using up e(3) by (simp add: upage_def user_pte_def)
  have "\<exists>k'. replace_victim idx algo k = Some (?f, k')"
    using e v d by (simp add: replace_victim_def Let_def victim_page_def [symmetric] victim_dirty_def evict_def with_ph_def k_alloc_def set_mem_def frame_of_def)
  then obtain k' where k': "replace_victim idx algo k = Some (?f, k')" by blast
  then show ?thesis using victim_replaced [OF ok up new k'] d e(6) by auto
qed

lemma read_marks_resident:
  assumes "pager_ok k xs" and "tracked k" and "va0 = PGROUNDDOWN va" and "va0 < MAXVA"
    and "\<not> valid_pte (pte_of (mem (ph k)) (p_pagetable (myproc k)) va0)" and "classify (myproc k) SCAUSE_READ va = Swap"
    and "page_fault SCAUSE_READ va k = Some k'" and "\<not> p_killed (myproc k')" and "cur k' < length (procs k')"
  shows "\<exists>ms seq. p_memstat (myproc k') = memstat_mark_resident ms va0 seq"
proof -
  define ev where "ev = PAGEFAULT (p_pid (myproc k)) va (access_of SCAUSE_READ) Swap"
  note b = bookD [OF reported(1) [of k ev]]
  have run: "anon_fault try_kalloc_or_replace True SCAUSE_READ va (reported ev k) = Some k'"
    using assms(6,7) by (simp add: page_fault_def page_fault_with_def Let_def reported_def ev_def)
  have ok: "pager_ok (reported ev k) xs" "tracked (reported ev k)"
    using assms(1,2) b(6) by (simp_all add: reported_tracked)
  have nv: "\<not> valid_pte (pte_of (mem (ph (reported ev k))) (p_pagetable (myproc (reported ev k))) va0)"
    using assms(5) unfolding reported(5) b(1) .
  have rd: "SCAUSE_READ \<noteq> SCAUSE_EXEC" by simp
  obtain k3 where "k' = inc_resident (note_resident va0 k3)"
    by (rule anon_filled [OF ok disjI1 [OF refl] assms(3,4) nv rd run assms(8)]) simp
  then show ?thesis
    using assms(9) by (auto simp: inc_resident_def note_resident_def upd_memstat_def trace_event_def upd_cnt_def Let_def split: if_splits)
qed

lemma first_idx_updated:
  assumes "first_idx P (xs[j := e]) = Some i" "P e" "j < length xs" "\<And>l. l < j \<Longrightarrow> \<not> P (xs ! l)"
  shows "i = j"
proof (rule linorder_cases [of i j])
  assume "i < j"
  then show ?thesis using first_idx_SomeD(2) [OF assms(1)] assms(4) by simp
next
  assume "j < i"
  then have "\<not> P (xs[j := e] ! j)" using assms(1) unfolding first_idx_Some_iff by blast
  then show ?thesis using assms(2,3) by simp
qed simp

lemma marked_clean:
  assumes run: "first_idx (\<lambda>p. live p \<and> ps_va p = ucast va) (ms_pages (memstat_mark_resident ms va seq)) = Some i"
  shows "\<not> ps_dirty (ms_pages (memstat_mark_resident ms va seq) ! i)"
proof -
  let ?P = "\<lambda>p. live p \<and> ps_va p = ucast va" and ?xs = "ms_pages ms"
  show ?thesis
  proof (cases "first_idx ?P ?xs")
    case (Some j)
    let ?e = "(?xs ! j)\<lparr>ps_state := RESIDENT, ps_seq := seq, ps_dirty := False, ps_slot := -1\<rparr>"
    have j: "j < length ?xs" "?P (?xs ! j)" "\<And>l. l < j \<Longrightarrow> \<not> ?P (?xs ! l)" using Some by (auto simp: first_idx_Some_iff)
    have "ms_pages (memstat_mark_resident ms va seq) = ?xs[j := ?e]"
      using Some j by (simp add: memstat_mark_resident_def memstat_find_index_def live_def upd_page_def Let_def)
    moreover have "i = j" by (rule first_idx_updated [of ?P ?xs j ?e]) (use run calculation j in \<open>auto simp: live_def\<close>)
    ultimately show ?thesis using j by simp
  next
    case None
    note n = None [unfolded live_def]
    show ?thesis
    proof (cases "first_idx (\<lambda>p. ps_state p = UNMAPPED) ?xs")
      case (Some j)
      let ?e = "(?xs ! j)\<lparr>ps_va := ucast va, ps_state := RESIDENT, ps_seq := seq, ps_dirty := False, ps_slot := -1\<rparr>"
      have j: "j < length ?xs" "\<And>l. l < length ?xs \<Longrightarrow> \<not> ?P (?xs ! l)" using Some None by (auto simp: first_idx_Some_iff)
      have "ms_pages (memstat_mark_resident ms va seq) = ?xs[j := ?e]"
        using Some n j(1) by (simp add: memstat_mark_resident_def memstat_find_index_def upd_page_def Let_def del: first_idx_None_iff)
      moreover have "i = j" by (rule first_idx_updated [of ?P ?xs j ?e]) (use run calculation j in \<open>auto simp: live_def\<close>)
      ultimately show ?thesis using j(1) by simp
    next
      case none: None
      then have "memstat_mark_resident ms va seq = ms"
        using n by (simp add: memstat_mark_resident_def memstat_find_index_def del: first_idx_None_iff)
      then show ?thesis using run None by simp
    qed
  qed
qed

text \<open>
  C13: demand paging can lose a page. When a process reads a page that was swapped out, the handler
  brings it in with its contents, frees its slot and marks it clean; if then memory fills up
  (\<open>m\<close> has no free page and the same user pages) and the FIFO policy selects the page's entry, the
  next allocation succeeds by discarding the only copy. The address must fit the 32 bits of the
  metadata.
\<close>

theorem swapped_page_lost:
  assumes "pager_ok k xs" and "tracked k" and "va0 = PGROUNDDOWN va" and "va0 < MAXVA" and "ucast (ucast va0 :: u32) = va0"
    and "\<not> valid_pte (pte_of (mem (ph k)) (p_pagetable (myproc k)) va0)" and "\<not> in_guard (myproc k) va"
    and "\<exists>e \<in> set (ms_pages (p_memstat (myproc k))). ps_state e = SWAPPED \<and> ps_va e = ucast va0"
    and "page_fault SCAUSE_READ va k = Some k1" and "\<not> p_killed (myproc k1)"
    and "space_ok m (p_pagetable (myproc k1)) []" and "page_of m (p_pagetable (myproc k1)) = page_of (ph k1) (p_pagetable (myproc k1))"
    and "select_victim_fifo_index (p_memstat (myproc k1)) = Some i"
    and "first_idx (\<lambda>p. ps_state p \<noteq> UNMAPPED \<and> ps_va p = ucast va0) (ms_pages (p_memstat (myproc k1))) = Some i"
  shows "contents k va0 \<noteq> None \<and> contents (k1\<lparr>ph := m\<rparr>) va0 = contents k va0
     \<and> (\<exists>pa k2. try_kalloc_or_replace (k1\<lparr>ph := m\<rparr>) = Some (pa, k2) \<and> pa \<noteq> 0
         \<and> contents k2 = (contents (k1\<lparr>ph := m\<rparr>))(va0 := None))"
proof -
  let ?r = "p_pagetable (myproc k1)" and ?k = "k1\<lparr>ph := m\<rparr>"
  let ?k' = "printk (MEMFULL (p_pid (myproc ?k))) ?k"
  have cl: "classify (myproc k) SCAUSE_READ va = Swap"
    using assms(3,7,8) by (auto simp: classify_def was_swapped_def)
  obtain ys where f: "pager_ok k1 ys" "upage (ph k1) ?r va0" "contents k1 va0 \<noteq> None" "swapped k1 (cur k1) va0 = None"
      "contents k1 va0 = contents k va0"
    using resumes [OF assms(1,2) disjI1 [OF refl] assms(3,4,6) refl _ _ assms(9) [unfolded page_fault_def] assms(10)] cl by auto
  have con: "contents ?k = contents k1" "contents ?k' = contents k1"
    by (rule contents_cong; simp add: assms(12))+
  have clean: "\<not> ps_dirty (ms_pages (p_memstat (myproc k1)) ! i)"
    using read_marks_resident [OF assms(1-4,6) cl assms(9,10)] marked_clean f(1) swap_inv_cur assms(14) by (fastforce simp: pager_ok_def live_def)
  have ok: "pager_ok ?k' []" using assms(11) f(1) by (simp add: pager_ok_def)
  have v: "victim_page ?k' i = va0" "\<not> victim_dirty ?k' i"
    using first_idx_SomeD(2) [OF assms(14)] clean assms(3,5) by (simp_all add: victim_page_def victim_dirty_def)
  have up: "upage (ph ?k') (p_pagetable (myproc ?k')) (victim_page ?k' i)" "swapped ?k' (cur ?k') (victim_page ?k' i) = None"
    using f(2,4) fun_cong [OF assms(12), of va0] unfolding v(1) by (simp_all add: page_of_def split: if_split_asm)
  have "k_alloc ?k = (0, ?k)"
    using kalloc_empty [OF pt_inv_kmem [OF space_okD(1) [OF assms(11)]]] by (simp add: k_alloc_def)
  then have "try_kalloc_or_replace ?k = replace_victim i ''FIFO'' ?k'"
    using assms(13) by (simp add: try_kalloc_or_replace_def try_kalloc_or_replace_with_def Let_def fifo_sel_def)
  then show ?thesis
    using discard_victim [OF ok up v(2), of "''FIFO''"] f(3,5) unfolding v(1) con by auto
qed

theorem swapped_page_lost_witness:
  "\<exists>k1 m pa k2. contents swapped_kernel 0x5000 = Some (replicate 4096 9)
     \<and> page_fault SCAUSE_READ 0x5678 swapped_kernel = Some k1 \<and> contents (k1\<lparr>ph := m\<rparr>) 0x5000 = Some (replicate 4096 9)
     \<and> try_kalloc_or_replace (k1\<lparr>ph := m\<rparr>) = Some (pa, k2) \<and> contents k2 0x5000 = None"
proof -
  obtain k1 ys where k1: "page_fault SCAUSE_READ 0x5678 swapped_kernel = Some k1" "\<not> p_killed (myproc k1)"
    "p_memstat (myproc k1) = (one_entry 0x5000 RESIDENT False)\<lparr>next_fifo_seq := 1\<rparr>" "pager_ok k1 ys"
    by (rule swapped_kernel_read)
  let ?r = "p_pagetable (myproc k1)"
  have nv: "\<not> valid_pte (pte_of (mem (ph swapped_kernel)) (p_pagetable (myproc swapped_kernel)) 0x5000)"
    using empty_space(2) by (simp add: user_kernel_simps)
  have "space_ok (ph k1) ?r ys" using k1(4) by (simp add: pager_ok_def)
  then obtain m where m: "space_ok m ?r []" "page_of m ?r = page_of (ph k1) ?r"
    using drain by blast
  have e: "\<exists>e \<in> set (ms_pages (p_memstat (myproc swapped_kernel))). ps_state e = SWAPPED \<and> ps_va e = ucast (0x5000 :: u64)"
    by (simp add: user_kernel_simps one_entry_def)
  have g: "\<not> in_guard (myproc swapped_kernel) 0x5678"
    by (simp add: user_kernel_simps in_guard_def stack_guard_def stack_base_def stack_end_def swap_proc_def no_seg_def PGROUNDUP_def)
  have sel: "select_victim_fifo_index (p_memstat (myproc k1)) = Some 0"
    using one_entry_victim [of "0x5000" False] k1(3) by (simp add: select_victim_fifo_index_def)
  have idx: "first_idx (\<lambda>p. ps_state p \<noteq> UNMAPPED \<and> ps_va p = ucast (0x5000 :: u64)) (ms_pages (p_memstat (myproc k1))) = Some 0"
    by (simp add: k1(3) one_entry_def)
  have u: "ucast (ucast (0x5000 :: u64) :: u32) = (0x5000 :: u64)" by simp
  show ?thesis
    using swapped_page_lost [OF swapped_kernel(1,2) va5(1) [symmetric] va5(3) u nv g e k1(1,2) m sel idx] k1(1) swapped_kernel(3) by auto
qed

end
