(* ===== verification/Bonus.thy ===== *)
theory Bonus
  imports Faultspec
begin

text \<open>
  The kernel with \<open>vm.c\<close> against the one with \<open>vm_bonus.c\<close>: they differ only when memory is full
  and some resident page is clean.
\<close>

definition no_choice :: "kernel \<Rightarrow> bool" where
  "no_choice k \<longleftrightarrow> freelist (ph k) \<noteq> 0 \<or> (\<forall>e \<in> set (ms_pages (p_memstat (myproc k))). ps_state e = RESIDENT \<longrightarrow> ps_dirty e)"

lemma all_dirty_select:
  assumes len: "length (ms_pages ms) = MAX_PAGES_INFO" and d: "\<forall>e \<in> set (ms_pages ms). ps_state e = RESIDENT \<longrightarrow> ps_dirty e"
  shows "cleanfifo_sel ms = fifo_sel ms"
proof -
  let ?Q = "\<lambda>p. ps_state p = RESIDENT"
  obtain i c where s: "select_victim_cleanfifo_index ms = (i, c)" by (cases "select_victim_cleanfifo_index ms")
  have c: "\<not> c" using cleanfifo_oldest(1) [OF len] d s by auto
  have o: "oldest ?Q (ms_pages ms) i" "oldest ?Q (ms_pages ms) (select_victim_fifo_index ms)"
    using cleanfifo_oldest(2) [OF len] fifo_oldest [OF len] s c by simp_all
  have "i = select_victim_fifo_index ms"
    using o oldest_unique [of ?Q "ms_pages ms"] by (cases i; cases "select_victim_fifo_index ms") (auto simp: oldest_def)
  then show ?thesis using s c by (simp add: cleanfifo_sel_def fifo_sel_def)
qed

lemma replace_agrees:
  assumes "length (ms_pages (p_memstat (myproc k))) = MAX_PAGES_INFO" and "no_choice k"
  shows "bonus_try_kalloc_or_replace k = try_kalloc_or_replace k"
proof (cases "freelist (ph k) = 0")
  case True
  then have "cleanfifo_sel (p_memstat (myproc k)) = fifo_sel (p_memstat (myproc k))"
    using assms by (intro all_dirty_select) (simp_all add: no_choice_def)
  moreover have "k_alloc k = (0, k)" using True by (simp add: k_alloc_def kalloc_def)
  ultimately show ?thesis
    by (simp add: bonus_try_kalloc_or_replace_def try_kalloc_or_replace_def try_kalloc_or_replace_with_def Let_def)
next
  case False
  then show ?thesis
    by (simp add: bonus_try_kalloc_or_replace_def try_kalloc_or_replace_def try_kalloc_or_replace_with_def k_alloc_def kalloc_def Let_def)
qed

lemma fault_depends:
  assumes "alloc k = alloc' k"
  shows "fault_file alloc b va k = fault_file alloc' b va k" "fault_anon alloc va k = fault_anon alloc' va k"
    "vmfault_with alloc pt va k = vmfault_with alloc' pt va k" "anon_fault alloc sw sc va k = anon_fault alloc' sw sc va k"
    "exec_fault alloc sc va k = exec_fault alloc' sc va k"
proof -
  show f: "fault_file alloc b va k = fault_file alloc' b va k" "fault_anon alloc va k = fault_anon alloc' va k" for b va
    using assms by (simp_all add: fault_file_def fault_anon_def)
  show "vmfault_with alloc pt va k = vmfault_with alloc' pt va k"
    unfolding vmfault_with_def f ..
  show "anon_fault alloc sw sc va k = anon_fault alloc' sw sc va k"
    unfolding anon_fault_def assms ..
  have "load_exec_page alloc va k = load_exec_page alloc' va k" for va
    unfolding load_exec_page_def assms ..
  then show "exec_fault alloc sc va k = exec_fault alloc' sc va k"
    unfolding exec_fault_def by (simp only:)
qed

text \<open>
  C25: as long as a page is free, or every resident page is dirty, the kernel with the clean-first
  policy of \<open>vm_bonus.c\<close> handles every page fault and every kernel fault exactly as the kernel with
  \<open>vm.c\<close> does, down to the messages it prints.
\<close>

theorem bonus_agrees:
  assumes "length (ms_pages (p_memstat (myproc k))) = MAX_PAGES_INFO" and "no_choice k"
  shows "bonus_page_fault sc va k = page_fault sc va k \<and> bonus_vmfault pt va k = vmfault pt va k"
proof -
  have "no_choice (reported ev k) = no_choice k" for ev
    unfolding no_choice_def reported(2) bookD(1) [OF reported(1)] ..
  then have r: "bonus_try_kalloc_or_replace (reported ev k) = try_kalloc_or_replace (reported ev k)" for ev
    using assms reported(2) [of ev k] by (intro replace_agrees) simp_all
  have "bonus_page_fault sc va k = page_fault sc va k"
    unfolding bonus_page_fault_def page_fault_def page_fault_with_def Let_def reported_def [symmetric]
    by (simp only: fault_depends(4,5) [where alloc = bonus_try_kalloc_or_replace and alloc' = try_kalloc_or_replace, OF r])
  moreover have "bonus_vmfault pt va k = vmfault pt va k"
    unfolding bonus_vmfault_def vmfault_def by (rule fault_depends(3)) (rule replace_agrees [OF assms])
  ultimately show ?thesis ..
qed

theorem bonus_agrees_witness:
  "\<exists>k'. bonus_page_fault SCAUSE_READ 0x5678 swapped_kernel = Some k' \<and> contents k' 0x5000 = Some (replicate 4096 9)"
proof -
  have "length (ms_pages (p_memstat (myproc swapped_kernel))) = MAX_PAGES_INFO"
    using one_entry(1) [of "0x5000" SWAPPED False] by (simp add: user_kernel_simps)
  moreover have "no_choice swapped_kernel"
    by (auto simp: no_choice_def user_kernel_simps one_entry_def)
  ultimately have "bonus_page_fault SCAUSE_READ 0x5678 swapped_kernel = page_fault SCAUSE_READ 0x5678 swapped_kernel"
    using bonus_agrees [of swapped_kernel SCAUSE_READ "0x5678" 0] by simp
  moreover obtain k1 where "page_fault SCAUSE_READ 0x5678 swapped_kernel = Some k1" "contents k1 0x5000 = Some (replicate 4096 9)"
    by (rule swapped_kernel_read)
  ultimately show ?thesis by auto
qed

end
