(* ===== verification/Ulib.thy ===== *)
theory Ulib
  imports Cstring
begin

text \<open>
  The string routines of the user library (\<open>user/ulib.c\<close>), as the loops the C code runs over the
  memory of the process; \<open>None\<close> stands for a loop that does not end. \<open>char\<close> is unsigned on RISC-V.
\<close>

section \<open>Operations\<close>

partial_function (option) strcpy_loop :: "memory \<Rightarrow> u64 \<Rightarrow> u64 \<Rightarrow> memory option" where
  "strcpy_loop m s t =
     (let m1 = m(s := m t) in if m1 s \<noteq> 0 then strcpy_loop m1 (s + 1) (t + 1) else Some m1)"

definition strcpy :: "memory \<Rightarrow> u64 \<Rightarrow> u64 \<Rightarrow> (u64 \<times> memory) option" where
  "strcpy m s t = map_option (Pair s) (strcpy_loop m s t)"

partial_function (option) strcmp :: "memory \<Rightarrow> u64 \<Rightarrow> u64 \<Rightarrow> int option" where
  "strcmp m p q =
     (if m p \<noteq> 0 \<and> m p = m q then strcmp m (p + 1) (q + 1) else Some (uint (m p) - uint (m q)))"

partial_function (option) u_strlen_from :: "memory \<Rightarrow> u64 \<Rightarrow> nat \<Rightarrow> nat option" where
  "u_strlen_from m s n = (if m (s + of_nat n) \<noteq> 0 then u_strlen_from m s (Suc n) else Some n)"

definition u_strlen :: "memory \<Rightarrow> u64 \<Rightarrow> u32 option" where
  "u_strlen m s = map_option of_nat (u_strlen_from m s 0)"

function u_memset_loop :: "memory \<Rightarrow> u64 \<Rightarrow> u8 \<Rightarrow> nat \<Rightarrow> nat \<Rightarrow> memory" where
  "u_memset_loop m dst c i n =
     (if i < n then u_memset_loop (m(dst + of_nat i := c)) dst c (Suc i) n else m)"
  by pat_completeness auto
termination
  by (relation "measure (\<lambda>(m, dst, c, i, n). n - i)") auto

definition u_memset :: "memory \<Rightarrow> u64 \<Rightarrow> u8 \<Rightarrow> nat \<Rightarrow> memory" where
  "u_memset m dst c n = u_memset_loop m dst c 0 n"

text \<open>The result 0 is the null pointer.\<close>

partial_function (option) strchr :: "memory \<Rightarrow> u64 \<Rightarrow> u8 \<Rightarrow> u64 option" where
  "strchr m s c = (if m s \<noteq> 0 then if m s = c then Some s else strchr m (s + 1) c else Some 0)"

text \<open>
  \<open>gets\<close> reads one byte at a time; the input is the list of bytes the calls of \<open>read\<close> deliver before
  one of them returns 0 or an error.
\<close>

fun gets_loop :: "memory \<Rightarrow> u64 \<Rightarrow> nat \<Rightarrow> nat \<Rightarrow> u8 list \<Rightarrow> nat \<times> memory \<times> u8 list" where
  "gets_loop m buf i mx [] = (i, m, [])"
| "gets_loop m buf i mx (c # inp) =
     (if i + 1 < mx
      then let m1 = m(buf + of_nat i := c)
           in if c = 10 \<or> c = 13 then (i + 1, m1, inp) else gets_loop m1 buf (i + 1) mx inp
      else (i, m, c # inp))"

definition gets :: "memory \<Rightarrow> u64 \<Rightarrow> nat \<Rightarrow> u8 list \<Rightarrow> memory \<times> u8 list" where
  "gets m buf mx inp = (case gets_loop m buf 0 mx inp of (i, m1, rest) \<Rightarrow> (m1(buf + of_nat i := 0), rest))"

definition digit :: "u8 \<Rightarrow> bool" where
  "digit c \<longleftrightarrow> 48 \<le> c \<and> c \<le> 57"

partial_function (option) atoi_loop :: "memory \<Rightarrow> u64 \<Rightarrow> u32 \<Rightarrow> u32 option" where
  "atoi_loop m s n = (if digit (m s) then atoi_loop m (s + 1) (n * 10 + ucast (m s) - 48) else Some n)"

definition atoi :: "memory \<Rightarrow> u64 \<Rightarrow> u32 option" where
  "atoi m s = atoi_loop m s 0"

definition u_memmove :: "memory \<Rightarrow> u64 \<Rightarrow> u64 \<Rightarrow> nat \<Rightarrow> memory" where
  "u_memmove m dst src n =
     (if src > dst then memmove_up m dst src n else memmove_down m (dst + of_nat n) (src + of_nat n) n)"

fun u_memcmp :: "memory \<Rightarrow> u64 \<Rightarrow> u64 \<Rightarrow> nat \<Rightarrow> int" where
  "u_memcmp m p1 p2 0 = 0"
| "u_memcmp m p1 p2 (Suc n) =
     (if m p1 \<noteq> m p2 then uint (m p1) - uint (m p2) else u_memcmp m (p1 + 1) (p2 + 1) n)"

definition u_memcpy :: "memory \<Rightarrow> u64 \<Rightarrow> u64 \<Rightarrow> nat \<Rightarrow> memory" where
  "u_memcpy m dst src n = u_memmove m dst src n"

section \<open>Strings\<close>

text \<open>The string at an address: its bytes before the first zero byte.\<close>

definition cstring :: "memory \<Rightarrow> u64 \<Rightarrow> u8 list \<Rightarrow> bool" where
  "cstring m s cs \<longleftrightarrow> 0 \<notin> set cs \<and> (\<forall>i < length cs. m (s + of_nat i) = cs ! i) \<and> m (s + of_nat (length cs)) = 0"

lemma cstring_Nil [simp]: "cstring m s [] \<longleftrightarrow> m s = 0"
  by (simp add: cstring_def)

lemma cstring_Cons [simp]: "cstring m s (c # cs) \<longleftrightarrow> m s = c \<and> c \<noteq> 0 \<and> cstring m (s + 1) cs"
  by (auto simp: cstring_def All_less_Suc2 ac_simps)

lemma cstring_unique: "cstring m s cs \<Longrightarrow> cstring m s ds \<Longrightarrow> cs = ds"
proof (induction cs arbitrary: s ds)
  case Nil
  then show ?case by (cases ds) auto
next
  case (Cons c cs)
  then show ?case by (cases ds) auto
qed

lemma u_strlen_from_cstring: "cstring m (s + of_nat n) cs \<Longrightarrow> u_strlen_from m s n = Some (n + length cs)"
proof (induction cs arbitrary: n)
  case Nil
  then show ?case by (subst u_strlen_from.simps) simp
next
  case (Cons c cs)
  then show ?case using Cons.IH [of "Suc n"] by (subst u_strlen_from.simps) (simp add: ac_simps)
qed

lemma u_strlen_cstring: "cstring m s cs \<Longrightarrow> u_strlen m s = Some (of_nat (length cs))"
  using u_strlen_from_cstring [of m s 0 cs] by (simp add: u_strlen_def)

lemma strcmp_cstring:
  "cstring m p cs \<Longrightarrow> cstring m q ds \<Longrightarrow> \<exists>r. strcmp m p q = Some r \<and> (r = 0 \<longleftrightarrow> cs = ds)"
proof (induction cs arbitrary: p q ds)
  case Nil
  then show ?case by (cases ds; subst strcmp.simps) (auto simp: uint_0_iff)
next
  case (Cons c cs)
  show ?case
  proof (cases "\<exists>ds'. ds = c # ds'")
    case True
    then obtain ds' where "ds = c # ds'" by blast
    then show ?thesis using Cons.prems Cons.IH [of "p + 1" "q + 1" ds'] by (subst strcmp.simps) auto
  next
    case False
    then have "m p \<noteq> m q" using Cons.prems by (cases ds) auto
    then have "uint (m p) \<noteq> uint (m q)" by (simp add: word_uint_eq_iff)
    then show ?thesis using False \<open>m p \<noteq> m q\<close> by (subst strcmp.simps) auto
  qed
qed

lemma strchr_cstring:
  "cstring m s cs \<Longrightarrow> strchr m s c = Some (if c \<in> set cs then s + of_nat (length (takeWhile (\<lambda>x. x \<noteq> c) cs)) else 0)"
proof (induction cs arbitrary: s)
  case Nil
  then show ?case by (subst strchr.simps) simp
next
  case (Cons d cs)
  then show ?case by (subst strchr.simps) (auto simp: ac_simps)
qed

text \<open>The value \<open>atoi\<close> gives a string of digits.\<close>

definition digits_val :: "u8 list \<Rightarrow> nat" where
  "digits_val cs = foldl (\<lambda>n c. n * 10 + (unat c - 48)) 0 cs"

lemma atoi_loop_digits:
  "(\<forall>i < length cs. m (s + of_nat i) = cs ! i \<and> digit (cs ! i)) \<Longrightarrow> \<not> digit (m (s + of_nat (length cs))) \<Longrightarrow>
     atoi_loop m s (of_nat n) = Some (of_nat (foldl (\<lambda>n c. n * 10 + (unat c - 48)) n cs))"
proof (induction cs arbitrary: s n)
  case Nil
  then show ?case by (subst atoi_loop.simps) simp
next
  case (Cons c cs)
  have c: "digit (m s)" "m s = c" using Cons.prems(1) by (auto dest: spec [of _ 0])
  then have "48 \<le> unat c" by (simp add: digit_def word_le_nat_alt)
  then have e: "of_nat n * 10 + ucast c - 48 = (of_nat (n * 10 + (unat c - 48)) :: u32)"
    by (simp add: of_nat_diff unsigned_ucast_eq)
  have "atoi_loop m s (of_nat n) = atoi_loop m (s + 1) (of_nat (n * 10 + (unat c - 48)))"
    by (subst atoi_loop.simps) (simp only: c if_True e c(1) [unfolded c(2)])
  then show ?case
    using Cons.IH [of "s + 1" "n * 10 + (unat c - 48)"] Cons.prems by (simp add: All_less_Suc2 ac_simps)
qed

text \<open>Copying a string that does not overlap its destination.\<close>

lemma strcpy_loop_cstring:
  assumes "cstring m t cs" "length cs < 2 ^ 32" "\<And>i j. i \<le> length cs \<Longrightarrow> j \<le> length cs \<Longrightarrow> s + of_nat i \<noteq> t + of_nat j"
  shows "\<exists>m'. strcpy_loop m s t = Some m' \<and> cstring m' s cs
     \<and> (\<forall>x. \<not> unat (x - s) \<le> length cs \<longrightarrow> m' x = m x)"
  using assms
proof (induction cs arbitrary: m s t)
  case Nil
  then show ?case by (subst strcpy_loop.simps) (auto simp: Let_def)
next
  case (Cons c cs)
  define m1 where "m1 = m(s := c)"
  have m1s: "m1 s = c" by (simp add: m1_def)
  have mt: "m t = c" "c \<noteq> 0" "cstring m (t + 1) cs" using Cons.prems(1) by simp_all
  have ne: "s \<noteq> t + 1 + of_nat j" if "j \<le> length cs" for j
    using Cons.prems(3) [of 0 "Suc j"] that by (simp add: ac_simps)
  then have "m1 (t + 1 + of_nat j) = m (t + 1 + of_nat j)" if "j \<le> length cs" for j
    using ne [OF that] by (simp add: m1_def)
  then have "cstring m1 (t + 1) cs" using mt(3) unfolding cstring_def by simp
  moreover have "s + 1 + of_nat i \<noteq> t + 1 + of_nat j" if "i \<le> length cs" "j \<le> length cs" for i j
    using Cons.prems(3) [of "Suc i" "Suc j"] that by (simp add: ac_simps)
  ultimately obtain m' where m': "strcpy_loop m1 (s + 1) (t + 1) = Some m'" "cstring m' (s + 1) cs"
      "\<And>x. \<not> unat (x - (s + 1)) \<le> length cs \<Longrightarrow> m' x = m1 x"
    using Cons.IH [of m1 "t + 1" "s + 1"] Cons.prems(2) by auto
  have "unat (s - (s + 1)) = 2 ^ 64 - 1" by (simp add: unsigned_minus_1_eq_mask mask_eq_exp_minus_1)
  then have "m' s = c" using m'(3) [of s] Cons.prems(2) by (simp add: m1_def)
  moreover have "m' x = m x" if "\<not> unat (x - s) \<le> length (c # cs)" for x
  proof -
    have ne: "x \<noteq> s" using that by auto
    then have "unat (x - s - 1) = unat (x - s) - 1" by (intro unat_minus_one) simp
    then have "\<not> unat (x - (s + 1)) \<le> length cs" using that by (simp add: diff_diff_eq)
    then show ?thesis using m'(3) ne by (simp add: m1_def)
  qed
  ultimately show ?case
    using m'(1,2) mt m1s by (subst strcpy_loop.simps) (auto simp: Let_def m1_def [symmetric])
qed

text \<open>\<open>memmove\<close> of the library copies in the order that is right for overlapping ranges.\<close>

lemma u_memmove_kernel:
  assumes "unat dst + n \<le> 2 ^ 64" "unat src + n \<le> 2 ^ 64"
  shows "u_memmove m dst src n = memmove m dst src n"
proof -
  note neq = add_of_nat_neq [OF assms]
  have n: "n \<le> 2 ^ 64" using assms(1) by simp
  have "u_memmove m dst src n x = (if unat (x - dst) < n then m (src + (x - dst)) else m x)" for x
  proof (cases "src > dst")
    case True
    have "dst + of_nat i \<noteq> src + of_nat j" if "i < j" "j < n" for i j
      using neq [of i j] that True by (simp add: word_less_nat_alt)
    from memmove_up_eq [OF this n] True show ?thesis by (simp add: u_memmove_def)
  next
    case False
    have "dst + of_nat i \<noteq> src + of_nat j" if "j < i" "i < n" for i j
      using neq [of i j] that False by (simp add: word_less_nat_alt)
    from memmove_down_eq [OF this n] False show ?thesis by (simp add: u_memmove_def)
  qed
  then show ?thesis by (simp add: fun_eq_iff memmove_apply [OF assms])
qed

end
