(* ===== verification/Grep.thy ===== *)
theory Grep
  imports Ulib
begin

text \<open>
  \<open>user/grep.c\<close>: the regular-expression matcher, against the language a pattern denotes, and the
  loop that reads a file in pieces and prints the matching lines. Strings are lists of bytes without
  the final zero byte.
\<close>

abbreviation CARET :: u8 where "CARET \<equiv> 94"
abbreviation DOT :: u8 where "DOT \<equiv> 46"
abbreviation STAR :: u8 where "STAR \<equiv> 42"
abbreviation DOLLAR :: u8 where "DOLLAR \<equiv> 36"
abbreviation NEWLINE :: u8 where "NEWLINE \<equiv> 10"

section \<open>The matcher\<close>

function matchhere :: "u8 list \<Rightarrow> u8 list \<Rightarrow> bool"
  and matchstar :: "u8 \<Rightarrow> u8 list \<Rightarrow> u8 list \<Rightarrow> bool" where
  "matchhere re t =
     (case re of
        [] \<Rightarrow> True
      | c # re1 \<Rightarrow>
          if re1 \<noteq> [] \<and> hd re1 = STAR then matchstar c (tl re1) t
          else if c = DOLLAR \<and> re1 = [] then t = []
          else (case t of
                  [] \<Rightarrow> False
                | x # t1 \<Rightarrow> if c = DOT \<or> c = x then matchhere re1 t1 else False))"
| "matchstar c re t =
     (if matchhere re t then True
      else (case t of
              [] \<Rightarrow> False
            | x # t1 \<Rightarrow> if x = c \<or> c = DOT then matchstar c re t1 else False))"
  by pat_completeness auto
termination
  by (relation "(\<lambda>a. case a of Inl (re, t) \<Rightarrow> length re | Inr (c, re, t) \<Rightarrow> length re) <*mlex*>
        (\<lambda>a. case a of Inl (re, t) \<Rightarrow> length t | Inr (c, re, t) \<Rightarrow> length t) <*mlex*>
        measure (\<lambda>a. case a of Inl _ \<Rightarrow> 0 | Inr _ \<Rightarrow> 1)")
    (auto simp: mlex_prod_def wf_mlex split: list.splits)

declare matchhere.simps [simp del] matchstar.simps [simp del]

fun match_from :: "u8 list \<Rightarrow> u8 list \<Rightarrow> bool" where
  "match_from re [] = matchhere re []"
| "match_from re (x # t) = (if matchhere re (x # t) then True else match_from re t)"

definition match :: "u8 list \<Rightarrow> u8 list \<Rightarrow> bool" where
  "match re t = (if re \<noteq> [] \<and> hd re = CARET then matchhere (tl re) t else match_from re t)"

section \<open>What a pattern denotes\<close>

datatype elem = Sym u8 | Rep u8 | Eol

fun elems :: "u8 list \<Rightarrow> elem list" where
  "elems [] = []"
| "elems [c] = (if c = DOLLAR then [Eol] else [Sym c])"
| "elems (c # d # re) = (if d = STAR then Rep c # elems re else Sym c # elems (d # re))"

definition sat :: "u8 \<Rightarrow> u8 \<Rightarrow> bool" where
  "sat c x \<longleftrightarrow> c = DOT \<or> c = x"

text \<open>\<open>lang es u v\<close>: the string \<open>u\<close> is in the language of \<open>es\<close> when \<open>v\<close> follows it.\<close>

inductive lang :: "elem list \<Rightarrow> u8 list \<Rightarrow> u8 list \<Rightarrow> bool" where
  lang_Nil: "lang [] [] v"
| lang_Eol: "lang [Eol] [] []"
| lang_Sym: "sat c x \<Longrightarrow> lang es u v \<Longrightarrow> lang (Sym c # es) (x # u) v"
| lang_Rep: "\<forall>x \<in> set w. sat c x \<Longrightarrow> lang es u v \<Longrightarrow> lang (Rep c # es) (w @ u) v"

inductive_cases lang_NilE: "lang [] u v"
inductive_cases lang_EolE: "lang [Eol] u v"
inductive_cases lang_SymE: "lang (Sym c # es) u v"
inductive_cases lang_RepE: "lang (Rep c # es) u v"

inductive_simps lang_Sym_iff: "lang (Sym c # es) u v"

lemma prefix_Sym:
  "(\<exists>u v. x # t = u @ v \<and> lang (Sym c # es) u v) \<longleftrightarrow> sat c x \<and> (\<exists>u v. t = u @ v \<and> lang es u v)"
proof
  assume "\<exists>u v. x # t = u @ v \<and> lang (Sym c # es) u v"
  then obtain u v where "t = u @ v" "sat c x" "lang es u v" by (auto simp: lang_Sym_iff)
  then show "sat c x \<and> (\<exists>u v. t = u @ v \<and> lang es u v)" by blast
next
  assume "sat c x \<and> (\<exists>u v. t = u @ v \<and> lang es u v)"
  then obtain u v where "sat c x" "t = u @ v" "lang es u v" by blast
  then show "\<exists>u v. x # t = u @ v \<and> lang (Sym c # es) u v"
    by (intro exI [of _ "x # u"] exI [of _ v]) (simp add: lang_Sym_iff)
qed

lemma prefix_Rep:
  "(\<exists>u v. t = u @ v \<and> lang (Rep c # es) u v) \<longleftrightarrow>
     (\<exists>u v. t = u @ v \<and> lang es u v) \<or> (\<exists>x t1. t = x # t1 \<and> sat c x \<and> (\<exists>u v. t1 = u @ v \<and> lang (Rep c # es) u v))"
proof
  assume "\<exists>u v. t = u @ v \<and> lang (Rep c # es) u v"
  then obtain w u v where t: "t = w @ u @ v" "\<forall>x \<in> set w. sat c x" "lang es u v"
    by (auto elim: lang_RepE)
  show "(\<exists>u v. t = u @ v \<and> lang es u v) \<or> (\<exists>x t1. t = x # t1 \<and> sat c x \<and> (\<exists>u v. t1 = u @ v \<and> lang (Rep c # es) u v))"
  proof (cases w)
    case Nil
    then show ?thesis using t by auto
  next
    case (Cons x w')
    then have "lang (Rep c # es) (w' @ u) v" using t by (auto intro: lang_Rep)
    then show ?thesis using t Cons by (intro disjI2 exI [of _ x] exI [of _ "w' @ u @ v"] conjI exI [of _ "w' @ u"] exI [of _ v]) auto
  qed
next
  assume "(\<exists>u v. t = u @ v \<and> lang es u v) \<or> (\<exists>x t1. t = x # t1 \<and> sat c x \<and> (\<exists>u v. t1 = u @ v \<and> lang (Rep c # es) u v))"
  then show "\<exists>u v. t = u @ v \<and> lang (Rep c # es) u v"
  proof
    assume "\<exists>u v. t = u @ v \<and> lang es u v"
    then show ?thesis using lang_Rep [of "[]" c es] by (metis append_Nil empty_iff empty_set)
  next
    assume "\<exists>x t1. t = x # t1 \<and> sat c x \<and> (\<exists>u v. t1 = u @ v \<and> lang (Rep c # es) u v)"
    then obtain x w u v where t: "t = x # w @ u @ v" "sat c x" "\<forall>x \<in> set w. sat c x" "lang es u v"
      by (auto elim!: lang_RepE)
    then have "lang (Rep c # es) ((x # w) @ u) v" by (intro lang_Rep) auto
    then show ?thesis using t by (intro exI [of _ "(x # w) @ u"] exI [of _ v]) auto
  qed
qed

lemma matchhere_elems:
  "matchhere re t \<longleftrightarrow> (\<exists>u v. t = u @ v \<and> lang (elems re) u v)"
  "matchstar c re t \<longleftrightarrow> (\<exists>u v. t = u @ v \<and> lang (Rep c # elems re) u v)"
proof (induction re t and c re t rule: matchhere_matchstar.induct)
  case (1 re t)
  show ?case
  proof (cases re)
    case Nil
    then show ?thesis by (subst matchhere.simps) (auto intro: lang_Nil elim: lang_NilE)
  next
    case (Cons c re1)
    show ?thesis
    proof (cases "re1 \<noteq> [] \<and> hd re1 = STAR")
      case True
      then have "elems re = Rep c # elems (tl re1)" using Cons by (cases re1) auto
      then show ?thesis using 1(1) [OF Cons True] Cons True by (subst matchhere.simps) simp
    next
      case ns: False
      show ?thesis
      proof (cases "c = DOLLAR \<and> re1 = []")
        case True
        then show ?thesis using Cons by (subst matchhere.simps) (auto intro: lang_Eol elim: lang_EolE)
      next
        case nd: False
        have e: "elems re = Sym c # elems re1" using Cons ns nd by (cases re1) auto
        show ?thesis
        proof (cases t)
          case Nil
          then show ?thesis using Cons ns nd e by (subst matchhere.simps) (auto elim: lang_SymE)
        next
          case t: (Cons x t1)
          show ?thesis
          proof (cases "c = DOT \<or> c = x")
            case True
            have "matchhere re t = matchhere re1 t1"
              using Cons ns nd t True by (subst matchhere.simps) auto
            then have "matchhere re t \<longleftrightarrow> (\<exists>u v. t1 = u @ v \<and> lang (elems re1) u v)"
              using 1(2) [OF Cons ns nd t True] by simp
            also have "\<dots> \<longleftrightarrow> (\<exists>u v. t = u @ v \<and> lang (elems re) u v)"
              unfolding e t prefix_Sym using True by (simp add: sat_def)
            finally show ?thesis .
          next
            case False
            then show ?thesis
              unfolding e t prefix_Sym using Cons ns nd by (subst matchhere.simps) (auto simp: sat_def)
          qed
        qed
      qed
    qed
  qed
next
  case (2 c re t)
  note split = prefix_Rep [of t c "elems re"]
  show ?case
  proof (cases "matchhere re t")
    case True
    then show ?thesis using 2(1) split by (subst matchstar.simps) simp
  next
    case False
    show ?thesis
    proof (cases t)
      case Nil
      then show ?thesis using False 2(1) split by (subst matchstar.simps) auto
    next
      case (Cons x t1)
      then show ?thesis using False 2(1) split 2(2) [OF False Cons]
        by (subst matchstar.simps) (auto simp: sat_def)
    qed
  qed
qed

lemma match_from_suffix: "match_from re t \<longleftrightarrow> (\<exists>a b. t = a @ b \<and> matchhere re b)"
proof (induction t)
  case (Cons x t)
  have "(\<exists>a b. x # t = a @ b \<and> matchhere re b) \<longleftrightarrow> matchhere re (x # t) \<or> (\<exists>a b. t = a @ b \<and> matchhere re b)"
    by (metis Cons_eq_append_conv append_Cons append_Nil)
  then show ?case using Cons by auto
qed simp

text \<open>
  C33: \<open>match\<close> decides what the comments of \<open>grep.c\<close> describe: a string matches when some part of it
  is in the language of the pattern, a part that starts the string if the pattern begins with a
  caret, and that ends it if the pattern ends with a dollar sign.
\<close>

theorem match_denotes:
  "match re t \<longleftrightarrow>
     (if re \<noteq> [] \<and> hd re = CARET then \<exists>u v. t = u @ v \<and> lang (elems (tl re)) u v
      else \<exists>a u v. t = a @ u @ v \<and> lang (elems re) u v)"
  unfolding match_def match_from_suffix matchhere_elems(1) by auto

section \<open>Reading and printing lines\<close>

text \<open>\<open>strchr(p, '\n')\<close> on the zero-terminated contents of the buffer.\<close>

fun find_nl :: "u8 list \<Rightarrow> nat option" where
  "find_nl [] = None"
| "find_nl (c # p) = (if c = 0 then None else if c = NEWLINE then Some 0 else map_option Suc (find_nl p))"

lemma find_nl_less: "find_nl p = Some i \<Longrightarrow> i < length p"
  by (induction p arbitrary: i) (auto split: if_split_asm)

text \<open>The inner loop: the lines printed, and what is left of the buffer.\<close>

function grep_lines :: "u8 list \<Rightarrow> u8 list \<Rightarrow> u8 list \<times> u8 list" where
  "grep_lines pattern p =
     (case find_nl p of
        None \<Rightarrow> ([], p)
      | Some i \<Rightarrow>
          (case grep_lines pattern (drop (i + 1) p) of (out, rest) \<Rightarrow>
             ((if match pattern (take i p) then take (i + 1) p else []) @ out, rest)))"
  by pat_completeness auto
termination
  by (relation "measure (\<lambda>(pattern, p). length p)") (auto dest: find_nl_less)

text \<open>
  The outer loop, on the rest of the input. The \<open>i\<close>-th \<open>read\<close> delivers up to \<open>rd i\<close> bytes, and never
  more than it is asked for or than there are.
\<close>

abbreviation BUFSZ :: nat where "BUFSZ \<equiv> 1024"

function grep_loop :: "u8 list \<Rightarrow> (nat \<Rightarrow> nat) \<Rightarrow> nat \<Rightarrow> u8 list \<Rightarrow> u8 list \<Rightarrow> u8 list" where
  "grep_loop pattern rd i kept inp =
     (let n = min (rd i) (min (BUFSZ - length kept - 1) (length inp))
      in if n > 0
         then case grep_lines pattern (kept @ take n inp) of (out, rest) \<Rightarrow>
                out @ grep_loop pattern rd (i + 1) rest (drop n inp)
         else [])"
  by pat_completeness auto
termination
  by (relation "measure (\<lambda>(pattern, rd, i, kept, inp). length inp)") auto

definition grep :: "u8 list \<Rightarrow> (nat \<Rightarrow> nat) \<Rightarrow> u8 list \<Rightarrow> u8 list" where
  "grep pattern rd inp = grep_loop pattern rd 0 [] inp"

declare grep_lines.simps [simp del] grep_loop.simps [simp del]

text \<open>The complete lines of a file, and what follows the last newline.\<close>

fun split_nl :: "u8 list \<Rightarrow> u8 list list \<times> u8 list" where
  "split_nl [] = ([], [])"
| "split_nl (c # p) =
     (case split_nl p of (ls, r) \<Rightarrow>
        if c = NEWLINE then ([] # ls, r)
        else (case ls of [] \<Rightarrow> ([], c # r) | l # ls' \<Rightarrow> ((c # l) # ls', r)))"

definition printed :: "u8 list \<Rightarrow> u8 list list \<Rightarrow> u8 list" where
  "printed pattern ls = concat (map (\<lambda>l. l @ [NEWLINE]) (filter (match pattern) ls))"

lemma split_nl_find:
  assumes "0 \<notin> set p"
  shows "split_nl p = (case find_nl p of None \<Rightarrow> ([], p)
     | Some i \<Rightarrow> (take i p # fst (split_nl (drop (i + 1) p)), snd (split_nl (drop (i + 1) p))))"
  using assms by (induction p) (auto split: option.splits prod.splits)

lemma find_nl_nth: "find_nl p = Some i \<Longrightarrow> p ! i = NEWLINE"
  by (induction p arbitrary: i) (auto split: if_split_asm)

lemma grep_lines_split:
  assumes "0 \<notin> set p"
  shows "grep_lines pattern p = (printed pattern (fst (split_nl p)), snd (split_nl p))"
  using assms
proof (induction pattern p rule: grep_lines.induct)
  case (1 pattern p)
  show ?case
  proof (cases "find_nl p")
    case None
    then show ?thesis using split_nl_find [OF 1(2)] by (subst grep_lines.simps) (simp add: printed_def)
  next
    case (Some i)
    have "0 \<notin> set (drop (i + 1) p)" using 1(2) by (meson in_set_dropD)
    note IH = 1(1) [OF Some this]
    have "take (i + 1) p = take i p @ [NEWLINE]"
      using find_nl_less [OF Some] find_nl_nth [OF Some] by (simp add: take_Suc_conv_app_nth)
    then show ?thesis
      using split_nl_find [OF 1(2)] Some IH by (subst grep_lines.simps) (simp add: printed_def)
  qed
qed

lemma split_nl_append:
  "split_nl (p @ q) = (fst (split_nl p) @ fst (split_nl (snd (split_nl p) @ q)), snd (split_nl (snd (split_nl p) @ q)))"
proof (induction p)
  case (Cons c p)
  obtain ls r where p: "split_nl p = (ls, r)" by (cases "split_nl p")
  obtain ls' r' where q: "split_nl (r @ q) = (ls', r')" by (cases "split_nl (r @ q)")
  have pq: "split_nl (p @ q) = (ls @ ls', r')" using Cons p q by simp
  show ?case
    using p q pq by (cases ls) (auto split: list.split)
qed simp

text \<open>No line, not even an unterminated last one, is longer than the buffer allows.\<close>

definition lines_fit :: "u8 list \<Rightarrow> bool" where
  "lines_fit p \<longleftrightarrow> (\<forall>l \<in> set (fst (split_nl p)). length l < BUFSZ - 1) \<and> length (snd (split_nl p)) < BUFSZ - 1"

lemma snd_split_nl: "NEWLINE \<notin> set (snd (split_nl p))"
  by (induction p) (auto split: prod.splits list.splits)

lemma split_nl_none: "NEWLINE \<notin> set p \<Longrightarrow> split_nl p = ([], p)"
  by (induction p) auto

lemma lines_fit_prefix:
  assumes "NEWLINE \<notin> set r" "lines_fit (r @ q)"
  shows "length r < BUFSZ - 1"
  using assms
proof -
  obtain ls t where q: "split_nl q = (ls, t)" by (cases "split_nl q")
  have "split_nl (r @ q) = (case ls of [] \<Rightarrow> ([], r @ t) | l # ls' \<Rightarrow> ((r @ l) # ls', t))"
    using assms(1) q by (induction r) (auto split: list.splits)
  then show ?thesis using assms(2) by (cases ls) (auto simp: lines_fit_def)
qed

lemma lines_fit_rest:
  assumes "lines_fit (p @ q)"
  shows "lines_fit (snd (split_nl p) @ q)"
  using assms by (simp add: lines_fit_def split_nl_append [of p q])

lemma grep_loop_lines:
  assumes "NEWLINE \<notin> set kept" "0 \<notin> set kept" "0 \<notin> set inp" "lines_fit (kept @ inp)" "\<And>i. 0 < rd i"
  shows "grep_loop pattern rd i kept inp = printed pattern (fst (split_nl (kept @ inp)))"
  using assms
proof (induction "length inp" arbitrary: i kept inp rule: less_induct)
  case less
  have k: "length kept < BUFSZ - 1" by (rule lines_fit_prefix [OF less.prems(1,4)])
  show ?case
  proof (cases "inp = []")
    case True
    then show ?thesis using split_nl_none [OF less.prems(1)] by (subst grep_loop.simps) (simp add: Let_def printed_def)
  next
    case False
    define n where "n = min (rd i) (min (BUFSZ - length kept - 1) (length inp))"
    have n: "0 < n" using False k less.prems(5) [of i] by (simp add: n_def)
    define p where "p = kept @ take n inp"
    have p0: "0 \<notin> set p" using less.prems(2,3) by (auto simp: p_def dest: in_set_takeD)
    let ?r = "snd (split_nl p)"
    have e: "kept @ inp = p @ drop n inp" by (simp add: p_def)
    have "0 \<notin> set ?r"
      using p0 by (induction p) (auto split: prod.splits list.splits if_splits)
    moreover have "0 \<notin> set (drop n inp)" using less.prems(3) by (meson in_set_dropD)
    moreover have "lines_fit (?r @ drop n inp)" using less.prems(4) unfolding e by (rule lines_fit_rest)
    ultimately have "grep_loop pattern rd (i + 1) ?r (drop n inp) = printed pattern (fst (split_nl (?r @ drop n inp)))"
      using less.hyps [of "drop n inp" ?r "i + 1"] n False snd_split_nl [of p] less.prems(5) by simp
    moreover have "grep_loop pattern rd i kept inp =
       (case grep_lines pattern p of (out, rest) \<Rightarrow> out @ grep_loop pattern rd (i + 1) rest (drop n inp))"
      by (subst grep_loop.simps) (simp only: Let_def n_def [symmetric] p_def [symmetric] n if_True)
    ultimately show ?thesis
      using grep_lines_split [OF p0, of pattern] unfolding e split_nl_append [of p] by (simp add: printed_def)
  qed
qed

text \<open>
  C34: \<open>grep\<close> prints exactly the lines that match, in order and each with its newline, however the
  file is cut into pieces by \<open>read\<close>, as long as the file has no zero byte and no line that fills the
  buffer. A last line without a newline is not looked at.
\<close>

theorem grep_prints_matches:
  assumes "0 \<notin> set inp" and "lines_fit inp" and "\<And>i. 0 < rd i"
  shows "grep pattern rd inp = concat (map (\<lambda>l. l @ [NEWLINE]) (filter (match pattern) (fst (split_nl inp))))"
  using grep_loop_lines [of "[]" inp rd pattern 0] assms by (simp add: grep_def printed_def)

text \<open>The pattern \<open>b*c$\<close> on the lines \<open>abbc\<close>, \<open>bb\<close> and \<open>cc\<close>, read three bytes at a time.\<close>

lemma grep_example_fits:
  "lines_fit [97, 98, 98, 99, 10, 98, 98, 10, 99, 99, 10]"
  by (simp add: lines_fit_def)

theorem grep_prints_matches_witness:
  "grep [98, 42, 99, 36] (\<lambda>_. 3) [97, 98, 98, 99, 10, 98, 98, 10, 99, 99, 10] = [97, 98, 98, 99, 10, 99, 99, 10]"
proof -
  have "match [98, 42, 99, 36] [97, 98, 98, 99]" "\<not> match [98, 42, 99, 36] [98, 98]" "match [98, 42, 99, 36] [99, 99]"
    by (simp_all add: match_def matchhere.simps matchstar.simps)
  then show ?thesis
    using grep_prints_matches [of "[97, 98, 98, 99, 10, 98, 98, 10, 99, 99, 10]" "\<lambda>_. 3" "[98, 42, 99, 36]"] grep_example_fits by simp
qed

end
