(* ===== verification/Locks.thy ===== *)
theory Locks
  imports Prelude
begin

text \<open>
  Spin locks of \<open>spinlock.c\<close> on several CPUs, and the sleep lock of \<open>sleeplock.c\<close>.

  A spin lock operation is several atomic steps of one CPU, so that the CPUs interleave inside it:
  \<open>acquire\<close> is \<open>acquire_enter\<close> (\<open>push_off\<close> and the self-deadlock check), any number of
  \<open>acquire_swap\<close> (one atomic swap of the \<open>locked\<close> word) and \<open>acquire_own\<close> (the store of
  \<open>lk->cpu\<close>); \<open>release\<close> is \<open>release_disown\<close> (the check and the clearing of \<open>lk->cpu\<close>) and
  \<open>release_unlock\<close> (the atomic store of 0 and \<open>pop_off\<close>). Where a CPU stands between these
  steps is \<open>pc\<close>. \<open>lock_step\<close> is the interleaving of all CPUs.
\<close>

section \<open>State\<close>

record cpu =
  noff :: int
  intena :: bool
  intr :: bool

record spinlock =
  locked :: bool
  lk_cpu :: "nat option"

datatype pc = Free | Spin nat | Owning nat | Leaving nat

record machine =
  cpus :: "nat \<Rightarrow> cpu"
  locks :: "nat \<Rightarrow> spinlock"
  pcs :: "nat \<Rightarrow> pc"

definition upd_cpu :: "nat \<Rightarrow> (cpu \<Rightarrow> cpu) \<Rightarrow> machine \<Rightarrow> machine" where
  "upd_cpu c f m = m\<lparr>cpus := (cpus m)(c := f (cpus m c))\<rparr>"

definition upd_lock :: "nat \<Rightarrow> (spinlock \<Rightarrow> spinlock) \<Rightarrow> machine \<Rightarrow> machine" where
  "upd_lock l f m = m\<lparr>locks := (locks m)(l := f (locks m l))\<rparr>"

definition set_pc :: "nat \<Rightarrow> pc \<Rightarrow> machine \<Rightarrow> machine" where
  "set_pc c p m = m\<lparr>pcs := (pcs m)(c := p)\<rparr>"

section \<open>Operations\<close>

definition initlock :: "spinlock" where
  "initlock = \<lparr>locked = False, lk_cpu = None\<rparr>"

definition holding :: "nat \<Rightarrow> spinlock \<Rightarrow> bool" where
  "holding c lk \<longleftrightarrow> locked lk \<and> lk_cpu lk = Some c"

definition push_off :: "cpu \<Rightarrow> cpu" where
  "push_off c =
     c\<lparr>noff := noff c + 1, intena := (if noff c = 0 then intr c else intena c), intr := False\<rparr>"

definition pop_off :: "cpu \<Rightarrow> cpu option" where
  "pop_off c =
     (if intr c then None
      else if noff c < 1 then None
      else Some (c\<lparr>noff := noff c - 1, intr := (noff c = 1 \<and> intena c)\<rparr>))"

definition acquire_enter :: "nat \<Rightarrow> nat \<Rightarrow> machine \<Rightarrow> machine option" where
  "acquire_enter c l m =
     (let m1 = upd_cpu c push_off m
      in if holding c (locks m1 l) then None else Some (set_pc c (Spin l) m1))"

definition acquire_swap :: "nat \<Rightarrow> nat \<Rightarrow> machine \<Rightarrow> machine" where
  "acquire_swap c l m =
     (let old = locked (locks m l); m1 = upd_lock l (locked_update (\<lambda>_. True)) m
      in if old then m1 else set_pc c (Owning l) m1)"

definition acquire_own :: "nat \<Rightarrow> nat \<Rightarrow> machine \<Rightarrow> machine" where
  "acquire_own c l m = set_pc c Free (upd_lock l (lk_cpu_update (\<lambda>_. Some c)) m)"

definition release_disown :: "nat \<Rightarrow> nat \<Rightarrow> machine \<Rightarrow> machine option" where
  "release_disown c l m =
     (if \<not> holding c (locks m l) then None
      else Some (set_pc c (Leaving l) (upd_lock l (lk_cpu_update (\<lambda>_. None)) m)))"

definition release_unlock :: "nat \<Rightarrow> nat \<Rightarrow> machine \<Rightarrow> machine option" where
  "release_unlock c l m =
     (case pop_off (cpus m c) of
        None \<Rightarrow> None
      | Some p \<Rightarrow> Some (set_pc c Free (upd_cpu c (\<lambda>_. p) (upd_lock l (locked_update (\<lambda>_. False)) m))))"



text \<open>A CPU that executes no lock operation may switch its interrupts while \<open>noff\<close> is 0.\<close>

inductive lock_step :: "machine \<Rightarrow> machine \<Rightarrow> bool" where
  enter: "pcs m c = Free \<Longrightarrow> acquire_enter c l m = Some m' \<Longrightarrow> lock_step m m'"
| swap: "pcs m c = Spin l \<Longrightarrow> lock_step m (acquire_swap c l m)"
| own: "pcs m c = Owning l \<Longrightarrow> lock_step m (acquire_own c l m)"
| disown: "pcs m c = Free \<Longrightarrow> release_disown c l m = Some m' \<Longrightarrow> lock_step m m'"
| unlock: "pcs m c = Leaving l \<Longrightarrow> release_unlock c l m = Some m' \<Longrightarrow> lock_step m m'"
| toggle: "pcs m c = Free \<Longrightarrow> noff (cpus m c) = 0 \<Longrightarrow> lock_step m (upd_cpu c (intr_update (\<lambda>_. b)) m)"

definition boot :: machine where
  "boot = \<lparr>cpus = \<lambda>_. \<lparr>noff = 0, intena = False, intr = False\<rparr>, locks = \<lambda>_. initlock, pcs = \<lambda>_. Free\<rparr>"

section \<open>Sleep locks\<close>

text \<open>
  The sleep lock seen by one thread: its spin lock is held only inside the operations, and a wait
  for a lock another thread holds is \<open>None\<close>.
\<close>

record sleeplock =
  sl_locked :: bool
  sl_pid :: int

definition initsleeplock :: sleeplock where
  "initsleeplock = \<lparr>sl_locked = False, sl_pid = 0\<rparr>"

definition acquiresleep :: "int \<Rightarrow> sleeplock \<Rightarrow> sleeplock option" where
  "acquiresleep me lk = (if sl_locked lk then None else Some (lk\<lparr>sl_locked := True, sl_pid := me\<rparr>))"

definition releasesleep :: "sleeplock \<Rightarrow> sleeplock" where
  "releasesleep lk = lk\<lparr>sl_locked := False, sl_pid := 0\<rparr>"

definition holdingsleep :: "int \<Rightarrow> sleeplock \<Rightarrow> bool" where
  "holdingsleep me lk \<longleftrightarrow> sl_locked lk \<and> sl_pid lk = me"

section \<open>Mutual exclusion\<close>

text \<open>\<open>owns m c l\<close>: CPU \<open>c\<close> won the swap on lock \<open>l\<close> and has not stored 0 in it since.\<close>

definition owns :: "machine \<Rightarrow> nat \<Rightarrow> nat \<Rightarrow> bool" where
  "owns m c l \<longleftrightarrow> lk_cpu (locks m l) = Some c \<or> pcs m c = Owning l \<or> pcs m c = Leaving l"

definition claims :: "machine \<Rightarrow> nat \<Rightarrow> nat set" where
  "claims m c = {l. owns m c l \<or> pcs m c = Spin l}"

definition lock_inv :: "machine \<Rightarrow> bool" where
  "lock_inv m \<longleftrightarrow>
     (\<forall>l c d. owns m c l \<longrightarrow> owns m d l \<longrightarrow> c = d)
   \<and> (\<forall>l. locked (locks m l) \<longleftrightarrow> (\<exists>c. owns m c l))
   \<and> (\<forall>c l. pcs m c \<in> {Spin l, Owning l, Leaving l} \<longrightarrow> lk_cpu (locks m l) \<noteq> Some c)
   \<and> (\<forall>c. finite (claims m c) \<and> noff (cpus m c) = int (card (claims m c)))
   \<and> (\<forall>c. 0 < noff (cpus m c) \<longrightarrow> \<not> intr (cpus m c))"

lemmas lock_defs = upd_cpu_def upd_lock_def set_pc_def owns_def

lemma boot_inv: "lock_inv boot"
  by (simp add: lock_inv_def boot_def initlock_def owns_def claims_def)

lemma claims_other:
  assumes "d \<noteq> c" and "\<And>l. lk_cpu (locks m' l) = Some d \<longleftrightarrow> lk_cpu (locks m l) = Some d" and "pcs m' d = pcs m d"
  shows "claims m' d = claims m d"
  using assms by (simp add: claims_def owns_def)

text \<open>The shared argument of all steps: CPU \<open>c\<close> acts on lock \<open>l\<close>.\<close>

lemma inv_step:
  assumes "lock_inv m"
    and other: "\<And>d. d \<noteq> c \<Longrightarrow> cpus m' d = cpus m d \<and> pcs m' d = pcs m d"
    and lk: "\<And>d k. d \<noteq> c \<Longrightarrow> lk_cpu (locks m' k) = Some d \<longleftrightarrow> lk_cpu (locks m k) = Some d"
    and ow: "\<And>k. owns m' c k \<Longrightarrow> owns m c k \<or> (\<forall>d. \<not> owns m d k)"
    and lo: "\<And>k. locked (locks m' k) \<longleftrightarrow> owns m' c k \<or> (locked (locks m k) \<and> \<not> owns m c k)"
    and pc: "\<And>k. pcs m' c \<in> {Spin k, Owning k, Leaving k} \<Longrightarrow> lk_cpu (locks m' k) \<noteq> Some c"
    and cl: "finite (claims m' c) \<and> noff (cpus m' c) = int (card (claims m' c))"
    and it: "0 < noff (cpus m' c) \<Longrightarrow> \<not> intr (cpus m' c)"
  shows "lock_inv m'"
proof -
  have own: "owns m' d k = owns m d k" if "d \<noteq> c" for d k
    using that other lk by (simp add: owns_def)
  have 1: "\<forall>l a d. owns m' a l \<longrightarrow> owns m' d l \<longrightarrow> a = d"
    using own ow assms(1) unfolding lock_inv_def by metis
  have 2: "\<forall>l. locked (locks m' l) \<longleftrightarrow> (\<exists>d. owns m' d l)"
    using lo own assms(1) unfolding lock_inv_def by metis
  have 3: "\<forall>d l. pcs m' d \<in> {Spin l, Owning l, Leaving l} \<longrightarrow> lk_cpu (locks m' l) \<noteq> Some d"
    using pc other lk assms(1) unfolding lock_inv_def by metis
  have "claims m' d = claims m d" if "d \<noteq> c" for d
    by (rule claims_other [OF that]) (use that lk other in auto)
  then have 4: "finite (claims m' d) \<and> noff (cpus m' d) = int (card (claims m' d))" for d
    using cl other assms(1) unfolding lock_inv_def by (cases "d = c") auto
  have 5: "\<forall>d. 0 < noff (cpus m' d) \<longrightarrow> \<not> intr (cpus m' d)"
    using it other assms(1) unfolding lock_inv_def by metis
  show ?thesis
    unfolding lock_inv_def using 1 2 3 4 5 by blast
qed

lemma lock_invD:
  assumes "lock_inv m"
  shows "owns m c l \<Longrightarrow> owns m d l \<Longrightarrow> c = d" and "locked (locks m l) \<longleftrightarrow> (\<exists>c. owns m c l)"
    and "pcs m c \<in> {Spin l, Owning l, Leaving l} \<Longrightarrow> lk_cpu (locks m l) \<noteq> Some c"
    and "finite (claims m c)" and "noff (cpus m c) = int (card (claims m c))"
    and "0 < noff (cpus m c) \<Longrightarrow> \<not> intr (cpus m c)"
  using assms unfolding lock_inv_def by metis+

lemma claims_free: "pcs m c = Free \<Longrightarrow> claims m c = {l. lk_cpu (locks m l) = Some c}"
  by (simp add: claims_def owns_def)

lemma claims_busy: "pcs m c \<in> {Spin l, Owning l, Leaving l} \<Longrightarrow> claims m c = insert l {l. lk_cpu (locks m l) = Some c}"
  by (auto simp: claims_def owns_def)

lemma inv_enter:
  assumes "lock_inv m" "pcs m c = Free" "acquire_enter c l m = Some m'"
  shows "lock_inv m'"
proof (rule inv_step [OF assms(1), of c])
  have nh: "lk_cpu (locks m l) \<noteq> Some c"
    using assms(3) lock_invD(2) [OF assms(1), of l]
    by (auto simp: acquire_enter_def Let_def holding_def upd_cpu_def owns_def split: if_splits)
  have m': "m' = set_pc c (Spin l) (upd_cpu c push_off m)"
    using assms(3) by (auto simp: acquire_enter_def Let_def split: if_splits)
  show "lk_cpu (locks m' k) \<noteq> Some c" if "pcs m' c \<in> {Spin k, Owning k, Leaving k}" for k
    using that nh by (auto simp: m' lock_defs)
  have "claims m' c = insert l (claims m c)"
    using assms(2) by (auto simp: claims_def m' lock_defs)
  then show "finite (claims m' c) \<and> noff (cpus m' c) = int (card (claims m' c))"
    using lock_invD(4,5) [OF assms(1), of c] nh assms(2)
    by (simp add: claims_free) (simp add: m' lock_defs push_off_def)
  show "0 < noff (cpus m' c) \<Longrightarrow> \<not> intr (cpus m' c)"
    by (simp add: m' lock_defs push_off_def)
  show "locked (locks m' k) \<longleftrightarrow> owns m' c k \<or> (locked (locks m k) \<and> \<not> owns m c k)" for k
    using lock_invD(2) [OF assms(1), of k] assms(2) by (auto simp: m' lock_defs)
qed (use assms in \<open>auto simp: acquire_enter_def Let_def lock_defs split: if_splits\<close>)

lemma inv_swap:
  assumes "lock_inv m" "pcs m c = Spin l"
  shows "lock_inv (acquire_swap c l m)" (is "lock_inv ?m'")
proof (rule inv_step [OF assms(1), of c])
  have nh: "lk_cpu (locks m l) \<noteq> Some c"
    using lock_invD(3) [OF assms(1), of c l] assms(2) by simp
  show "lk_cpu (locks ?m' k) \<noteq> Some c" if "pcs ?m' c \<in> {Spin k, Owning k, Leaving k}" for k
    using that nh assms(2) by (auto simp: acquire_swap_def Let_def lock_defs split: if_splits)
  have cl: "claims ?m' c = claims m c"
    using assms(2) by (auto simp: claims_def acquire_swap_def Let_def lock_defs split: if_splits)
  show "finite (claims ?m' c) \<and> noff (cpus ?m' c) = int (card (claims ?m' c))"
    unfolding cl using lock_invD(4,5) [OF assms(1), of c] by (simp add: acquire_swap_def Let_def lock_defs)
  show "0 < noff (cpus ?m' c) \<Longrightarrow> \<not> intr (cpus ?m' c)"
    using lock_invD(6) [OF assms(1), of c] by (simp add: acquire_swap_def Let_def lock_defs split: if_splits)
  show "owns ?m' c k \<Longrightarrow> owns m c k \<or> (\<forall>d. \<not> owns m d k)" for k
    using lock_invD(2) [OF assms(1), of l] assms(2)
    by (auto simp: acquire_swap_def Let_def lock_defs split: if_splits)
  show "locked (locks ?m' k) \<longleftrightarrow> owns ?m' c k \<or> (locked (locks m k) \<and> \<not> owns m c k)" for k
    using lock_invD(2) [OF assms(1), of k] assms(2) nh
    by (auto simp: acquire_swap_def Let_def lock_defs split: if_splits)
qed (auto simp: acquire_swap_def Let_def lock_defs)

lemma inv_own:
  assumes "lock_inv m" "pcs m c = Owning l"
  shows "lock_inv (acquire_own c l m)" (is "lock_inv ?m'")
proof (rule inv_step [OF assms(1), of c])
  have o: "owns m c l"
    using assms(2) by (simp add: owns_def)
  have no: "lk_cpu (locks m l) \<noteq> Some d" if "d \<noteq> c" for d
    using lock_invD(1) [OF assms(1) o, of d] that by (auto simp: owns_def)
  show "lk_cpu (locks ?m' k) = Some d \<longleftrightarrow> lk_cpu (locks m k) = Some d" if "d \<noteq> c" for d k
    using no [OF that] that by (auto simp: acquire_own_def lock_defs)
  have cl: "claims ?m' c = claims m c"
    using assms(2) by (auto simp: claims_def acquire_own_def lock_defs)
  show "finite (claims ?m' c) \<and> noff (cpus ?m' c) = int (card (claims ?m' c))"
    unfolding cl using lock_invD(4,5) [OF assms(1), of c] by (simp add: acquire_own_def lock_defs)
  show "0 < noff (cpus ?m' c) \<Longrightarrow> \<not> intr (cpus ?m' c)"
    using lock_invD(6) [OF assms(1), of c] by (simp add: acquire_own_def lock_defs)
  show "locked (locks ?m' k) \<longleftrightarrow> owns ?m' c k \<or> (locked (locks m k) \<and> \<not> owns m c k)" for k
    using lock_invD(2) [OF assms(1), of k] assms(2) by (auto simp: acquire_own_def lock_defs)
qed (use assms(2) in \<open>auto simp: acquire_own_def lock_defs\<close>)

lemma inv_disown:
  assumes "lock_inv m" "pcs m c = Free" "release_disown c l m = Some m'"
  shows "lock_inv m'"
proof (rule inv_step [OF assms(1), of c])
  have h: "lk_cpu (locks m l) = Some c"
    and m': "m' = set_pc c (Leaving l) (upd_lock l (lk_cpu_update (\<lambda>_. None)) m)"
    using assms(3) by (auto simp: release_disown_def holding_def split: if_splits)
  show "lk_cpu (locks m' k) = Some d \<longleftrightarrow> lk_cpu (locks m k) = Some d" if "d \<noteq> c" for d k
    using h that by (auto simp: m' lock_defs)
  show "lk_cpu (locks m' k) \<noteq> Some c" if "pcs m' c \<in> {Spin k, Owning k, Leaving k}" for k
    using that by (auto simp: m' lock_defs)
  have cl: "claims m' c = claims m c"
    using assms(2) h by (auto simp: claims_def m' lock_defs)
  show "finite (claims m' c) \<and> noff (cpus m' c) = int (card (claims m' c))"
    unfolding cl using lock_invD(4,5) [OF assms(1), of c] by (simp add: m' lock_defs)
  show "0 < noff (cpus m' c) \<Longrightarrow> \<not> intr (cpus m' c)"
    using lock_invD(6) [OF assms(1), of c] by (simp add: m' lock_defs)
  show "owns m' c k \<Longrightarrow> owns m c k \<or> (\<forall>d. \<not> owns m d k)" for k
    using h by (auto simp: m' lock_defs split: if_splits)
  show "locked (locks m' k) \<longleftrightarrow> owns m' c k \<or> (locked (locks m k) \<and> \<not> owns m c k)" for k
    using lock_invD(2) [OF assms(1), of k] assms(2) h by (auto simp: m' lock_defs)
qed (use assms in \<open>auto simp: release_disown_def lock_defs split: if_splits\<close>)

lemma inv_unlock:
  assumes "lock_inv m" "pcs m c = Leaving l" "release_unlock c l m = Some m'"
  shows "lock_inv m'"
proof (rule inv_step [OF assms(1), of c])
  obtain p where p: "pop_off (cpus m c) = Some p"
    and m': "m' = set_pc c Free (upd_cpu c (\<lambda>_. p) (upd_lock l (locked_update (\<lambda>_. False)) m))"
    using assms(3) by (auto simp: release_unlock_def split: option.splits)
  have o: "owns m c l"
    using assms(2) by (simp add: owns_def)
  have nh: "lk_cpu (locks m l) \<noteq> Some c"
    using lock_invD(3) [OF assms(1), of c l] assms(2) by simp
  have "claims m c = insert l (claims m' c)" "l \<notin> claims m' c"
    using assms(2) nh by (auto simp: claims_def m' lock_defs)
  moreover have "noff (cpus m' c) = noff (cpus m c) - 1"
    using p by (auto simp: m' lock_defs pop_off_def split: if_splits)
  ultimately show "finite (claims m' c) \<and> noff (cpus m' c) = int (card (claims m' c))"
    using lock_invD(4,5) [OF assms(1), of c] by simp
  show "0 < noff (cpus m' c) \<Longrightarrow> \<not> intr (cpus m' c)"
    using p by (auto simp: m' lock_defs pop_off_def split: if_splits)
  show "owns m' c k \<Longrightarrow> owns m c k \<or> (\<forall>d. \<not> owns m d k)" for k
    by (auto simp: m' lock_defs split: if_splits)
  show "locked (locks m' k) \<longleftrightarrow> owns m' c k \<or> (locked (locks m k) \<and> \<not> owns m c k)" for k
    using lock_invD(2) [OF assms(1), of k] assms(2) nh lock_invD(1) [OF assms(1) o]
    by (auto simp: m' lock_defs)
qed (use assms in \<open>auto simp: release_unlock_def lock_defs split: option.splits if_splits\<close>)

lemma inv_toggle:
  assumes "lock_inv m" "noff (cpus m c) = 0"
  shows "lock_inv (upd_cpu c (intr_update (\<lambda>_. b)) m)" (is "lock_inv ?m'")
proof (rule inv_step [OF assms(1), of c])
  show "locked (locks ?m' k) \<longleftrightarrow> owns ?m' c k \<or> (locked (locks m k) \<and> \<not> owns m c k)" for k
    using lock_invD(2) [OF assms(1), of k] by (auto simp: lock_defs)
  show "lk_cpu (locks ?m' k) \<noteq> Some c" if "pcs ?m' c \<in> {Spin k, Owning k, Leaving k}" for k
    using that lock_invD(3) [OF assms(1), of c k] by (simp add: lock_defs)
  show "finite (claims ?m' c) \<and> noff (cpus ?m' c) = int (card (claims ?m' c))"
    using lock_invD(4,5) [OF assms(1), of c] by (simp add: claims_def lock_defs)
qed (use assms in \<open>auto simp: lock_defs\<close>)

lemma lock_step_inv:
  assumes "lock_step m m'" "lock_inv m"
  shows "lock_inv m'"
  using assms
  by (induction rule: lock_step.induct) (auto intro: inv_enter inv_swap inv_own inv_disown inv_unlock inv_toggle)

lemma reachable_inv: "lock_step\<^sup>*\<^sup>* boot m \<Longrightarrow> lock_inv m"
  by (induction rule: rtranclp_induct) (auto intro: boot_inv lock_step_inv)

text \<open>
  C6: in every interleaving of \<open>acquire\<close> and \<open>release\<close> steps of all CPUs, a lock has at most one
  owner and its word is set exactly when it has one; a CPU that owns a lock or spins for one has its
  interrupts off; and a CPU that is leaving a lock never panics in \<open>pop_off\<close>.
\<close>

theorem mutual_exclusion:
  assumes "lock_step\<^sup>*\<^sup>* boot m"
  shows "(owns m c l \<and> owns m d l \<longrightarrow> c = d)
       \<and> (locked (locks m l) \<longleftrightarrow> (\<exists>e. owns m e l))
       \<and> (owns m c l \<or> pcs m c = Spin l \<longrightarrow> \<not> intr (cpus m c))
       \<and> (pcs m c = Leaving l \<longrightarrow> release_unlock c l m \<noteq> None)"
proof -
  note inv = reachable_inv [OF assms]
  have pos: "0 < noff (cpus m c)" if "owns m c l \<or> pcs m c = Spin l"
  proof -
    have "l \<in> claims m c"
      using that by (simp add: claims_def)
    then have "0 < card (claims m c)"
      using lock_invD(4) [OF inv, of c] card_gt_0_iff by blast
    then show ?thesis
      using lock_invD(5) [OF inv, of c] by simp
  qed
  then have "pop_off (cpus m c) \<noteq> None" if "pcs m c = Leaving l"
    using that lock_invD(6) [OF inv, of c] by (auto simp: pop_off_def owns_def)
  then show ?thesis
    using pos lock_invD(1) [OF inv, of c l d] lock_invD(2) [OF inv, of l] lock_invD(6) [OF inv, of c]
    by (auto simp: release_unlock_def split: option.splits)
qed

lemma boot_two:
  "lock_step\<^sup>*\<^sup>* boot (acquire_swap 0 5 (set_pc 1 (Spin 5) (upd_cpu 1 push_off (set_pc 0 (Spin 5) (upd_cpu 0 push_off boot)))))"
proof -
  let ?m1 = "set_pc 0 (Spin 5) (upd_cpu 0 push_off boot)"
  let ?m2 = "set_pc 1 (Spin 5) (upd_cpu 1 push_off ?m1)"
  have "lock_step boot ?m1"
    by (rule lock_step.enter [of _ 0 5]) (simp_all add: boot_def acquire_enter_def holding_def initlock_def upd_cpu_def)
  moreover have "lock_step ?m1 ?m2"
    by (rule lock_step.enter [of _ 1 5])
      (simp_all add: boot_def acquire_enter_def holding_def initlock_def upd_cpu_def set_pc_def)
  moreover have "lock_step ?m2 (acquire_swap 0 5 ?m2)"
    by (rule lock_step.swap) (simp add: set_pc_def upd_cpu_def)
  ultimately show ?thesis
    by (meson rtranclp.rtrancl_into_rtrancl rtranclp.rtrancl_refl)
qed

theorem mutual_exclusion_witness:
  "\<exists>m. lock_step\<^sup>*\<^sup>* boot m \<and> owns m 0 5 \<and> pcs m 1 = Spin 5 \<and> \<not> owns m 1 5 \<and> \<not> intr (cpus m 1)"
  using boot_two mutual_exclusion [OF boot_two, of 0 5 1] mutual_exclusion [OF boot_two, of 1 5 1]
  by (intro exI [of _ "acquire_swap 0 5 (set_pc 1 (Spin 5) (upd_cpu 1 push_off (set_pc 0 (Spin 5) (upd_cpu 0 push_off boot))))"])
    (auto simp: acquire_swap_def Let_def lock_defs boot_def initlock_def)

section \<open>Nesting of interrupt switches\<close>







end
