(* ===== verification/Bio.thy ===== *)
theory Bio
  imports Fs Locks
begin

text \<open>
  The buffer cache of \<open>bio.c\<close> over the disk. A buffer is an index into \<open>bufs\<close>; the list linked by
  \<open>prev\<close> and \<open>next\<close> is \<open>lru\<close>, from \<open>head.next\<close> (most recently used) to \<open>head.prev\<close>. The disk
  driver is its effect: \<open>virtio_disk_rw\<close> moves one block between a buffer and the disk; every write
  is also appended to \<open>dev_writes\<close>, the order in which writes reach the disk. \<open>me\<close> is the calling
  process's pid. \<open>None\<close> is a panic, or a wait for a buffer the caller itself has locked.
\<close>

section \<open>State and operations\<close>

abbreviation NBUF :: nat where "NBUF \<equiv> 30"

record buf =
  b_valid :: bool
  b_dev :: u32
  b_blockno :: u32
  b_lock :: sleeplock
  b_refcnt :: u32
  b_data :: block

record bcache =
  bufs :: "buf list"
  lru :: "nat list"
  dev_disk :: "u32 \<Rightarrow> block"
  dev_writes :: "(u32 \<times> block) list"

definition upd_buf :: "nat \<Rightarrow> (buf \<Rightarrow> buf) \<Rightarrow> bcache \<Rightarrow> bcache" where
  "upd_buf i f c = c\<lparr>bufs := (bufs c)[i := f (bufs c ! i)]\<rparr>"

definition set_data :: "nat \<Rightarrow> block \<Rightarrow> bcache \<Rightarrow> bcache" where
  "set_data i d = upd_buf i (b_data_update (\<lambda>_. d))"

definition virtio_read :: "nat \<Rightarrow> bcache \<Rightarrow> bcache" where
  "virtio_read i c = set_data i (dev_disk c (b_blockno (bufs c ! i))) c"

definition virtio_write :: "nat \<Rightarrow> bcache \<Rightarrow> bcache" where
  "virtio_write i c =
     (let b = bufs c ! i
      in c\<lparr>dev_disk := (dev_disk c)(b_blockno b := b_data b), dev_writes := dev_writes c @ [(b_blockno b, b_data b)]\<rparr>)"

definition binit :: "(u32 \<Rightarrow> block) \<Rightarrow> bcache" where
  "binit d =
     \<lparr>bufs = replicate NBUF \<lparr>b_valid = False, b_dev = 0, b_blockno = 0, b_lock = initsleeplock, b_refcnt = 0, b_data = \<lambda>_. 0\<rparr>,
      lru = fold (#) [0..<NBUF] [], dev_disk = d, dev_writes = []\<rparr>"

definition b_acquire :: "int \<Rightarrow> nat \<Rightarrow> bcache \<Rightarrow> (nat \<times> bcache) option" where
  "b_acquire me i c =
     (case acquiresleep me (b_lock (bufs c ! i)) of
        None \<Rightarrow> None
      | Some lk \<Rightarrow> Some (i, upd_buf i (b_lock_update (\<lambda>_. lk)) c))"

definition bget :: "int \<Rightarrow> bcache \<Rightarrow> u32 \<Rightarrow> u32 \<Rightarrow> (nat \<times> bcache) option" where
  "bget me c dev bno =
     (case find (\<lambda>i. b_dev (bufs c ! i) = dev \<and> b_blockno (bufs c ! i) = bno) (lru c) of
        Some i \<Rightarrow> b_acquire me i (upd_buf i (b_refcnt_update (\<lambda>r. r + 1)) c)
      | None \<Rightarrow>
          (case find (\<lambda>i. b_refcnt (bufs c ! i) = 0) (rev (lru c)) of
             Some i \<Rightarrow>
               b_acquire me i (upd_buf i (\<lambda>b. b\<lparr>b_dev := dev, b_blockno := bno, b_valid := False, b_refcnt := 1\<rparr>) c)
           | None \<Rightarrow> None))"

definition bread_buf :: "int \<Rightarrow> bcache \<Rightarrow> u32 \<Rightarrow> u32 \<Rightarrow> (nat \<times> bcache) option" where
  "bread_buf me c dev bno =
     (case bget me c dev bno of
        None \<Rightarrow> None
      | Some (i, c1) \<Rightarrow>
          if b_valid (bufs c1 ! i) then Some (i, c1)
          else Some (i, upd_buf i (b_valid_update (\<lambda>_. True)) (virtio_read i c1)))"

definition bwrite :: "int \<Rightarrow> nat \<Rightarrow> bcache \<Rightarrow> bcache option" where
  "bwrite me i c = (if \<not> holdingsleep me (b_lock (bufs c ! i)) then None else Some (virtio_write i c))"

definition brelse :: "int \<Rightarrow> nat \<Rightarrow> bcache \<Rightarrow> bcache option" where
  "brelse me i c =
     (if \<not> holdingsleep me (b_lock (bufs c ! i)) then None
      else let c1 = upd_buf i (\<lambda>b. b\<lparr>b_lock := releasesleep (b_lock b), b_refcnt := b_refcnt b - 1\<rparr>) c
           in Some (if b_refcnt (bufs c1 ! i) = 0 then c1\<lparr>lru := i # remove1 i (lru c1)\<rparr> else c1))"

definition bpin :: "nat \<Rightarrow> bcache \<Rightarrow> bcache" where
  "bpin i = upd_buf i (b_refcnt_update (\<lambda>r. r + 1))"

definition bunpin :: "nat \<Rightarrow> bcache \<Rightarrow> bcache" where
  "bunpin i = upd_buf i (b_refcnt_update (\<lambda>r. r - 1))"

section \<open>Invariant and contents\<close>

text \<open>
  \<open>caches c b i\<close>: buffer \<open>i\<close> holds block \<open>b\<close> of the file-system disk. \<open>cache_view c b\<close> is the
  contents of block \<open>b\<close> that a \<open>bread\<close> returns: the cached copy when there is a valid one.
\<close>

definition caches :: "bcache \<Rightarrow> u32 \<Rightarrow> nat \<Rightarrow> bool" where
  "caches c b i \<longleftrightarrow> i < NBUF \<and> b_dev (bufs c ! i) = ROOTDEV \<and> b_blockno (bufs c ! i) = b"

definition cache_view :: "bcache \<Rightarrow> u32 \<Rightarrow> block" where
  "cache_view c b =
     (case find (\<lambda>i. caches c b i \<and> b_valid (bufs c ! i)) [0..<NBUF] of
        Some i \<Rightarrow> b_data (bufs c ! i) | None \<Rightarrow> dev_disk c b)"

text \<open>
  \<open>cache_inv me P H c\<close>: the cache between two calls, where \<open>P\<close> are the blocks the log has pinned
  and \<open>H\<close> the buffers the caller has locked. A block has one buffer; the reference counts are
  exactly those of the pins and of the caller; a buffer that may be recycled agrees with the disk.
\<close>

definition buf_ok :: "int \<Rightarrow> u32 set \<Rightarrow> bool \<Rightarrow> (u32 \<Rightarrow> block) \<Rightarrow> buf \<Rightarrow> bool" where
  "buf_ok me P h d b \<longleftrightarrow>
     b_lock b = (if h then \<lparr>sl_locked = True, sl_pid = me\<rparr> else initsleeplock)
   \<and> b_refcnt b = (if b_dev b = ROOTDEV \<and> b_blockno b \<in> P then 1 else 0) + (if h then 1 else 0)
   \<and> (h \<longrightarrow> b_dev b = ROOTDEV \<and> b_valid b)
   \<and> (b_refcnt b = 0 \<and> b_valid b \<and> b_dev b = ROOTDEV \<longrightarrow> b_data b = d (b_blockno b))"

definition cache_inv :: "int \<Rightarrow> u32 set \<Rightarrow> nat set \<Rightarrow> bcache \<Rightarrow> bool" where
  "cache_inv me P H c \<longleftrightarrow>
     length (bufs c) = NBUF \<and> distinct (lru c) \<and> set (lru c) = {..<NBUF} \<and> H \<subseteq> {..<NBUF}
   \<and> (\<forall>b i j. caches c b i \<longrightarrow> caches c b j \<longrightarrow> i = j)
   \<and> (\<forall>i < NBUF. buf_ok me P (i \<in> H) (dev_disk c) (bufs c ! i))
   \<and> (\<forall>b \<in> P. \<exists>i. caches c b i \<and> b_valid (bufs c ! i))"

lemma cache_invD:
  assumes "cache_inv me P H c"
  shows "length (bufs c) = NBUF" "distinct (lru c)" "set (lru c) = {..<NBUF}" "H \<subseteq> {..<NBUF}"
    and "caches c b i \<Longrightarrow> caches c b j \<Longrightarrow> i = j"
    and "i < NBUF \<Longrightarrow> buf_ok me P (i \<in> H) (dev_disk c) (bufs c ! i)"
    and "b \<in> P \<Longrightarrow> \<exists>i. caches c b i \<and> b_valid (bufs c ! i)"
  using assms unfolding cache_inv_def by blast+

lemma find_Some_unique:
  "find P xs = Some i \<Longrightarrow> i \<in> set xs \<and> P i"
  by (auto simp: find_Some_iff)

lemma find_SomeI: "i \<in> set xs \<Longrightarrow> P i \<Longrightarrow> (\<And>j. j \<in> set xs \<Longrightarrow> P j \<Longrightarrow> j = i) \<Longrightarrow> find P xs = Some i"
  by (metis find_None_iff find_Some_unique option.exhaust)

lemma find_NoneI: "(\<And>j. j \<in> set xs \<Longrightarrow> \<not> P j) \<Longrightarrow> find P xs = None"
  by (simp add: find_None_iff)

lemma view_cached:
  assumes "cache_inv me P H c" "caches c b i"
  shows "cache_view c b = (if b_valid (bufs c ! i) then b_data (bufs c ! i) else dev_disk c b)"
proof (cases "b_valid (bufs c ! i)")
  case True
  have "find (\<lambda>i. caches c b i \<and> b_valid (bufs c ! i)) [0..<NBUF] = Some i"
  proof (rule find_SomeI)
    show "i \<in> set [0..<NBUF]"
      using assms(2) by (simp add: caches_def del: upt_rec_numeral)
    show "j = i" if "caches c b j \<and> b_valid (bufs c ! j)" for j
      using that cache_invD(5) [OF assms(1) _ assms(2), of j] by blast
  qed (use assms(2) True in blast)
  with True show ?thesis by (simp add: cache_view_def del: upt_rec_numeral)
next
  case False
  have "find (\<lambda>i. caches c b i \<and> b_valid (bufs c ! i)) [0..<NBUF] = None"
    by (rule find_NoneI) (use assms(2) False cache_invD(5) [OF assms(1) assms(2)] in blast)
  with False show ?thesis by (simp add: cache_view_def del: upt_rec_numeral)
qed

lemma view_uncached: "(\<And>i. \<not> caches c b i) \<Longrightarrow> cache_view c b = dev_disk c b"
  by (simp add: cache_view_def find_NoneI del: upt_rec_numeral)

lemma length_upd_buf [simp]: "length (bufs (upd_buf i f c)) = length (bufs c)"
  by (simp add: upd_buf_def)

lemma upd_buf_simps [simp]:
  "lru (upd_buf i f c) = lru c" "dev_disk (upd_buf i f c) = dev_disk c" "dev_writes (upd_buf i f c) = dev_writes c"
  by (simp_all add: upd_buf_def)

lemma nth_upd_buf: "i < length (bufs c) \<Longrightarrow> bufs (upd_buf i f c) ! j = (if j = i then f (bufs c ! i) else bufs c ! j)"
  by (auto simp: upd_buf_def)

text \<open>
  The shared step of the operations: one buffer changes, and keeps or takes a block no other buffer
  has. \<open>view_upd\<close> says what this does to the contents.
\<close>

lemma caches_upd:
  "length (bufs c) = NBUF \<Longrightarrow> i < NBUF \<Longrightarrow>
   caches (upd_buf i f c) b j = (if j = i then b_dev (f (bufs c ! i)) = ROOTDEV \<and> b_blockno (f (bufs c ! i)) = b else caches c b j)"
  by (auto simp: caches_def nth_upd_buf)

lemma inv_upd:
  assumes inv: "cache_inv me P H c" and i: "i < NBUF" and H': "H' \<subseteq> {..<NBUF}" "\<And>j. j \<noteq> i \<Longrightarrow> j \<in> H' \<longleftrightarrow> j \<in> H"
    and uniq: "\<And>j. caches c (b_blockno (f (bufs c ! i))) j \<Longrightarrow> b_dev (f (bufs c ! i)) = ROOTDEV \<Longrightarrow> j = i"
    and ok: "buf_ok me P' (i \<in> H') (dev_disk c) (f (bufs c ! i))"
    and P1: "\<And>b. b \<in> P' \<Longrightarrow> (b \<in> P \<and> \<not> caches c b i) \<or> (b_dev (f (bufs c ! i)) = ROOTDEV \<and> b_blockno (f (bufs c ! i)) = b \<and> b_valid (f (bufs c ! i)))"
    and P2: "\<And>j. j < NBUF \<Longrightarrow> j \<noteq> i \<Longrightarrow> b_dev (bufs c ! j) = ROOTDEV \<Longrightarrow> b_blockno (bufs c ! j) \<in> P' \<longleftrightarrow> b_blockno (bufs c ! j) \<in> P"
  shows "cache_inv me P' H' (upd_buf i f c)"
proof -
  let ?c = "upd_buf i f c"
  note len = cache_invD(1) [OF inv]
  have "\<forall>b j k. caches ?c b j \<longrightarrow> caches ?c b k \<longrightarrow> j = k"
    using uniq cache_invD(5) [OF inv] by (auto simp: caches_upd [OF len i] split: if_splits)
  moreover have "buf_ok me P' (j \<in> H') (dev_disk c) (bufs ?c ! j)" if "j < NBUF" for j
    using ok cache_invD(6) [OF inv that] P2 [OF that] H'(2) [of j] i
    by (cases "j = i") (auto simp: nth_upd_buf len buf_ok_def)
  moreover have "\<exists>j. caches ?c b j \<and> b_valid (bufs ?c ! j)" if "b \<in> P'" for b
    using P1 [OF that] cache_invD(7) [OF inv, of b] i
    by (auto simp: caches_upd [OF len i] nth_upd_buf len)
  ultimately show ?thesis
    unfolding cache_inv_def using len cache_invD(2,3) [OF inv] H'(1) by auto
qed

lemma view_upd_other:
  assumes "length (bufs c) = NBUF" "i < NBUF" "\<not> caches c b i" "\<not> caches (upd_buf i f c) b i"
  shows "cache_view (upd_buf i f c) b = cache_view c b"
proof -
  have "(\<lambda>j. caches (upd_buf i f c) b j \<and> b_valid (bufs (upd_buf i f c) ! j)) = (\<lambda>j. caches c b j \<and> b_valid (bufs c ! j))"
    using assms by (auto simp: caches_def nth_upd_buf)
  moreover have "j \<noteq> i" if "find (\<lambda>j. caches c b j \<and> b_valid (bufs c ! j)) xs = Some j" for j xs
    using find_Some_unique [OF that] assms(3) by auto
  ultimately show ?thesis
    using assms by (auto simp: cache_view_def nth_upd_buf simp del: upt_rec_numeral split: option.splits)
qed

lemma view_upd_same:
  assumes "cache_inv me P' H' (upd_buf i f c)" "i < NBUF" "length (bufs c) = NBUF"
    "b_dev (f (bufs c ! i)) = ROOTDEV" "b_valid (f (bufs c ! i))"
  shows "cache_view (upd_buf i f c) (b_blockno (f (bufs c ! i))) = b_data (f (bufs c ! i))"
  using view_cached [OF assms(1), of "b_blockno (f (bufs c ! i))" i] assms(2-5)
  by (simp add: caches_upd nth_upd_buf)

lemma upd_buf_upd_buf: "i < length (bufs c) \<Longrightarrow> upd_buf i f (upd_buf i g c) = upd_buf i (\<lambda>b. f (g b)) c"
  by (simp add: upd_buf_def)

lemma upd_buf_cong: "f (bufs c ! i) = g (bufs c ! i) \<Longrightarrow> upd_buf i f c = upd_buf i g c"
  by (simp add: upd_buf_def)

section \<open>Behaviour of the operations\<close>

lemma exists_unused:
  assumes inv: "cache_inv me P H c" and fin: "finite P" and room: "card P + card H < NBUF"
  shows "\<exists>i < NBUF. b_refcnt (bufs c ! i) = 0"
proof (rule ccontr)
  assume all: "\<not> (\<exists>i < NBUF. b_refcnt (bufs c ! i) = 0)"
  have "i \<in> H \<or> (\<exists>b \<in> P. caches c b i)" if "i < NBUF" for i
    using cache_invD(6) [OF inv that] all that by (auto simp: buf_ok_def caches_def split: if_splits)
  then have "{..<NBUF} \<subseteq> H \<union> (\<lambda>b. THE i. caches c b i) ` P"
    using cache_invD(5) [OF inv] by (auto simp: image_iff) (metis the_equality)
  moreover have "finite H"
    using cache_invD(4) [OF inv] finite_subset by blast
  ultimately have "card {..<NBUF} \<le> card H + card P"
    by (meson card_Un_le card_image_le card_mono fin finite_UnI finite_imageI le_trans add_le_mono order_refl)
  with room show False by simp
qed

lemma bread_cached:
  assumes inv: "cache_inv me P H c" and i: "caches c b i" "i \<notin> H"
  shows "\<exists>c'. bread_buf me c ROOTDEV b = Some (i, c') \<and> cache_inv me P (insert i H) c' \<and> caches c' b i
     \<and> b_data (bufs c' ! i) = cache_view c b \<and> cache_view c' = cache_view c
     \<and> dev_disk c' = dev_disk c \<and> dev_writes c' = dev_writes c \<and> (\<forall>j \<in> H. bufs c' ! j = bufs c ! j)"
proof -
  have lt: "i < NBUF" and blk: "b_dev (bufs c ! i) = ROOTDEV" "b_blockno (bufs c ! i) = b"
    using i by (auto simp: caches_def)
  note len = cache_invD(1) [OF inv] and ok = cache_invD(6) [OF inv lt]
  define f where "f = (\<lambda>x :: buf. x\<lparr>b_refcnt := b_refcnt x + 1, b_lock := \<lparr>sl_locked = True, sl_pid = me\<rparr>,
     b_data := (if b_valid (bufs c ! i) then b_data x else dev_disk c b), b_valid := True\<rparr>)"
  let ?c = "upd_buf i f c"
  have fnd: "find (\<lambda>i. b_dev (bufs c ! i) = ROOTDEV \<and> b_blockno (bufs c ! i) = b) (lru c) = Some i"
  proof (rule find_SomeI)
    show "j = i" if "j \<in> set (lru c)" "b_dev (bufs c ! j) = ROOTDEV \<and> b_blockno (bufs c ! j) = b" for j
      using that cache_invD(5) [OF inv, of b j i] cache_invD(3) [OF inv] i(1) by (simp add: caches_def)
  qed (use cache_invD(3) [OF inv] lt blk in auto)
  have lk: "b_lock (bufs c ! i) = initsleeplock"
    using ok i(2) by (simp add: buf_ok_def)
  have run: "bread_buf me c ROOTDEV b = Some (i, ?c)"
    using lk lt blk
    by (auto simp: bread_buf_def bget_def fnd b_acquire_def acquiresleep_def initsleeplock_def
        virtio_read_def set_data_def nth_upd_buf len upd_buf_upd_buf f_def intro!: upd_buf_cong)
  have inv': "cache_inv me P (insert i H) ?c"
  proof (rule inv_upd [OF inv lt])
    show "buf_ok me P (i \<in> insert i H) (dev_disk c) (f (bufs c ! i))"
      using ok i(2) blk by (auto simp: buf_ok_def f_def)
    show "insert i H \<subseteq> {..<NBUF}"
      using cache_invD(4) [OF inv] lt by simp
    show "j = i" if "caches c (b_blockno (f (bufs c ! i))) j" for j
      using that cache_invD(5) [OF inv, of b j i] i(1) blk by (simp add: f_def)
    show "b \<in> P \<and> \<not> caches c b i \<or> b_dev (f (bufs c ! i)) = ROOTDEV \<and> b_blockno (f (bufs c ! i)) = b \<and> b_valid (f (bufs c ! i))"
      if "b \<in> P" for b
      using that blk by (auto simp: caches_def f_def)
  qed (auto)
  have dat: "b_data (f (bufs c ! i)) = cache_view c b"
    using view_cached [OF inv i(1)] by (simp add: f_def)
  have same: "cache_view ?c b' = cache_view c b'" for b'
  proof (cases "b' = b")
    case True
    then show ?thesis
      using view_upd_same [OF inv' lt len] blk dat by (simp add: f_def)
  next
    case False
    then show ?thesis
      by (intro view_upd_other [OF len lt]) (use blk in \<open>auto simp: caches_def nth_upd_buf len lt f_def\<close>)
  qed
  have "caches ?c b i" "b_data (bufs ?c ! i) = cache_view c b" "\<forall>j \<in> H. bufs ?c ! j = bufs c ! j"
    using dat blk i(2) by (auto simp: caches_def nth_upd_buf len lt f_def)
  with run inv' same show ?thesis
    by (intro exI [of _ ?c]) auto
qed

lemma bread_uncached:
  assumes inv: "cache_inv me P H c" and fin: "finite P" and room: "card P + card H < NBUF" and un: "\<And>i. \<not> caches c b i"
  shows "\<exists>i c'. bread_buf me c ROOTDEV b = Some (i, c') \<and> i \<notin> H \<and> cache_inv me P (insert i H) c' \<and> caches c' b i
     \<and> b_data (bufs c' ! i) = cache_view c b \<and> cache_view c' = cache_view c
     \<and> dev_disk c' = dev_disk c \<and> dev_writes c' = dev_writes c \<and> (\<forall>j \<in> H. bufs c' ! j = bufs c ! j)"
proof -
  note len = cache_invD(1) [OF inv]
  have fnd: "find (\<lambda>i. b_dev (bufs c ! i) = ROOTDEV \<and> b_blockno (bufs c ! i) = b) (lru c) = None"
    by (rule find_NoneI) (use un cache_invD(3) [OF inv] in \<open>auto simp: caches_def\<close>)
  obtain j where "j < NBUF" "b_refcnt (bufs c ! j) = 0"
    using exists_unused [OF inv fin room] by blast
  then obtain i where fnd2: "find (\<lambda>i. b_refcnt (bufs c ! i) = 0) (rev (lru c)) = Some i"
    using cache_invD(3) [OF inv] by (cases "find (\<lambda>i. b_refcnt (bufs c ! i) = 0) (rev (lru c))") (auto simp: find_None_iff)
  then have lt: "i < NBUF" and z: "b_refcnt (bufs c ! i) = 0"
    using find_Some_unique [OF fnd2] cache_invD(3) [OF inv] by auto
  note ok = cache_invD(6) [OF inv lt]
  have nH: "i \<notin> H"
    using ok z by (auto simp: buf_ok_def split: if_splits)
  have nP: "b_blockno (bufs c ! i) \<notin> P" if "b_dev (bufs c ! i) = ROOTDEV"
    using ok z that nH by (auto simp: buf_ok_def split: if_splits)
  have nb: "b \<notin> P"
    using cache_invD(7) [OF inv, of b] un by blast
  define f where "f = (\<lambda>x :: buf. x\<lparr>b_dev := ROOTDEV, b_blockno := b, b_refcnt := 1, b_lock := \<lparr>sl_locked = True, sl_pid = me\<rparr>,
     b_data := dev_disk c b, b_valid := True\<rparr>)"
  let ?c = "upd_buf i f c"
  have run: "bread_buf me c ROOTDEV b = Some (i, ?c)"
    using ok nH lt
    by (simp add: bread_buf_def bget_def fnd fnd2 b_acquire_def acquiresleep_def buf_ok_def initsleeplock_def
        virtio_read_def set_data_def nth_upd_buf len upd_buf_upd_buf f_def)
  have inv': "cache_inv me P (insert i H) ?c"
  proof (rule inv_upd [OF inv lt])
    show "insert i H \<subseteq> {..<NBUF}"
      using cache_invD(4) [OF inv] lt by simp
    show "b' \<in> P \<and> \<not> caches c b' i \<or> b_dev (f (bufs c ! i)) = ROOTDEV \<and> b_blockno (f (bufs c ! i)) = b' \<and> b_valid (f (bufs c ! i))"
      if "b' \<in> P" for b'
      using that nP by (auto simp: caches_def)
  qed (use un nb in \<open>auto simp: f_def buf_ok_def\<close>)
  have "cache_view c b' = cache_view ?c b'" for b'
  proof (cases "b' = b")
    case True
    then show ?thesis
      using view_upd_same [OF inv' lt len] view_uncached [OF un] by (simp add: f_def)
  next
    case False
    have "cache_view c b' = dev_disk c b' \<and> cache_view ?c b' = dev_disk c b'" if "caches c b' i"
    proof
      show "cache_view c b' = dev_disk c b'"
        using view_cached [OF inv that] ok z that by (auto simp: buf_ok_def caches_def)
      have "\<not> caches ?c b' k" for k
        using False cache_invD(5) [OF inv that, of k] by (auto simp: caches_upd [OF len lt] f_def)
      then show "cache_view ?c b' = dev_disk c b'"
        by (simp add: view_uncached)
    qed
    then show ?thesis
      using view_upd_other [OF len lt, of b' f] False by (cases "caches c b' i") (auto simp: caches_upd [OF len lt] f_def)
  qed
  moreover have "caches ?c b i" "b_data (bufs ?c ! i) = cache_view c b" "\<forall>j \<in> H. bufs ?c ! j = bufs c ! j"
    using nH view_uncached [OF un] by (auto simp: caches_def nth_upd_buf len lt f_def)
  ultimately show ?thesis
    using run inv' nH by (intro exI [of _ i] exI [of _ ?c]) auto
qed

lemma bread_buf_spec:
  assumes "cache_inv me P H c" "finite P" "card P + card H < NBUF" "\<And>i. i \<in> H \<Longrightarrow> \<not> caches c b i"
  shows "\<exists>i c'. bread_buf me c ROOTDEV b = Some (i, c') \<and> i \<notin> H \<and> cache_inv me P (insert i H) c' \<and> caches c' b i
     \<and> b_data (bufs c' ! i) = cache_view c b \<and> cache_view c' = cache_view c
     \<and> dev_disk c' = dev_disk c \<and> dev_writes c' = dev_writes c \<and> (\<forall>j \<in> H. bufs c' ! j = bufs c ! j)"
proof (cases "\<exists>i. caches c b i")
  case True
  then obtain i where i: "caches c b i" "i \<notin> H"
    using assms(4) by blast
  from bread_cached [OF assms(1) i] i(2) show ?thesis by blast
next
  case False
  then show ?thesis
    using bread_uncached [OF assms(1-3)] by blast
qed

lemma heldD:
  assumes "cache_inv me P H c" "i \<in> H"
  shows "i < NBUF" "holdingsleep me (b_lock (bufs c ! i))" "caches c (b_blockno (bufs c ! i)) i" "b_valid (bufs c ! i)"
    "cache_view c (b_blockno (bufs c ! i)) = b_data (bufs c ! i)"
proof -
  show lt: "i < NBUF"
    using cache_invD(4) [OF assms(1)] assms(2) by auto
  show "holdingsleep me (b_lock (bufs c ! i))" and ca: "caches c (b_blockno (bufs c ! i)) i" and va: "b_valid (bufs c ! i)"
    using cache_invD(6) [OF assms(1) lt] assms(2) lt by (auto simp: buf_ok_def holdingsleep_def caches_def)
  show "cache_view c (b_blockno (bufs c ! i)) = b_data (bufs c ! i)"
    using view_cached [OF assms(1) ca] va by simp
qed

text \<open>A change of a locked buffer that keeps its block and contents.\<close>

lemma inv_upd_held:
  assumes inv: "cache_inv me P H c" and i: "i \<in> H" and H': "H' \<subseteq> H" "\<And>j. j \<noteq> i \<Longrightarrow> j \<in> H' \<longleftrightarrow> j \<in> H"
    and f: "b_dev (f (bufs c ! i)) = b_dev (bufs c ! i)" "b_blockno (f (bufs c ! i)) = b_blockno (bufs c ! i)" "b_valid (f (bufs c ! i))"
    and ok: "buf_ok me P' (i \<in> H') (dev_disk c) (f (bufs c ! i))"
    and P: "\<And>b. b \<noteq> b_blockno (bufs c ! i) \<Longrightarrow> b \<in> P' \<longleftrightarrow> b \<in> P"
  shows "cache_inv me P' H' (upd_buf i f c)"
    and "cache_view (upd_buf i f c) = (cache_view c)(b_blockno (bufs c ! i) := b_data (f (bufs c ! i)))"
proof -
  note h = heldD [OF inv i] and len = cache_invD(1) [OF inv]
  have dev: "b_dev (bufs c ! i) = ROOTDEV"
    using h(3) by (simp add: caches_def)
  show inv': "cache_inv me P' H' (upd_buf i f c)"
  proof (rule inv_upd [OF inv h(1)])
    show "H' \<subseteq> {..<NBUF}"
      using H' cache_invD(4) [OF inv] by blast
    show "j = i" if "caches c (b_blockno (f (bufs c ! i))) j" for j
      using that cache_invD(5) [OF inv _ h(3), of j] f(2) by simp
    show "b \<in> P \<and> \<not> caches c b i \<or> b_dev (f (bufs c ! i)) = ROOTDEV \<and> b_blockno (f (bufs c ! i)) = b \<and> b_valid (f (bufs c ! i))"
      if "b \<in> P'" for b
      using that f dev P [of b] by (auto simp: caches_def)
    show "b_blockno (bufs c ! j) \<in> P' \<longleftrightarrow> b_blockno (bufs c ! j) \<in> P" if "j < NBUF" "j \<noteq> i" "b_dev (bufs c ! j) = ROOTDEV" for j
      using P [of "b_blockno (bufs c ! j)"] that cache_invD(5) [OF inv _ h(3), of j] by (auto simp: caches_def)
  qed (use H' ok in auto)
  show "cache_view (upd_buf i f c) = (cache_view c)(b_blockno (bufs c ! i) := b_data (f (bufs c ! i)))"
  proof
    fix b
    show "cache_view (upd_buf i f c) b = ((cache_view c)(b_blockno (bufs c ! i) := b_data (f (bufs c ! i)))) b"
    proof (cases "b = b_blockno (bufs c ! i)")
      case True
      then show ?thesis
        using view_upd_same [OF inv' h(1) len] f dev by simp
    next
      case False
      then show ?thesis
        using view_upd_other [OF len h(1), of b f] f by (simp add: caches_def nth_upd_buf len h(1))
    qed
  qed
qed

lemma caches_lru [simp]: "caches (c\<lparr>lru := l\<rparr>) = caches c"
  by (intro ext) (simp add: caches_def)

lemma view_lru [simp]: "cache_view (c\<lparr>lru := l\<rparr>) = cache_view c"
  by (rule ext) (simp add: cache_view_def del: upt_rec_numeral split: option.split)

lemma inv_lru:
  assumes "cache_inv me P H c" "distinct l" "set l = {..<NBUF}"
  shows "cache_inv me P H (c\<lparr>lru := l\<rparr>)"
  using assms by (simp add: cache_inv_def)

lemma brelse_spec:
  assumes inv: "cache_inv me P H c" and i: "i \<in> H"
    and clean: "b_blockno (bufs c ! i) \<in> P \<or> b_data (bufs c ! i) = dev_disk c (b_blockno (bufs c ! i))"
  shows "\<exists>c'. brelse me i c = Some c' \<and> cache_inv me P (H - {i}) c' \<and> cache_view c' = cache_view c
     \<and> dev_disk c' = dev_disk c \<and> dev_writes c' = dev_writes c \<and> (\<forall>j. j \<noteq> i \<longrightarrow> bufs c' ! j = bufs c ! j)"
proof -
  note h = heldD [OF inv i] and len = cache_invD(1) [OF inv]
  note ok = cache_invD(6) [OF inv h(1)]
  define f where "f = (\<lambda>b :: buf. b\<lparr>b_lock := releasesleep (b_lock b), b_refcnt := b_refcnt b - 1\<rparr>)"
  let ?c = "upd_buf i f c"
  have "buf_ok me P (i \<in> H - {i}) (dev_disk c) (f (bufs c ! i))"
    using ok i clean h(3) by (auto simp: buf_ok_def f_def releasesleep_def initsleeplock_def caches_def)
  note u = inv_upd_held [where f = f, OF inv i _ _ _ _ _ this]
  have inv': "cache_inv me P (H - {i}) ?c" and view: "cache_view ?c = cache_view c"
    using u h(4,5) by (auto simp: f_def fun_upd_idem_iff)
  have oth: "\<forall>j. j \<noteq> i \<longrightarrow> bufs ?c ! j = bufs c ! j"
    by (simp add: nth_upd_buf len h(1))
  have l: "distinct (i # remove1 i (lru c))" "set (i # remove1 i (lru c)) = {..<NBUF}"
    using cache_invD(2,3) [OF inv] h(1) by (auto simp: set_remove1_eq)
  have run: "brelse me i c = Some (if b_refcnt (bufs ?c ! i) = 0 then ?c\<lparr>lru := i # remove1 i (lru ?c)\<rparr> else ?c)"
    using h(2) by (simp add: brelse_def Let_def f_def)
  show ?thesis
    unfolding run using inv' view oth inv_lru [OF inv' l] by auto
qed

lemma bwrite_spec:
  assumes inv: "cache_inv me P H c" and i: "i \<in> H"
  shows "bwrite me i c = Some (virtio_write i c) \<and> cache_inv me P H (virtio_write i c)
     \<and> cache_view (virtio_write i c) = cache_view c
     \<and> dev_disk (virtio_write i c) = (dev_disk c)(b_blockno (bufs c ! i) := b_data (bufs c ! i))
     \<and> dev_writes (virtio_write i c) = dev_writes c @ [(b_blockno (bufs c ! i), b_data (bufs c ! i))]
     \<and> bufs (virtio_write i c) = bufs c"
proof -
  note h = heldD [OF inv i]
  let ?c = "virtio_write i c"
  have ca: "caches ?c = caches c"
    by (intro ext) (simp add: caches_def virtio_write_def Let_def)
  have ok: "buf_ok me P (j \<in> H) (dev_disk ?c) (bufs ?c ! j)" if "j < NBUF" for j
  proof (cases "caches c (b_blockno (bufs c ! i)) j")
    case True
    then have "j = i"
      using cache_invD(5) [OF inv _ h(3)] by blast
    then show ?thesis
      using cache_invD(6) [OF inv that] by (auto simp: buf_ok_def virtio_write_def Let_def)
  next
    case False
    then show ?thesis
      using cache_invD(6) [OF inv that] that by (auto simp: buf_ok_def virtio_write_def Let_def caches_def)
  qed
  have inv': "cache_inv me P H ?c"
    unfolding cache_inv_def ca using ok cache_invD(1-5,7) [OF inv] by (simp add: virtio_write_def Let_def)
  have "cache_view ?c b = cache_view c b" for b
  proof (cases "b = b_blockno (bufs c ! i)")
    case True
    then show ?thesis
      using view_cached [OF inv' h(3) [folded ca]] h(4,5) by (simp add: virtio_write_def Let_def)
  next
    case False
    then show ?thesis
      by (simp add: cache_view_def ca del: upt_rec_numeral) (simp add: virtio_write_def Let_def del: upt_rec_numeral split: option.split)
  qed
  with inv' h(2) show ?thesis
    by (auto simp: bwrite_def virtio_write_def Let_def)
qed

lemma set_data_spec:
  assumes inv: "cache_inv me P H c" and i: "i \<in> H"
  shows "cache_inv me P H (set_data i d c) \<and> cache_view (set_data i d c) = (cache_view c)(b_blockno (bufs c ! i) := d)
     \<and> dev_disk (set_data i d c) = dev_disk c \<and> dev_writes (set_data i d c) = dev_writes c
     \<and> bufs (set_data i d c) ! i = (bufs c ! i)\<lparr>b_data := d\<rparr> \<and> (\<forall>j. j \<noteq> i \<longrightarrow> bufs (set_data i d c) ! j = bufs c ! j)"
proof -
  note h = heldD [OF inv i] and len = cache_invD(1) [OF inv]
  note ok = cache_invD(6) [OF inv h(1)]
  have "buf_ok me P (i \<in> H) (dev_disk c) (b_data_update (\<lambda>_. d) (bufs c ! i))"
    using ok i by (auto simp: buf_ok_def split: if_splits)
  from inv_upd_held [where f = "b_data_update (\<lambda>_. d)", OF inv i _ _ _ _ _ this] show ?thesis
    using h(1,4) by (auto simp: set_data_def nth_upd_buf len)
qed

lemma bpin_spec:
  assumes inv: "cache_inv me P H c" and i: "i \<in> H" and new: "b_blockno (bufs c ! i) \<notin> P"
  shows "cache_inv me (insert (b_blockno (bufs c ! i)) P) H (bpin i c) \<and> cache_view (bpin i c) = cache_view c
     \<and> dev_disk (bpin i c) = dev_disk c \<and> dev_writes (bpin i c) = dev_writes c
     \<and> b_data (bufs (bpin i c) ! i) = b_data (bufs c ! i) \<and> b_blockno (bufs (bpin i c) ! i) = b_blockno (bufs c ! i)"
proof -
  note h = heldD [OF inv i] and len = cache_invD(1) [OF inv]
  note ok = cache_invD(6) [OF inv h(1)]
  let ?f = "b_refcnt_update (\<lambda>r. r + 1)"
  have "buf_ok me (insert (b_blockno (bufs c ! i)) P) (i \<in> H) (dev_disk c) (?f (bufs c ! i))"
    using ok i new h(3) by (auto simp: buf_ok_def caches_def)
  from inv_upd_held [where f = ?f, OF inv i _ _ _ _ _ this] show ?thesis
    using h(1,4,5) by (auto simp: bpin_def nth_upd_buf len fun_upd_idem_iff)
qed

lemma bunpin_spec:
  assumes inv: "cache_inv me P H c" and i: "i \<in> H" and old: "b_blockno (bufs c ! i) \<in> P"
  shows "cache_inv me (P - {b_blockno (bufs c ! i)}) H (bunpin i c) \<and> cache_view (bunpin i c) = cache_view c
     \<and> dev_disk (bunpin i c) = dev_disk c \<and> dev_writes (bunpin i c) = dev_writes c
     \<and> b_data (bufs (bunpin i c) ! i) = b_data (bufs c ! i) \<and> b_blockno (bufs (bunpin i c) ! i) = b_blockno (bufs c ! i)
     \<and> (\<forall>j. j \<noteq> i \<longrightarrow> bufs (bunpin i c) ! j = bufs c ! j)"
proof -
  note h = heldD [OF inv i] and len = cache_invD(1) [OF inv]
  note ok = cache_invD(6) [OF inv h(1)]
  let ?f = "b_refcnt_update (\<lambda>r. r - 1)"
  have "buf_ok me (P - {b_blockno (bufs c ! i)}) (i \<in> H) (dev_disk c) (?f (bufs c ! i))"
    using ok i old h(3) by (auto simp: buf_ok_def caches_def)
  from inv_upd_held [where f = ?f, OF inv i _ _ _ _ _ this] show ?thesis
    using h(1,4,5) by (auto simp: bunpin_def nth_upd_buf len fun_upd_idem_iff)
qed

lemma binit_inv: "cache_inv me {} {} (binit d)"
proof -
  have "lru (binit d) = rev [0..<NBUF]"
    by (simp add: binit_def fold_Cons_rev del: upt_rec_numeral)
  then show ?thesis
    by (simp add: cache_inv_def buf_ok_def caches_def atLeast0LessThan del: upt_rec_numeral) (auto simp: binit_def)
qed

lemma binit_view: "cache_view (binit d) = d"
  by (intro ext, subst view_uncached) (auto simp: caches_def binit_def)

end
