(* ===== verification/Log.thy ===== *)
theory Log
  imports Fsinv Bio
begin

text \<open>
  The redo log of \<open>log.c\<close> over the buffer cache: transactions, commit, and recovery after a crash.

  The in-memory header is the list \<open>lh\<close> of its first \<open>n\<close> block numbers. A crash loses everything but
  the disk, and can come between any two disk writes: the disk it leaves is the one before the
  operation with a prefix of the operation's writes applied.
\<close>

section \<open>State and operations\<close>

record logstate =
  log_start :: u32
  log_dev :: u32
  l_outstanding :: int
  committing :: bool
  lh :: "u32 list"
  bc :: bcache

definition put_head :: "block \<Rightarrow> u32 list \<Rightarrow> block" where
  "put_head blk bs = fold (\<lambda>i b. put32 b (4 + 4 * i) (bs ! i)) [0..<length bs] (put32 blk 0 (of_nat (length bs)))"

text \<open>Reading a header with more entries than \<open>log.lh.block\<close> has overruns it: \<open>None\<close>.\<close>

definition get_head :: "block \<Rightarrow> u32 list option" where
  "get_head blk =
     (let n = sint (get32 blk 0)
      in if n > LOGBLOCKS then None else Some (map (\<lambda>i. get32 blk (4 + 4 * i)) [0..<nat n]))"

definition log_blk :: "logstate \<Rightarrow> nat \<Rightarrow> u32" where
  "log_blk l tail = log_start l + of_nat tail + 1"

definition install_one :: "int \<Rightarrow> bool \<Rightarrow> nat \<Rightarrow> logstate \<Rightarrow> logstate option" where
  "install_one me recovering tail l = do {
     (lbuf, c1) \<leftarrow> bread_buf me (bc l) (log_dev l) (log_blk l tail);
     (dbuf, c2) \<leftarrow> bread_buf me c1 (log_dev l) (lh l ! tail);
     let c3 = set_data dbuf (b_data (bufs c2 ! lbuf)) c2;
     c4 \<leftarrow> bwrite me dbuf c3;
     let c5 = (if recovering then c4 else bunpin dbuf c4);
     c6 \<leftarrow> brelse me lbuf c5;
     c7 \<leftarrow> brelse me dbuf c6;
     Some (l\<lparr>bc := c7\<rparr>)
   }"

definition install_trans :: "int \<Rightarrow> bool \<Rightarrow> logstate \<Rightarrow> logstate option" where
  "install_trans me recovering l = fold_opt (install_one me recovering) [0..<length (lh l)] l"

definition read_head :: "int \<Rightarrow> logstate \<Rightarrow> logstate option" where
  "read_head me l = do {
     (i, c1) \<leftarrow> bread_buf me (bc l) (log_dev l) (log_start l);
     bs \<leftarrow> get_head (b_data (bufs c1 ! i));
     c2 \<leftarrow> brelse me i c1;
     Some (l\<lparr>lh := bs, bc := c2\<rparr>)
   }"

definition write_head :: "int \<Rightarrow> logstate \<Rightarrow> logstate option" where
  "write_head me l = do {
     (i, c1) \<leftarrow> bread_buf me (bc l) (log_dev l) (log_start l);
     let c2 = set_data i (put_head (b_data (bufs c1 ! i)) (lh l)) c1;
     c3 \<leftarrow> bwrite me i c2;
     c4 \<leftarrow> brelse me i c3;
     Some (l\<lparr>bc := c4\<rparr>)
   }"

definition recover_from_log :: "int \<Rightarrow> logstate \<Rightarrow> logstate option" where
  "recover_from_log me l = do {
     l1 \<leftarrow> read_head me l;
     l2 \<leftarrow> install_trans me True l1;
     write_head me (l2\<lparr>lh := []\<rparr>)
   }"

definition initlog :: "int \<Rightarrow> u32 \<Rightarrow> u32 \<Rightarrow> bcache \<Rightarrow> logstate option" where
  "initlog me dev start c =
     recover_from_log me \<lparr>log_start = start, log_dev = dev, l_outstanding = 0, committing = False, lh = [], bc = c\<rparr>"

definition l_begin_op :: "logstate \<Rightarrow> logstate option" where
  "l_begin_op l =
     (if committing l then None
      else if int (length (lh l)) + (l_outstanding l + 1) * MAXOPBLOCKS > LOGBLOCKS then None
      else Some (l\<lparr>l_outstanding := l_outstanding l + 1\<rparr>))"

definition write_log_one :: "int \<Rightarrow> nat \<Rightarrow> logstate \<Rightarrow> logstate option" where
  "write_log_one me tail l = do {
     (to, c1) \<leftarrow> bread_buf me (bc l) (log_dev l) (log_blk l tail);
     (from, c2) \<leftarrow> bread_buf me c1 (log_dev l) (lh l ! tail);
     let c3 = set_data to (b_data (bufs c2 ! from)) c2;
     c4 \<leftarrow> bwrite me to c3;
     c5 \<leftarrow> brelse me from c4;
     c6 \<leftarrow> brelse me to c5;
     Some (l\<lparr>bc := c6\<rparr>)
   }"

definition write_log :: "int \<Rightarrow> logstate \<Rightarrow> logstate option" where
  "write_log me l = fold_opt (write_log_one me) [0..<length (lh l)] l"

definition commit :: "int \<Rightarrow> logstate \<Rightarrow> logstate option" where
  "commit me l =
     (if lh l = [] then Some l
      else do {
        l1 \<leftarrow> write_log me l;
        l2 \<leftarrow> write_head me l1;
        l3 \<leftarrow> install_trans me False l2;
        write_head me (l3\<lparr>lh := []\<rparr>)
      })"

definition l_end_op :: "int \<Rightarrow> logstate \<Rightarrow> logstate option" where
  "l_end_op me l =
     (let l1 = l\<lparr>l_outstanding := l_outstanding l - 1\<rparr>
      in if committing l1 then None
         else if l_outstanding l1 = 0
         then map_option (committing_update (\<lambda>_. False)) (commit me (l1\<lparr>committing := True\<rparr>))
         else Some l1)"

definition l_log_write :: "nat \<Rightarrow> logstate \<Rightarrow> logstate option" where
  "l_log_write b l =
     (let bno = b_blockno (bufs (bc l) ! b)
      in if int (length (lh l)) \<ge> LOGBLOCKS then None
         else if l_outstanding l < 1 then None
         else if bno \<in> set (lh l) then Some l
         else Some (l\<lparr>lh := lh l @ [bno], bc := bpin b (bc l)\<rparr>))"

section \<open>Headers\<close>

lemma put_head_fold:
  assumes "k \<le> length bs"
  shows "get32 (fold (\<lambda>i b. put32 b (4 + 4 * i) (bs ! i)) [0..<k] blk) 0 = get32 blk 0
       \<and> (\<forall>i < k. get32 (fold (\<lambda>i b. put32 b (4 + 4 * i) (bs ! i)) [0..<k] blk) (4 + 4 * i) = bs ! i)"
  using assms
proof (induction k)
  case (Suc k)
  then show ?case
    by (auto simp: get32_put32_other get32_put32_same less_Suc_eq)
qed simp

lemma sint_count: "n \<le> 30 \<Longrightarrow> sint (of_nat n :: u32) = int n"
  by (simp add: signed_of_nat signed_take_bit_int_eq_self)

lemma get_put_head: "length bs \<le> 30 \<Longrightarrow> get_head (put_head blk bs) = Some bs"
  using put_head_fold [of "length bs" bs "put32 blk 0 (of_nat (length bs))"]
  by (auto simp: get_head_def put_head_def get32_put32_same sint_count Let_def intro: nth_equalityI)

lemma get_head_length: "get_head blk = Some bs \<Longrightarrow> length bs \<le> 30"
  by (auto simp: get_head_def Let_def split: if_splits)

section \<open>The log area\<close>

definition log_area :: "u32 \<Rightarrow> u32 set" where
  "log_area s = insert s ((\<lambda>i. s + of_nat i + 1) ` {..<30})"

lemma of_nat_small_eq: "i < 40 \<Longrightarrow> j < 40 \<Longrightarrow> (of_nat i :: u32) = of_nat j \<longleftrightarrow> i = j"
  by (subst word_of_nat_eq_iff) (simp add: take_bit_nat_eq_self)

lemma log_blk_inj: "i < 30 \<Longrightarrow> j < 30 \<Longrightarrow> s + of_nat i + 1 = s + of_nat j + (1 :: u32) \<longleftrightarrow> i = j"
  by (simp add: of_nat_small_eq)

lemma log_blk_start: "i < 30 \<Longrightarrow> s + of_nat i + (1 :: u32) \<noteq> s"
  using of_nat_small_eq [of "i + 1" 0] by (simp add: add.assoc add.commute)

lemma log_blk_area: "i < 30 \<Longrightarrow> s + of_nat i + 1 \<in> log_area s" and log_start_area: "s \<in> log_area s"
  by (auto simp: log_area_def)

section \<open>The loops of the log\<close>

lemma view_clean:
  assumes inv: "cache_inv me P {} c" and "b \<notin> P"
  shows "cache_view c b = dev_disk c b"
proof (cases "\<exists>i. caches c b i")
  case True
  then obtain i where i: "caches c b i" by blast
  then have "i < NBUF" by (simp add: caches_def)
  then show ?thesis
    using view_cached [OF inv i] cache_invD(6) [OF inv, of i] i assms(2) by (auto simp: buf_ok_def caches_def)
qed (use view_uncached in blast)

lemma write_log_one_spec:
  assumes inv: "cache_inv me P {} (bc l)" and fin: "finite P" "card P < NBUF" and dev: "log_dev l = ROOTDEV"
    and a: "log_blk l k \<notin> P" and b: "lh l ! k \<in> P"
  shows "\<exists>c'. write_log_one me k l = Some (l\<lparr>bc := c'\<rparr>) \<and> cache_inv me P {} c'
     \<and> cache_view c' = (cache_view (bc l))(log_blk l k := cache_view (bc l) (lh l ! k))
     \<and> dev_disk c' = (dev_disk (bc l))(log_blk l k := cache_view (bc l) (lh l ! k))
     \<and> dev_writes c' = dev_writes (bc l) @ [(log_blk l k, cache_view (bc l) (lh l ! k))]"
proof -
  let ?a = "log_blk l k" and ?b = "lh l ! k" and ?c = "bc l"
  have ne: "?a \<noteq> ?b" using a b by metis
  obtain i c1 where 1: "bread_buf me ?c ROOTDEV ?a = Some (i, c1)" "cache_inv me P {i} c1" "caches c1 ?a i"
      "cache_view c1 = cache_view ?c" "dev_disk c1 = dev_disk ?c" "dev_writes c1 = dev_writes ?c"
    using bread_buf_spec [OF inv fin(1), of ?a] fin(2) by auto
  obtain j where j: "caches c1 ?b j"
    using cache_invD(7) [OF 1(2) b] by blast
  then have ji: "j \<notin> {i}"
    using 1(3) ne by (auto simp: caches_def)
  obtain c2 where 2: "bread_buf me c1 ROOTDEV ?b = Some (j, c2)" "cache_inv me P {j, i} c2" "caches c2 ?b j"
      "b_data (bufs c2 ! j) = cache_view ?c ?b" "cache_view c2 = cache_view ?c" "dev_disk c2 = dev_disk ?c"
      "dev_writes c2 = dev_writes ?c" "bufs c2 ! i = bufs c1 ! i"
    using bread_cached [OF 1(2) j ji] 1 by auto
  define c3 where "c3 = set_data i (cache_view ?c ?b) c2"
  have bi: "b_blockno (bufs c2 ! i) = ?a"
    using 1(3) 2(8) by (simp add: caches_def)
  have bj: "b_blockno (bufs c2 ! j) = ?b"
    using 2(3) by (simp add: caches_def)
  have 3: "cache_inv me P {j, i} c3" "cache_view c3 = (cache_view ?c)(?a := cache_view ?c ?b)" "dev_disk c3 = dev_disk ?c"
      "dev_writes c3 = dev_writes ?c" "b_blockno (bufs c3 ! i) = ?a" "b_data (bufs c3 ! i) = cache_view ?c ?b" "bufs c3 ! j = bufs c2 ! j"
    using set_data_spec [OF 2(2), of i "cache_view ?c ?b"] ji 2 bi unfolding c3_def by auto
  define c4 where "c4 = virtio_write i c3"
  have 4: "bwrite me i c3 = Some c4" "cache_inv me P {j, i} c4" "cache_view c4 = (cache_view ?c)(?a := cache_view ?c ?b)"
      "dev_disk c4 = (dev_disk ?c)(?a := cache_view ?c ?b)" "dev_writes c4 = dev_writes ?c @ [(?a, cache_view ?c ?b)]" "bufs c4 = bufs c3"
    using bwrite_spec [OF 3(1), of i] 3 unfolding c4_def by auto
  obtain c5 where 5: "brelse me j c4 = Some c5" "cache_inv me P ({j, i} - {j}) c5" "cache_view c5 = cache_view c4"
      "dev_disk c5 = dev_disk c4" "dev_writes c5 = dev_writes c4" "bufs c5 ! i = bufs c4 ! i"
    using brelse_spec [OF 4(2), of j] b 3(7) 4(6) bj ji by auto
  have h5: "{j, i} - {j} = {i}" using ji by auto
  obtain c6 where 6: "brelse me i c5 = Some c6" "cache_inv me P ({i} - {i}) c6" "cache_view c6 = cache_view c5"
      "dev_disk c6 = dev_disk c5" "dev_writes c6 = dev_writes c5"
    using brelse_spec [OF 5(2) [unfolded h5], of i] 5 4 3 by auto
  have "write_log_one me k l = Some (l\<lparr>bc := c6\<rparr>)"
    by (simp add: write_log_one_def dev 1(1) 2(1) 2(4) c3_def [symmetric] 4(1) 5(1) 6(1))
  then show ?thesis
    using 6 5 4 by auto
qed

text \<open>
  Installing block \<open>k\<close>: with \<open>recovering\<close> nothing is pinned; without, the destination is pinned and
  its pin is dropped.
\<close>

lemma install_one_spec:
  assumes inv: "cache_inv me P {} (bc l)" and fin: "finite P" "card P + 1 < NBUF \<or> (\<not> r \<and> card P < NBUF)" and dev: "log_dev l = ROOTDEV"
    and a: "log_blk l k \<notin> P" "log_blk l k \<noteq> lh l ! k" and b: "if r then lh l ! k \<notin> P else lh l ! k \<in> P"
  shows "\<exists>c'. install_one me r k l = Some (l\<lparr>bc := c'\<rparr>) \<and> cache_inv me (P - {lh l ! k}) {} c'
     \<and> cache_view c' = (cache_view (bc l))(lh l ! k := cache_view (bc l) (log_blk l k))
     \<and> dev_disk c' = (dev_disk (bc l))(lh l ! k := cache_view (bc l) (log_blk l k))
     \<and> dev_writes c' = dev_writes (bc l) @ [(lh l ! k, cache_view (bc l) (log_blk l k))]"
proof -
  let ?a = "log_blk l k" and ?b = "lh l ! k" and ?c = "bc l"
  let ?d = "cache_view ?c ?a" and ?P = "P - {lh l ! k}"
  obtain i c1 where 1: "bread_buf me ?c ROOTDEV ?a = Some (i, c1)" "cache_inv me P {i} c1" "caches c1 ?a i"
      "b_data (bufs c1 ! i) = ?d" "cache_view c1 = cache_view ?c" "dev_disk c1 = dev_disk ?c" "dev_writes c1 = dev_writes ?c"
    using bread_buf_spec [OF inv fin(1), of ?a] fin(2) by auto
  have nc: "\<not> caches c1 ?b i"
    using 1(3) a(2) by (auto simp: caches_def)
  have "\<exists>j c2. bread_buf me c1 ROOTDEV ?b = Some (j, c2) \<and> j \<noteq> i \<and> cache_inv me P {j, i} c2 \<and> caches c2 ?b j
      \<and> cache_view c2 = cache_view ?c \<and> dev_disk c2 = dev_disk ?c \<and> dev_writes c2 = dev_writes ?c \<and> bufs c2 ! i = bufs c1 ! i"
  proof (cases "r")
    case True
    then show ?thesis
      using bread_buf_spec [OF 1(2) fin(1), of ?b] fin(2) nc 1 by auto
  next
    case False
    then obtain j where j: "caches c1 ?b j" "j \<notin> {i}"
      using cache_invD(7) [OF 1(2), of ?b] b nc by auto
    then show ?thesis
      using bread_cached [OF 1(2) j] 1 by auto
  qed
  then obtain j c2 where 2: "bread_buf me c1 ROOTDEV ?b = Some (j, c2)" "j \<noteq> i" "cache_inv me P {j, i} c2" "caches c2 ?b j"
      "cache_view c2 = cache_view ?c" "dev_disk c2 = dev_disk ?c" "dev_writes c2 = dev_writes ?c" "bufs c2 ! i = bufs c1 ! i"
    by blast
  have bi: "b_blockno (bufs c2 ! i) = ?a" "b_data (bufs c2 ! i) = ?d" and bj: "b_blockno (bufs c2 ! j) = ?b"
    using 1(3,4) 2(4,8) by (auto simp: caches_def)
  define c3 where "c3 = set_data j ?d c2"
  have 3: "cache_inv me P {j, i} c3" "cache_view c3 = (cache_view ?c)(?b := ?d)" "dev_disk c3 = dev_disk ?c"
      "dev_writes c3 = dev_writes ?c" "b_blockno (bufs c3 ! j) = ?b" "b_data (bufs c3 ! j) = ?d" "bufs c3 ! i = bufs c2 ! i"
    using set_data_spec [OF 2(3), of j ?d] 2 bj unfolding c3_def by auto
  define c4 where "c4 = virtio_write j c3"
  have 4: "bwrite me j c3 = Some c4" "cache_inv me P {j, i} c4" "cache_view c4 = (cache_view ?c)(?b := ?d)"
      "dev_disk c4 = (dev_disk ?c)(?b := ?d)" "dev_writes c4 = dev_writes ?c @ [(?b, ?d)]" "bufs c4 = bufs c3"
    using bwrite_spec [OF 3(1), of j] 3 unfolding c4_def by auto
  define c5 where "c5 = (if r then c4 else bunpin j c4)"
  have 5: "cache_inv me ?P {j, i} c5" "cache_view c5 = cache_view c4" "dev_disk c5 = dev_disk c4" "dev_writes c5 = dev_writes c4"
      "b_data (bufs c5 ! j) = ?d" "b_blockno (bufs c5 ! j) = ?b" "bufs c5 ! i = bufs c2 ! i"
    using bunpin_spec [OF 4(2), of j] 4 3 b 2(2) unfolding c5_def by (auto split: if_splits)
  have cl: "?d = dev_disk ?c ?a"
    using view_clean [OF inv a(1)] .
  obtain c6 where 6: "brelse me i c5 = Some c6" "cache_inv me ?P ({j, i} - {i}) c6" "cache_view c6 = cache_view c5"
      "dev_disk c6 = dev_disk c5" "dev_writes c6 = dev_writes c5" "bufs c6 ! j = bufs c5 ! j"
    using brelse_spec [OF 5(1), of i] 5 4(4) bi cl 2(2) a(2) by auto
  have h6: "{j, i} - {i} = {j}" using 2(2) by auto
  obtain c7 where 7: "brelse me j c6 = Some c7" "cache_inv me ?P ({j} - {j}) c7" "cache_view c7 = cache_view c6"
      "dev_disk c7 = dev_disk c6" "dev_writes c7 = dev_writes c6"
    using brelse_spec [OF 6(2) [unfolded h6], of j] 6 5 4(4) by auto
  have "install_one me r k l = Some (l\<lparr>bc := c7\<rparr>)"
    using 4(1) by (simp add: install_one_def dev 1(1) 2(1) bi(2) c3_def [symmetric] c5_def [symmetric] 6(1) 7(1))
  then show ?thesis
    using 7 6 5 4 by auto
qed

lemma head_spec:
  assumes inv: "cache_inv me P {} (bc l)" and fin: "finite P" "card P < NBUF" and dev: "log_dev l = ROOTDEV" and a: "log_start l \<notin> P"
  shows "get_head (dev_disk (bc l) (log_start l)) = Some bs \<Longrightarrow>
      \<exists>c'. read_head me l = Some (l\<lparr>lh := bs, bc := c'\<rparr>) \<and> cache_inv me P {} c' \<and> cache_view c' = cache_view (bc l)
        \<and> dev_disk c' = dev_disk (bc l) \<and> dev_writes c' = dev_writes (bc l)"
    and "\<exists>c'. write_head me l = Some (l\<lparr>bc := c'\<rparr>) \<and> cache_inv me P {} c'
        \<and> cache_view c' = (cache_view (bc l))(log_start l := put_head (dev_disk (bc l) (log_start l)) (lh l))
        \<and> dev_disk c' = (dev_disk (bc l))(log_start l := put_head (dev_disk (bc l) (log_start l)) (lh l))
        \<and> dev_writes c' = dev_writes (bc l) @ [(log_start l, put_head (dev_disk (bc l) (log_start l)) (lh l))]"
proof -
  let ?s = "log_start l" and ?c = "bc l"
  have cl: "cache_view ?c ?s = dev_disk ?c ?s"
    using view_clean [OF inv a] .
  obtain i c1 where 1: "bread_buf me ?c ROOTDEV ?s = Some (i, c1)" "cache_inv me P {i} c1" "caches c1 ?s i"
      "b_data (bufs c1 ! i) = dev_disk ?c ?s" "cache_view c1 = cache_view ?c" "dev_disk c1 = dev_disk ?c" "dev_writes c1 = dev_writes ?c"
    using bread_buf_spec [OF inv fin(1), of ?s] fin(2) cl by auto
  have bi: "b_blockno (bufs c1 ! i) = ?s"
    using 1(3) by (simp add: caches_def)
  show "\<exists>c'. read_head me l = Some (l\<lparr>lh := bs, bc := c'\<rparr>) \<and> cache_inv me P {} c' \<and> cache_view c' = cache_view ?c
        \<and> dev_disk c' = dev_disk ?c \<and> dev_writes c' = dev_writes ?c" if "get_head (dev_disk ?c ?s) = Some bs"
    using brelse_spec [OF 1(2), of i] 1 bi that by (auto simp: read_head_def dev)
  let ?d = "put_head (dev_disk ?c ?s) (lh l)"
  define c2 where "c2 = set_data i ?d c1"
  have 2: "cache_inv me P {i} c2" "cache_view c2 = (cache_view ?c)(?s := ?d)" "dev_disk c2 = dev_disk ?c"
      "dev_writes c2 = dev_writes ?c" "b_blockno (bufs c2 ! i) = ?s" "b_data (bufs c2 ! i) = ?d"
    using set_data_spec [OF 1(2), of i ?d] 1 bi unfolding c2_def by auto
  define c3 where "c3 = virtio_write i c2"
  have 3: "bwrite me i c2 = Some c3" "cache_inv me P {i} c3" "cache_view c3 = (cache_view ?c)(?s := ?d)"
      "dev_disk c3 = (dev_disk ?c)(?s := ?d)" "dev_writes c3 = dev_writes ?c @ [(?s, ?d)]" "bufs c3 = bufs c2"
    using bwrite_spec [OF 2(1), of i] 2 unfolding c3_def by auto
  show "\<exists>c'. write_head me l = Some (l\<lparr>bc := c'\<rparr>) \<and> cache_inv me P {} c'
        \<and> cache_view c' = (cache_view ?c)(?s := ?d) \<and> dev_disk c' = (dev_disk ?c)(?s := ?d)
        \<and> dev_writes c' = dev_writes ?c @ [(?s, ?d)]"
    using brelse_spec [OF 3(2), of i] 3 2 1(1,4) by (auto simp: write_head_def dev c2_def [symmetric])
qed

section \<open>Sequences of disk writes\<close>

definition apply_writes :: "(u32 \<Rightarrow> block) \<Rightarrow> (u32 \<times> block) list \<Rightarrow> u32 \<Rightarrow> block" where
  "apply_writes d ws = fold (\<lambda>(b, x) d. d(b := x)) ws d"

lemma apply_writes_simps [simp]:
  "apply_writes d [] = d" "apply_writes d (ws @ vs) = apply_writes (apply_writes d ws) vs"
  "apply_writes d ((b, x) # ws) = apply_writes (d(b := x)) ws"
  by (simp_all add: apply_writes_def)

lemma apply_writes_other: "b \<notin> fst ` set ws \<Longrightarrow> apply_writes d ws b = d b"
proof (induction ws arbitrary: d)
  case (Cons w ws)
  then show ?case by (cases w) (auto simp: apply_writes_def)
qed simp

lemma apply_writes_map:
  assumes "i < k" "\<And>i j. i < k \<Longrightarrow> j < k \<Longrightarrow> f i = f j \<Longrightarrow> g i = g j"
  shows "apply_writes d (map (\<lambda>i. (f i, g i)) [0..<k]) (f i) = g i"
  using assms
proof (induction k)
  case (Suc k)
  show ?case
  proof (cases "f i = f k")
    case True
    then show ?thesis using Suc.prems(2) [of i k] Suc.prems(1) by simp
  next
    case False
    then have "i < k" using Suc.prems(1) by (metis less_antisym)
    moreover have "f a = f b \<Longrightarrow> g a = g b" if "a < k" "b < k" for a b
      using Suc.prems(2) [of a b] that by simp
    ultimately have "apply_writes d (map (\<lambda>i. (f i, g i)) [0..<k]) (f i) = g i"
      by (rule Suc.IH)
    with False show ?thesis by simp
  qed
qed simp

definition log_writes :: "logstate \<Rightarrow> nat \<Rightarrow> (u32 \<times> block) list" where
  "log_writes l k = map (\<lambda>i. (log_blk l i, cache_view (bc l) (lh l ! i))) [0..<k]"

definition home_writes :: "logstate \<Rightarrow> (u32 \<Rightarrow> block) \<Rightarrow> nat \<Rightarrow> (u32 \<times> block) list" where
  "home_writes l d k = map (\<lambda>i. (lh l ! i, d (log_blk l i))) [0..<k]"

lemma log_writes_Suc [simp]: "log_writes l (Suc k) = log_writes l k @ [(log_blk l k, cache_view (bc l) (lh l ! k))]"
  and log_writes_0 [simp]: "log_writes l 0 = []"
  by (simp_all add: log_writes_def)

lemma home_writes_Suc [simp]: "home_writes l d (Suc k) = home_writes l d k @ [(lh l ! k, d (log_blk l k))]"
  and home_writes_0 [simp]: "home_writes l d 0 = []"
  by (simp_all add: home_writes_def)

lemma fst_log_writes: "k \<le> 30 \<Longrightarrow> fst ` set (log_writes l k) \<subseteq> log_area (log_start l) - {log_start l}"
  using log_blk_start [of _ "log_start l"] log_blk_area [of _ "log_start l"] by (fastforce simp: log_writes_def log_blk_def)

lemma fst_home_writes: "k \<le> length (lh l) \<Longrightarrow> fst ` set (home_writes l d k) \<subseteq> set (lh l)"
  by (auto simp: home_writes_def)

lemma fold_opt_Suc: "fold_opt f [0..<Suc k] s = Option.bind (fold_opt f [0..<k] s) (f k)"
  by (simp add: fold_opt_append) (cases "fold_opt f [0..<k] s"; simp split: bind_split)

section \<open>Commit\<close>

definition log_ok :: "int \<Rightarrow> logstate \<Rightarrow> bool" where
  "log_ok me l \<longleftrightarrow> log_dev l = ROOTDEV \<and> cache_inv me (set (lh l)) {} (bc l) \<and> distinct (lh l)
     \<and> set (lh l) \<inter> log_area (log_start l) = {} \<and> length (lh l) \<le> 30"

lemma log_blk_not_lh: "set (lh l) \<inter> log_area (log_start l) = {} \<Longrightarrow> k < 30 \<Longrightarrow> log_blk l k \<notin> set (lh l)"
  using log_blk_area [of k "log_start l"] by (auto simp: log_blk_def)

lemma write_log_spec:
  assumes ok: "log_ok me l" and n: "length (lh l) < 30" and k: "k \<le> length (lh l)"
  shows "\<exists>c'. fold_opt (write_log_one me) [0..<k] l = Some (l\<lparr>bc := c'\<rparr>) \<and> cache_inv me (set (lh l)) {} c'
     \<and> cache_view c' = apply_writes (cache_view (bc l)) (log_writes l k)
     \<and> dev_disk c' = apply_writes (dev_disk (bc l)) (log_writes l k)
     \<and> dev_writes c' = dev_writes (bc l) @ log_writes l k"
  using k
proof (induction k)
  case 0
  then show ?case using ok by (intro exI [of _ "bc l"]) (simp add: log_ok_def)
next
  case (Suc k)
  then obtain c where c: "fold_opt (write_log_one me) [0..<k] l = Some (l\<lparr>bc := c\<rparr>)" "cache_inv me (set (lh l)) {} c"
     "cache_view c = apply_writes (cache_view (bc l)) (log_writes l k)"
     "dev_disk c = apply_writes (dev_disk (bc l)) (log_writes l k)" "dev_writes c = dev_writes (bc l) @ log_writes l k"
    by auto
  have dis: "set (lh l) \<inter> log_area (log_start l) = {}" and dev: "log_dev l = ROOTDEV"
    using ok by (auto simp: log_ok_def)
  have kn: "k < length (lh l)" "lh l ! k \<in> set (lh l)"
    using Suc.prems by auto
  have "lh l ! k \<notin> fst ` set (log_writes l k)"
    using fst_log_writes [of k l] kn dis n by (meson DiffD1 disjoint_iff less_imp_le order_le_less_trans subsetD)
  then have v: "cache_view c (lh l ! k) = cache_view (bc l) (lh l ! k)"
    by (simp add: c(3) apply_writes_other)
  have lb: "log_blk (l\<lparr>bc := c\<rparr>) k = log_blk l k"
    by (simp add: log_blk_def)
  have "\<exists>c'. write_log_one me k (l\<lparr>bc := c\<rparr>) = Some (l\<lparr>bc := c'\<rparr>) \<and> cache_inv me (set (lh l)) {} c'
     \<and> cache_view c' = (cache_view c)(log_blk l k := cache_view c (lh l ! k))
     \<and> dev_disk c' = (dev_disk c)(log_blk l k := cache_view c (lh l ! k))
     \<and> dev_writes c' = dev_writes c @ [(log_blk l k, cache_view c (lh l ! k))]"
    using write_log_one_spec [of me "set (lh l)" "l\<lparr>bc := c\<rparr>" k] c(2) kn dev n log_blk_not_lh [OF dis, of k] card_length [of "lh l"]
    by (simp add: lb)
  then obtain c' where c': "write_log_one me k (l\<lparr>bc := c\<rparr>) = Some (l\<lparr>bc := c'\<rparr>)" "cache_inv me (set (lh l)) {} c'"
     "cache_view c' = (cache_view c)(log_blk l k := cache_view (bc l) (lh l ! k))"
     "dev_disk c' = (dev_disk c)(log_blk l k := cache_view (bc l) (lh l ! k))"
     "dev_writes c' = dev_writes c @ [(log_blk l k, cache_view (bc l) (lh l ! k))]"
    unfolding v by blast
  then show ?case
    by (intro exI [of _ c']) (simp add: fold_opt_Suc c del: upt_Suc)
qed

lemma install_spec:
  assumes inv: "cache_inv me (set (lh l)) {} (bc l)" and dev: "log_dev l = ROOTDEV" and dist: "distinct (lh l)"
    and dis: "set (lh l) \<inter> log_area (log_start l) = {}" and n: "length (lh l) < 30" and k: "k \<le> length (lh l)"
  shows "\<exists>c'. fold_opt (install_one me False) [0..<k] l = Some (l\<lparr>bc := c'\<rparr>) \<and> cache_inv me (set (drop k (lh l))) {} c'
     \<and> cache_view c' = apply_writes (cache_view (bc l)) (home_writes l (dev_disk (bc l)) k)
     \<and> dev_disk c' = apply_writes (dev_disk (bc l)) (home_writes l (dev_disk (bc l)) k)
     \<and> dev_writes c' = dev_writes (bc l) @ home_writes l (dev_disk (bc l)) k"
  using k
proof (induction k)
  case 0
  then show ?case using inv by (intro exI [of _ "bc l"]) simp
next
  case (Suc k)
  let ?hw = "home_writes l (dev_disk (bc l))"
  obtain c where c: "fold_opt (install_one me False) [0..<k] l = Some (l\<lparr>bc := c\<rparr>)" "cache_inv me (set (drop k (lh l))) {} c"
     "cache_view c = apply_writes (cache_view (bc l)) (?hw k)"
     "dev_disk c = apply_writes (dev_disk (bc l)) (?hw k)" "dev_writes c = dev_writes (bc l) @ ?hw k"
    using Suc by auto
  have kn: "k < length (lh l)"
    using Suc.prems by simp
  have dr: "drop k (lh l) = lh l ! k # drop (Suc k) (lh l)"
    using kn by (simp add: Cons_nth_drop_Suc)
  have nb: "log_blk l k \<notin> set (lh l)" and nb': "log_blk l k \<notin> set (drop k (lh l))"
    using log_blk_not_lh [OF dis, of k] kn n set_drop_subset [of k "lh l"] by auto
  have "log_blk l k \<notin> fst ` set (?hw k)"
    using fst_home_writes [of k l] kn nb by (meson less_imp_le subsetD)
  then have v: "cache_view c (log_blk l k) = dev_disk (bc l) (log_blk l k)"
    using view_clean [OF inv nb] by (simp add: c(3) apply_writes_other)
  have dk: "distinct (drop k (lh l))"
    using dist by simp
  have rm: "set (drop k (lh l)) - {lh l ! k} = set (drop (Suc k) (lh l))"
    using dk unfolding dr by auto
  have lb: "log_blk (l\<lparr>bc := c\<rparr>) k = log_blk l k"
    by (simp add: log_blk_def)
  have ne: "log_blk l k \<noteq> lh l ! k" and mem: "lh l ! k \<in> set (drop k (lh l))"
    using nb kn nth_mem [OF kn] unfolding dr by (metis, simp)
  have cd: "card (set (drop k (lh l))) < NBUF"
    using card_length [of "drop k (lh l)"] n by simp
  have "\<exists>c'. install_one me False k (l\<lparr>bc := c\<rparr>) = Some (l\<lparr>bc := c'\<rparr>) \<and> cache_inv me (set (drop k (lh l)) - {lh l ! k}) {} c'
     \<and> cache_view c' = (cache_view c)(lh l ! k := cache_view c (log_blk l k))
     \<and> dev_disk c' = (dev_disk c)(lh l ! k := cache_view c (log_blk l k))
     \<and> dev_writes c' = dev_writes c @ [(lh l ! k, cache_view c (log_blk l k))]"
    using install_one_spec [of me "set (drop k (lh l))" "l\<lparr>bc := c\<rparr>" False k] c(2) dev nb' ne cd mem
    by (simp add: lb)
  then obtain c' where c': "install_one me False k (l\<lparr>bc := c\<rparr>) = Some (l\<lparr>bc := c'\<rparr>)" "cache_inv me (set (drop (Suc k) (lh l))) {} c'"
     "cache_view c' = (cache_view c)(lh l ! k := dev_disk (bc l) (log_blk l k))"
     "dev_disk c' = (dev_disk c)(lh l ! k := dev_disk (bc l) (log_blk l k))"
     "dev_writes c' = dev_writes c @ [(lh l ! k, dev_disk (bc l) (log_blk l k))]"
    unfolding v rm by blast
  then show ?case
    by (intro exI [of _ c']) (simp add: fold_opt_Suc c del: upt_Suc)
qed

text \<open>The writes of a commit, in their order.\<close>

definition commit_writes :: "logstate \<Rightarrow> (u32 \<times> block) list" where
  "commit_writes l =
     (if lh l = [] then []
      else log_writes l (length (lh l))
         @ [(log_start l, put_head (dev_disk (bc l) (log_start l)) (lh l))]
         @ map (\<lambda>i. (lh l ! i, cache_view (bc l) (lh l ! i))) [0..<length (lh l)]
         @ [(log_start l, put_head (put_head (dev_disk (bc l) (log_start l)) (lh l)) [])])"

lemma log_area_disj: "set bs \<inter> log_area s = {} \<Longrightarrow> s \<notin> set bs"
  by (auto simp: log_area_def)

lemma logged_blk: "n \<le> 30 \<Longrightarrow> i < n \<Longrightarrow> apply_writes d (log_writes l n) (log_blk l i) = cache_view (bc l) (lh l ! i)"
  unfolding log_writes_def
  by (rule apply_writes_map [of i n "log_blk l" "\<lambda>i. cache_view (bc l) (lh l ! i)"]) (auto simp: log_blk_def of_nat_small_eq)

lemma start_not_logged: "n \<le> 30 \<Longrightarrow> log_start l \<notin> fst ` set (log_writes l n)"
  using fst_log_writes [of n l] by blast

lemma commit_run:
  assumes ok: "log_ok me l" and n: "length (lh l) < 30"
  shows "\<exists>c'. commit me l = Some (l\<lparr>lh := [], bc := c'\<rparr>) \<and> cache_inv me {} {} c'
     \<and> dev_writes c' = dev_writes (bc l) @ commit_writes l \<and> dev_disk c' = apply_writes (dev_disk (bc l)) (commit_writes l)"
proof (cases "lh l = []")
  case True
  then have "l\<lparr>lh := []\<rparr> = l" by simp
  then show ?thesis
    using ok True by (intro exI [of _ "bc l"]) (simp add: commit_def commit_writes_def log_ok_def)
next
  case False
  let ?n = "length (lh l)" and ?s = "log_start l"
  have dis: "set (lh l) \<inter> log_area ?s = {}" and dev: "log_dev l = ROOTDEV" and dist: "distinct (lh l)"
    using ok by (auto simp: log_ok_def)
  have s: "?s \<notin> set (lh l)"
    by (rule log_area_disj [OF dis])
  have cd: "card (set (lh l)) < NBUF"
    using n card_length [of "lh l"] by simp
  obtain c1 where 1: "write_log me l = Some (l\<lparr>bc := c1\<rparr>)" "cache_inv me (set (lh l)) {} c1"
     "dev_disk c1 = apply_writes (dev_disk (bc l)) (log_writes l ?n)" "dev_writes c1 = dev_writes (bc l) @ log_writes l ?n"
    using write_log_spec [OF ok n order_refl] by (auto simp: write_log_def)
  let ?h = "put_head (dev_disk (bc l) ?s) (lh l)"
  have "dev_disk c1 ?s = dev_disk (bc l) ?s"
    using start_not_logged [of ?n l] n by (simp add: 1(3) apply_writes_other)
  then obtain c2 where 2: "write_head me (l\<lparr>bc := c1\<rparr>) = Some (l\<lparr>bc := c2\<rparr>)" "cache_inv me (set (lh l)) {} c2"
     "dev_disk c2 = (dev_disk c1)(?s := ?h)" "dev_writes c2 = dev_writes c1 @ [(?s, ?h)]"
    using head_spec(2) [of me "set (lh l)" "l\<lparr>bc := c1\<rparr>"] 1(2) cd dev s by auto
  let ?hw = "map (\<lambda>i. (lh l ! i, cache_view (bc l) (lh l ! i))) [0..<?n]"
  have "home_writes (l\<lparr>bc := c2\<rparr>) (dev_disk c2) ?n = ?hw"
  proof -
    have "dev_disk c2 (log_blk (l\<lparr>bc := c2\<rparr>) i) = cache_view (bc l) (lh l ! i)" if "i < ?n" for i
      using that n logged_blk [of ?n i "dev_disk (bc l)" l] log_blk_start [of i ?s] by (auto simp: 2(3) 1(3) log_blk_def)
    then show ?thesis
      by (simp add: home_writes_def)
  qed
  then obtain c3 where 3: "install_trans me False (l\<lparr>bc := c2\<rparr>) = Some (l\<lparr>bc := c3\<rparr>)" "cache_inv me {} {} c3"
     "dev_disk c3 = apply_writes (dev_disk c2) ?hw" "dev_writes c3 = dev_writes c2 @ ?hw"
    using install_spec [of me "l\<lparr>bc := c2\<rparr>" ?n] 2(2) dev dist dis n by (auto simp: install_trans_def)
  have "?s \<notin> fst ` set ?hw"
    using s by auto
  then have "dev_disk c3 ?s = ?h"
    by (simp add: 3(3) apply_writes_other 2(3))
  then obtain c4 where "write_head me (l\<lparr>lh := [], bc := c3\<rparr>) = Some (l\<lparr>lh := [], bc := c4\<rparr>)" "cache_inv me {} {} c4"
     "dev_disk c4 = (dev_disk c3)(?s := put_head ?h [])" "dev_writes c4 = dev_writes c3 @ [(?s, put_head ?h [])]"
    using head_spec(2) [of me "{}" "l\<lparr>lh := [], bc := c3\<rparr>"] 3(2) dev by auto
  moreover have sw: "l\<lparr>bc := c3, lh := []\<rparr> = l\<lparr>lh := [], bc := c3\<rparr>"
    by (cases l) simp
  ultimately show ?thesis
    using False by (intro exI [of _ c4]) (simp add: commit_def commit_writes_def 1 2 3 sw)
qed

section \<open>Recovery\<close>

definition recovery_writes :: "u32 \<Rightarrow> (u32 \<Rightarrow> block) \<Rightarrow> u32 list \<Rightarrow> (u32 \<times> block) list" where
  "recovery_writes s d bs = map (\<lambda>i. (bs ! i, d (s + of_nat i + 1))) [0..<length bs] @ [(s, put_head (d s) [])]"

lemma install_rec_spec:
  assumes inv: "cache_inv me {} {} (bc l)" and dev: "log_dev l = ROOTDEV"
    and dis: "set (lh l) \<inter> log_area (log_start l) = {}" and n: "length (lh l) \<le> 30" and k: "k \<le> length (lh l)"
  shows "\<exists>c'. fold_opt (install_one me True) [0..<k] l = Some (l\<lparr>bc := c'\<rparr>) \<and> cache_inv me {} {} c'
     \<and> dev_disk c' = apply_writes (dev_disk (bc l)) (home_writes l (dev_disk (bc l)) k)
     \<and> dev_writes c' = dev_writes (bc l) @ home_writes l (dev_disk (bc l)) k"
  using k
proof (induction k)
  case 0
  then show ?case using inv by (intro exI [of _ "bc l"]) simp
next
  case (Suc k)
  let ?hw = "home_writes l (dev_disk (bc l))"
  obtain c where c: "fold_opt (install_one me True) [0..<k] l = Some (l\<lparr>bc := c\<rparr>)" "cache_inv me {} {} c"
     "dev_disk c = apply_writes (dev_disk (bc l)) (?hw k)" "dev_writes c = dev_writes (bc l) @ ?hw k"
    using Suc by auto
  have kn: "k < length (lh l)"
    using Suc.prems by simp
  have nb: "log_blk l k \<notin> set (lh l)"
    using log_blk_not_lh [OF dis, of k] kn n by simp
  have "log_blk l k \<notin> fst ` set (?hw k)"
    using fst_home_writes [of k l] kn nb by (meson less_imp_le subsetD)
  then have v: "cache_view c (log_blk l k) = dev_disk (bc l) (log_blk l k)"
    using view_clean [OF c(2), of "log_blk l k"] by (simp add: c(3) apply_writes_other)
  have lb: "log_blk (l\<lparr>bc := c\<rparr>) k = log_blk l k" and ne: "log_blk l k \<noteq> lh l ! k"
    using nb nth_mem [OF kn] by (simp add: log_blk_def, metis)
  have "\<exists>c'. install_one me True k (l\<lparr>bc := c\<rparr>) = Some (l\<lparr>bc := c'\<rparr>) \<and> cache_inv me {} {} c'
     \<and> dev_disk c' = (dev_disk c)(lh l ! k := cache_view c (log_blk l k))
     \<and> dev_writes c' = dev_writes c @ [(lh l ! k, cache_view c (log_blk l k))]"
    using install_one_spec [of me "{}" "l\<lparr>bc := c\<rparr>" True k] c(2) dev ne by (simp add: lb) blast
  then obtain c' where c': "install_one me True k (l\<lparr>bc := c\<rparr>) = Some (l\<lparr>bc := c'\<rparr>)" "cache_inv me {} {} c'"
     "dev_disk c' = (dev_disk c)(lh l ! k := dev_disk (bc l) (log_blk l k))"
     "dev_writes c' = dev_writes c @ [(lh l ! k, dev_disk (bc l) (log_blk l k))]"
    unfolding v by blast
  then show ?case
    by (intro exI [of _ c']) (simp add: fold_opt_Suc c del: upt_Suc)
qed

lemma recovery_run:
  assumes hd: "get_head (d s) = Some bs" and dis: "set bs \<inter> log_area s = {}"
  shows "\<exists>r. initlog me ROOTDEV s (binit d) = Some r \<and> log_ok me r \<and> lh r = [] \<and> log_start r = s
     \<and> dev_writes (bc r) = recovery_writes s d bs \<and> dev_disk (bc r) = apply_writes d (recovery_writes s d bs)"
proof -
  let ?l = "\<lparr>log_start = s, log_dev = ROOTDEV, l_outstanding = 0, committing = False, lh = [], bc = binit d\<rparr>"
  have d: "dev_disk (binit d) = d" "dev_writes (binit d) = []"
    by (simp_all add: binit_def)
  obtain c1 where 1: "read_head me ?l = Some (?l\<lparr>lh := bs, bc := c1\<rparr>)" "cache_inv me {} {} c1" "dev_disk c1 = d" "dev_writes c1 = []"
    using head_spec(1) [of me "{}" ?l bs] binit_inv hd by (auto simp: d)
  let ?l1 = "?l\<lparr>lh := bs, bc := c1\<rparr>"
  obtain c2 where 2: "install_trans me True ?l1 = Some (?l1\<lparr>bc := c2\<rparr>)" "cache_inv me {} {} c2"
     "dev_disk c2 = apply_writes d (home_writes ?l1 d (length bs))" "dev_writes c2 = home_writes ?l1 d (length bs)"
    using install_rec_spec [of me ?l1 "length bs"] 1 dis get_head_length [OF hd] by (auto simp: install_trans_def)
  have hw: "home_writes ?l1 d (length bs) = map (\<lambda>i. (bs ! i, d (s + of_nat i + 1))) [0..<length bs]"
    by (simp add: home_writes_def log_blk_def)
  have "s \<notin> fst ` set (home_writes ?l1 d (length bs))"
    unfolding hw using log_area_disj [OF dis] by (auto simp: set_conv_nth)
  then have "dev_disk c2 s = d s"
    by (simp add: 2(3) apply_writes_other)
  then obtain c3 where 3: "write_head me (?l\<lparr>lh := [], bc := c2\<rparr>) = Some (?l\<lparr>lh := [], bc := c3\<rparr>)" "cache_inv me {} {} c3"
     "dev_disk c3 = (dev_disk c2)(s := put_head (d s) [])" "dev_writes c3 = dev_writes c2 @ [(s, put_head (d s) [])]"
    using head_spec(2) [of me "{}" "?l\<lparr>lh := [], bc := c2\<rparr>"] 2(2) by auto
  have "initlog me ROOTDEV s (binit d) = Some (?l\<lparr>lh := [], bc := c3\<rparr>)"
    using 1(1) 2(1) 3(1) by (simp add: initlog_def recover_from_log_def)
  then show ?thesis
    using 2 [unfolded hw] 3 by (simp add: recovery_writes_def log_ok_def)
qed

section \<open>Crashes\<close>

text \<open>
  The disks that crashes can leave: a crash in the commit of \<open>l\<close>, then any number of crashes in the
  recoveries that follow.
\<close>

inductive crash :: "int \<Rightarrow> logstate \<Rightarrow> (u32 \<Rightarrow> block) \<Rightarrow> bool" for me l where
  in_commit: "commit me l = Some l' \<Longrightarrow> dev_writes (bc l') = dev_writes (bc l) @ ws
    \<Longrightarrow> crash me l (apply_writes (dev_disk (bc l)) (take j ws))"
| in_recovery: "crash me l d \<Longrightarrow> initlog me (log_dev l) (log_start l) (binit d) = Some r
    \<Longrightarrow> crash me l (apply_writes d (take j (dev_writes (bc r))))"

definition before :: "logstate \<Rightarrow> (u32 \<Rightarrow> block) \<Rightarrow> bool" where
  "before l d \<longleftrightarrow> get_head (d (log_start l)) = Some [] \<and> (\<forall>b. b \<notin> log_area (log_start l) \<longrightarrow> d b = dev_disk (bc l) b)"

definition during :: "logstate \<Rightarrow> (u32 \<Rightarrow> block) \<Rightarrow> bool" where
  "during l d \<longleftrightarrow> get_head (d (log_start l)) = Some (lh l)
     \<and> (\<forall>i < length (lh l). d (log_blk l i) = cache_view (bc l) (lh l ! i))
     \<and> (\<forall>b. b \<notin> log_area (log_start l) \<longrightarrow> b \<notin> set (lh l) \<longrightarrow> d b = cache_view (bc l) b)"

definition after :: "logstate \<Rightarrow> (u32 \<Rightarrow> block) \<Rightarrow> bool" where
  "after l d \<longleftrightarrow> get_head (d (log_start l)) = Some [] \<and> (\<forall>b. b \<notin> log_area (log_start l) \<longrightarrow> d b = cache_view (bc l) b)"

definition installs :: "logstate \<Rightarrow> (u32 \<times> block) list" where
  "installs l = map (\<lambda>i. (lh l ! i, cache_view (bc l) (lh l ! i))) [0..<length (lh l)]"

lemma fst_take: "fst ` set (take j ws) \<subseteq> fst ` set ws"
  by (auto dest: in_set_takeD)

lemma fst_installs: "fst ` set (installs l) = set (lh l)"
  by (force simp: installs_def set_conv_nth)

lemma during_install:
  assumes ok: "log_ok me l" and "during l d"
  shows "during l (apply_writes d (take j (installs l)))"
proof -
  have dis: "set (lh l) \<inter> log_area (log_start l) = {}" and n: "length (lh l) \<le> 30"
    using ok by (auto simp: log_ok_def)
  have same: "apply_writes d (take j (installs l)) b = d b" if "b \<notin> set (lh l)" for b
    using fst_take [of j "installs l"] fst_installs [of l] that by (intro apply_writes_other) blast
  have "log_blk l i \<notin> set (lh l)" if "i < length (lh l)" for i
    using log_blk_not_lh [OF dis, of i] n that by simp
  then show ?thesis
    using assms(2) same log_area_disj [OF dis] by (simp add: during_def)
qed

lemma during_installed:
  assumes ok: "log_ok me l" and "during l d"
  shows "after l ((apply_writes d (installs l))(log_start l := put_head x []))"
proof -
  have dis: "set (lh l) \<inter> log_area (log_start l) = {}"
    using ok by (auto simp: log_ok_def)
  have "apply_writes d (installs l) b = cache_view (bc l) b" if "b \<notin> log_area (log_start l)" for b
  proof (cases "b \<in> set (lh l)")
    case True
    then obtain i where i: "i < length (lh l)" "b = lh l ! i"
      by (auto simp: in_set_conv_nth)
    show ?thesis
      unfolding installs_def i(2) by (rule apply_writes_map [OF i(1), of "\<lambda>i. lh l ! i" "\<lambda>i. cache_view (bc l) (lh l ! i)"]) simp
  next
    case False
    then show ?thesis
      using assms(2) that fst_installs [of l] by (simp add: apply_writes_other during_def)
  qed
  then show ?thesis
    using log_start_area [of "log_start l"] get_put_head [of "[]" x] by (auto simp: after_def)
qed

lemma take_three: "take j (xs @ [y] @ zs) = (if j \<le> length xs then take j xs else xs @ [y] @ take (j - length xs - 1) zs)"
  by (cases "j - length xs") auto

lemma commit_writes_eq:
  "lh l \<noteq> [] \<Longrightarrow> commit_writes l = log_writes l (length (lh l)) @ [(log_start l, put_head (dev_disk (bc l) (log_start l)) (lh l))]
     @ installs l @ [(log_start l, put_head (put_head (dev_disk (bc l) (log_start l)) (lh l)) [])]"
  by (simp add: commit_writes_def installs_def)

lemma logged_other:
  assumes "b \<notin> log_area (log_start l) \<or> b = log_start l" "n \<le> 30"
  shows "apply_writes d (take j (log_writes l n)) b = d b"
  using fst_log_writes [OF assms(2), of l] fst_take [of j "log_writes l n"] assms(1) by (intro apply_writes_other) blast

lemma commit_point:
  assumes ok: "log_ok me l" and n: "length (lh l) < 30"
  shows "during l ((apply_writes (dev_disk (bc l)) (log_writes l (length (lh l))))
     (log_start l := put_head (dev_disk (bc l) (log_start l)) (lh l)))" (is "during l ?e")
proof -
  let ?s = "log_start l" and ?n = "length (lh l)"
  have inv: "cache_inv me (set (lh l)) {} (bc l)"
    using ok by (auto simp: log_ok_def)
  have "?e (log_blk l i) = cache_view (bc l) (lh l ! i)" if "i < ?n" for i
    using logged_blk [of ?n i "dev_disk (bc l)" l] n that log_blk_start [of i ?s] by (simp add: log_blk_def)
  moreover have "?e b = cache_view (bc l) b" if "b \<notin> log_area ?s" "b \<notin> set (lh l)" for b
    using that logged_other [of b l ?n "dev_disk (bc l)" ?n] n view_clean [OF inv that(2)] log_start_area [of ?s]
    by (auto simp: log_writes_def)
  ultimately show ?thesis
    using n by (simp add: during_def get_put_head)
qed

lemma commit_prefix:
  assumes ok: "log_ok me l" and n: "length (lh l) < 30" and hd: "get_head (dev_disk (bc l) (log_start l)) = Some []"
    and d: "d = apply_writes (dev_disk (bc l)) (take j (commit_writes l))"
  shows "before l d \<or> during l d \<or> after l d"
proof (cases "lh l = []")
  case True
  then show ?thesis
    using hd d by (simp add: commit_writes_def before_def)
next
  case False
  let ?s = "log_start l" and ?n = "length (lh l)"
  let ?h = "put_head (dev_disk (bc l) ?s) (lh l)"
  let ?k = "j - length (log_writes l ?n) - 1" and ?ws = "installs l @ [(?s, put_head ?h [])]"
  show ?thesis
  proof (cases "j \<le> length (log_writes l ?n)")
    case True
    have "before l d"
      unfolding d commit_writes_eq [OF False] take_three using True hd logged_other [of _ l ?n] n by (simp add: before_def)
    then show ?thesis by simp
  next
    case far: False
    note mid = commit_point [OF ok n]
    have d': "d = apply_writes ((apply_writes (dev_disk (bc l)) (log_writes l ?n))(?s := ?h)) (take ?k ?ws)"
      unfolding d commit_writes_eq [OF False] take_three using far by simp
    show ?thesis
    proof (cases "?k \<le> length (installs l)")
      case True
      then show ?thesis
        using during_install [OF ok mid, of ?k] by (simp add: d')
    next
      case False
      then have "take ?k ?ws = ?ws"
        by simp
      then show ?thesis
        using during_installed [OF ok mid, of ?h] by (simp add: d')
    qed
  qed
qed

lemma recovery_stable:
  assumes ok: "log_ok me l" and "before l d \<or> during l d \<or> after l d"
  shows "\<exists>r. initlog me (log_dev l) (log_start l) (binit d) = Some r \<and> lh r = [] \<and> log_ok me r
     \<and> (before l (dev_disk (bc r)) \<or> after l (dev_disk (bc r)))
     \<and> (let e = apply_writes d (take j (dev_writes (bc r))) in before l e \<or> during l e \<or> after l e)"
proof -
  let ?s = "log_start l"
  have dis: "set (lh l) \<inter> log_area ?s = {}" and dev: "log_dev l = ROOTDEV" and n: "length (lh l) \<le> 30"
    using ok by (auto simp: log_ok_def)
  have sa: "b \<noteq> ?s" if "b \<notin> log_area ?s" for b
    using that log_start_area by blast
  show ?thesis
  proof (cases "during l d")
    case True
    have w: "recovery_writes ?s d (lh l) = installs l @ [(?s, put_head (d ?s) [])]"
      using True by (auto simp: recovery_writes_def installs_def during_def log_blk_def)
    obtain r where r: "initlog me ROOTDEV ?s (binit d) = Some r" "log_ok me r" "lh r = []"
       "dev_writes (bc r) = installs l @ [(?s, put_head (d ?s) [])]" "dev_disk (bc r) = (apply_writes d (installs l))(?s := put_head (d ?s) [])"
      using recovery_run [of d ?s "lh l" me] True dis unfolding w by (auto simp: during_def)
    show ?thesis
      using r dev during_install [OF ok True, of j] during_installed [OF ok True, of "d ?s"]
      by (cases "j \<le> length (installs l)") (auto simp: Let_def)
  next
    case False
    then have hd: "get_head (d ?s) = Some []"
      using assms(2) by (auto simp: before_def after_def)
    obtain r where r: "initlog me ROOTDEV ?s (binit d) = Some r" "log_ok me r" "lh r = []"
       "dev_writes (bc r) = [(?s, put_head (d ?s) [])]" "dev_disk (bc r) = d(?s := put_head (d ?s) [])"
      using recovery_run [of d ?s "[]" me] hd by (auto simp: recovery_writes_def)
    have "before l (d(?s := put_head (d ?s) [])) \<or> after l (d(?s := put_head (d ?s) []))"
      using False assms(2) sa get_put_head [of "[]" "d ?s"] by (auto simp: before_def after_def)
    then show ?thesis
      using r dev False assms(2) by (cases j) (auto simp: Let_def)
  qed
qed

end
