(* ===== verification/Logspec.thy ===== *)
theory Logspec
  imports Log
begin

text \<open>
  The log and the buffer cache implement the logical disk on which the file system of \<open>Fs\<close> runs, and
  the bound on the size of a transaction that the buffer cache imposes. The facts on crashes of \<open>Log\<close>
  are instantiated at a small disk.
\<close>

section \<open>A transaction on a small disk\<close>

definition zero_buf :: buf where
  "zero_buf = \<lparr>b_valid = False, b_dev = 0, b_blockno = 0, b_lock = initsleeplock, b_refcnt = 0, b_data = \<lambda>_. 0\<rparr>"

definition demo_cache :: bcache where
  "demo_cache = \<lparr>bufs = (replicate NBUF zero_buf)[0 := \<lparr>b_valid = True, b_dev = ROOTDEV, b_blockno = 100, b_lock = initsleeplock,
      b_refcnt = 1, b_data = \<lambda>_. 7\<rparr>], lru = [0..<NBUF], dev_disk = \<lambda>_ _. 0, dev_writes = []\<rparr>"

definition demo_log :: logstate where
  "demo_log = \<lparr>log_start = 2, log_dev = ROOTDEV, l_outstanding = 1, committing = False, lh = [100], bc = demo_cache\<rparr>"

lemma demo_buf: "i < NBUF \<Longrightarrow> bufs demo_cache ! i = (if i = 0 then \<lparr>b_valid = True, b_dev = ROOTDEV, b_blockno = 100,
    b_lock = initsleeplock, b_refcnt = 1, b_data = \<lambda>_. 7\<rparr> else zero_buf)"
  by (simp add: demo_cache_def)

lemma demo_caches: "caches demo_cache b i \<longleftrightarrow> i = 0 \<and> b = 100"
  by (cases "i < NBUF") (auto simp: caches_def demo_buf zero_buf_def)

lemma demo_inv: "cache_inv me {100} {} demo_cache"
proof -
  have "buf_ok me {100} False (dev_disk demo_cache) (bufs demo_cache ! i)" if "i < NBUF" for i
    using that by (simp add: demo_buf) (simp add: buf_ok_def zero_buf_def)
  moreover have "length (bufs demo_cache) = NBUF" "distinct (lru demo_cache)" "set (lru demo_cache) = {..<NBUF}"
    by (auto simp: demo_cache_def simp del: upt_rec_numeral)
  ultimately show ?thesis
    by (simp add: cache_inv_def demo_caches demo_buf)
qed

lemma demo_view: "cache_view demo_cache 100 = (\<lambda>_. 7)"
  using view_cached [OF demo_inv, of 100 0] by (simp add: demo_caches demo_buf)

lemma small_word_ne: "n < 40 \<Longrightarrow> (2 :: u32) + of_nat n + 1 \<noteq> 100"
proof
  assume "n < 40" and "(2 :: u32) + of_nat n + 1 = 100"
  then have "(of_nat (n + 3) :: u32) = of_nat 100"
    by (simp add: algebra_simps)
  then show False
    using \<open>n < 40\<close> by (subst (asm) word_of_nat_eq_iff) (simp add: take_bit_nat_eq_self)
qed

lemma demo_ok: "log_ok me demo_log" "length (lh demo_log) < 30" "get_head (dev_disk (bc demo_log) (log_start demo_log)) = Some []"
  using demo_inv [of me] small_word_ne
  by (auto simp: log_ok_def demo_log_def log_area_def get_head_def demo_cache_def)

lemma demo_crash: "crash 1 demo_log (apply_writes (dev_disk demo_cache) (take 2 (commit_writes demo_log)))"
proof -
  obtain c' where "commit 1 demo_log = Some (demo_log\<lparr>lh := [], bc := c'\<rparr>)" "dev_writes c' = dev_writes (bc demo_log) @ commit_writes demo_log"
    using commit_run [OF demo_ok(1,2)] by blast
  then show ?thesis
    using crash.in_commit [of 1 demo_log "demo_log\<lparr>lh := [], bc := c'\<rparr>" "commit_writes demo_log" 2] by (simp add: demo_log_def)
qed

lemma demo_home: "(100 :: u32) \<notin> log_area 2"
  using small_word_ne by (auto simp: log_area_def)

section \<open>Crashes and commits\<close>

text \<open>
  C1: transactions are atomic across crashes. However often the machine crashes, in the commit of a
  transaction and in the recoveries after it, the recovery that completes leaves every block outside
  the log as it was on disk before the transaction, or every one as the transaction made it.
\<close>

theorem crash_atomic:
  assumes "log_ok me l" and "length (lh l) < 30" and "get_head (dev_disk (bc l) (log_start l)) = Some []" and "crash me l d"
  shows "\<exists>r. initlog me (log_dev l) (log_start l) (binit d) = Some r \<and> lh r = [] \<and> log_ok me r
     \<and> get_head (dev_disk (bc r) (log_start l)) = Some []
     \<and> ((\<forall>b. b \<notin> log_area (log_start l) \<longrightarrow> dev_disk (bc r) b = dev_disk (bc l) b)
        \<or> (\<forall>b. b \<notin> log_area (log_start l) \<longrightarrow> dev_disk (bc r) b = cache_view (bc l) b))"
proof -
  have "before l d \<or> during l d \<or> after l d"
    using assms(4)
  proof induction
    case (in_commit l' ws j)
    then have "ws = commit_writes l"
      using commit_run [OF assms(1,2)] by auto
    then show ?case
      using commit_prefix [OF assms(1-3)] by blast
  next
    case (in_recovery d r j)
    then show ?case
      using recovery_stable [OF assms(1) in_recovery.IH, of j] by (auto simp: Let_def)
  qed
  from recovery_stable [OF assms(1) this, of 0] show ?thesis
    by (auto simp: before_def after_def)
qed

theorem crash_atomic_witness:
  "\<exists>d r. crash 1 demo_log d \<and> initlog 1 ROOTDEV 2 (binit d) = Some r \<and> lh r = []
     \<and> (dev_disk (bc r) 100 = (\<lambda>_. 0) \<or> dev_disk (bc r) 100 = (\<lambda>_. 7))"
proof -
  let ?d = "apply_writes (dev_disk demo_cache) (take 2 (commit_writes demo_log))"
  obtain r where "initlog 1 ROOTDEV 2 (binit ?d) = Some r" "lh r = []"
    "dev_disk (bc r) 100 = dev_disk demo_cache 100 \<or> dev_disk (bc r) 100 = cache_view demo_cache 100"
    using crash_atomic [OF demo_ok(1) [of 1] demo_ok(2,3) demo_crash] demo_home by (auto simp: demo_log_def)
  then show ?thesis
    using demo_crash by (intro exI [of _ ?d] exI [of _ r]) (auto simp: demo_view, auto simp: demo_cache_def)
qed

lemma commit_after:
  assumes "log_ok me l" and "length (lh l) < 30" and "get_head (dev_disk (bc l) (log_start l)) = Some []"
  shows "\<exists>c'. commit me l = Some (l\<lparr>lh := [], bc := c'\<rparr>) \<and> log_ok me (l\<lparr>lh := [], bc := c'\<rparr>)
     \<and> get_head (dev_disk c' (log_start l)) = Some []
     \<and> (\<forall>b. b \<notin> log_area (log_start l) \<longrightarrow> dev_disk c' b = cache_view (bc l) b \<and> cache_view c' b = cache_view (bc l) b)"
proof -
  obtain c' where c: "commit me l = Some (l\<lparr>lh := [], bc := c'\<rparr>)" "cache_inv me {} {} c'"
     "dev_disk c' = apply_writes (dev_disk (bc l)) (commit_writes l)"
    using commit_run [OF assms(1,2)] by auto
  have "after l (dev_disk c')"
  proof (cases "lh l = []")
    case True
    then show ?thesis
      using assms view_clean [of me "{}" "bc l"] by (simp add: c(3) commit_writes_def after_def log_ok_def)
  next
    case False
    then show ?thesis
      using during_installed [OF assms(1) commit_point [OF assms(1,2)]] by (simp add: c(3) commit_writes_eq)
  qed
  then show ?thesis
    using c assms(1) view_clean [OF c(2)] by (auto simp: after_def log_ok_def)
qed

text \<open>
  C18: a commit of at most 29 blocks succeeds and is durable: it writes every block of the transaction
  to its home location, keeps what readers of the cache see, empties the log and unpins the cache.
\<close>

theorem commit_durable:
  assumes "log_ok me l" and "length (lh l) < 30" and "get_head (dev_disk (bc l) (log_start l)) = Some []"
  shows "\<exists>l'. commit me l = Some l' \<and> lh l' = [] \<and> log_ok me l' \<and> get_head (dev_disk (bc l') (log_start l)) = Some []
     \<and> (\<forall>b. b \<notin> log_area (log_start l) \<longrightarrow> dev_disk (bc l') b = cache_view (bc l) b \<and> cache_view (bc l') b = cache_view (bc l) b)"
  using commit_after [OF assms] by auto

theorem commit_durable_witness:
  "\<exists>l'. commit 1 demo_log = Some l' \<and> lh l' = [] \<and> dev_disk (bc l') 100 = (\<lambda>_. 7)"
  using commit_durable [OF demo_ok(1) [of 1] demo_ok(2,3)] demo_home demo_view by (auto simp: demo_log_def)

section \<open>The logical disk\<close>

text \<open>
  The file system's view of its disk: what the cache holds outside the log, with the log's count of
  operations and list of blocks. \<open>txn_write\<close> is the use of the log that \<open>log.c\<close> prescribes: read a
  block, change the data, \<open>log_write\<close>, \<open>brelse\<close>.
\<close>

definition logical :: "int \<Rightarrow> fsys \<Rightarrow> logstate \<Rightarrow> bool" where
  "logical me s l \<longleftrightarrow> log_ok me l \<and> \<not> committing l \<and> get_head (dev_disk (bc l) (log_start l)) = Some []
     \<and> lh_block s = lh l \<and> outstanding s = l_outstanding l
     \<and> (\<forall>b. b \<notin> log_area (log_start l) \<longrightarrow> disk s b = cache_view (bc l) b)"

definition txn_write :: "int \<Rightarrow> u32 \<Rightarrow> (block \<Rightarrow> block) \<Rightarrow> logstate \<Rightarrow> logstate option" where
  "txn_write me b f l = do {
     (i, c1) \<leftarrow> bread_buf me (bc l) (log_dev l) b;
     let c2 = set_data i (f (b_data (bufs c1 ! i))) c1;
     l2 \<leftarrow> l_log_write i (l\<lparr>bc := c2\<rparr>);
     c3 \<leftarrow> brelse me i (bc l2);
     Some (l2\<lparr>bc := c3\<rparr>)
   }"

lemma logical_begin: "logical me s l \<Longrightarrow> rel_option (logical me) (begin_op s) (l_begin_op l)"
  by (auto simp: begin_op_def l_begin_op_def logical_def log_ok_def)

lemma txn_modified:
  assumes "logical me s l" "length (lh l) < 30"
  shows "\<exists>i c1 c2. bread_buf me (bc l) (log_dev l) b = Some (i, c1) \<and> c2 = set_data i (f (b_data (bufs c1 ! i))) c1
     \<and> cache_inv me (set (lh l)) {i} c2 \<and> b_blockno (bufs c2 ! i) = b \<and> cache_view c2 = (cache_view (bc l))(b := f (cache_view (bc l) b))
     \<and> dev_disk c2 = dev_disk (bc l)"
proof -
  have inv: "cache_inv me (set (lh l)) {} (bc l)" and dev: "log_dev l = ROOTDEV"
    using assms by (auto simp: logical_def log_ok_def)
  have "card (set (lh l)) < NBUF"
    using card_length [of "lh l"] assms(2) by simp
  then obtain i c1 where 1: "bread_buf me (bc l) ROOTDEV b = Some (i, c1)" "cache_inv me (set (lh l)) {i} c1" "caches c1 b i"
     "b_data (bufs c1 ! i) = cache_view (bc l) b" "cache_view c1 = cache_view (bc l)" "dev_disk c1 = dev_disk (bc l)"
    using bread_buf_spec [OF inv, of b] by auto
  then have "b_blockno (bufs c1 ! i) = b"
    by (simp add: caches_def)
  then show ?thesis
    using set_data_spec [OF 1(2), of i "f (cache_view (bc l) b)"] 1 dev by auto
qed

lemma l_log_write_bc:
  "l_log_write i (l\<lparr>bc := c\<rparr>) =
     (if int (length (lh l)) \<ge> LOGBLOCKS \<or> l_outstanding l < 1 then None
      else if b_blockno (bufs c ! i) \<in> set (lh l) then Some (l\<lparr>bc := c\<rparr>)
      else Some (l\<lparr>lh := lh l @ [b_blockno (bufs c ! i)], bc := bpin i c\<rparr>))"
  by (cases l) (simp add: l_log_write_def Let_def)

lemma logical_write:
  assumes R: "logical me s l" and b: "b \<notin> log_area (log_start l)"
  shows "rel_option (logical me) (log_write (set_block b (f (bread s b)) s) b) (txn_write me b f l)"
proof (cases "length (lh l) < 30 \<and> 1 \<le> l_outstanding l")
  case False
  then have "log_write (set_block b (f (bread s b)) s) b = None"
    using R by (auto simp: log_write_def set_block_def logical_def)
  moreover have "txn_write me b f l = None"
    using False by (auto simp: txn_write_def l_log_write_bc bind_eq_None_conv)
  ultimately show ?thesis by simp
next
  case True
  let ?P = "set (lh l)" and ?v = "(cache_view (bc l))(b := f (cache_view (bc l) b))"
  obtain i c1 c2 where 2: "bread_buf me (bc l) (log_dev l) b = Some (i, c1)" "c2 = set_data i (f (b_data (bufs c1 ! i))) c1"
     "cache_inv me ?P {i} c2" "b_blockno (bufs c2 ! i) = b" "cache_view c2 = ?v" "dev_disk c2 = dev_disk (bc l)"
    using txn_modified [OF R] True by blast
  define bs where "bs = (if b \<in> ?P then lh l else lh l @ [b])"
  define c3 where "c3 = (if b \<in> ?P then c2 else bpin i c2)"
  have 3: "cache_inv me (set bs) {i} c3" "b_blockno (bufs c3 ! i) = b" "cache_view c3 = ?v" "dev_disk c3 = dev_disk (bc l)"
    using bpin_spec [OF 2(3), of i] 2 by (auto simp: bs_def c3_def)
  obtain c4 where 4: "brelse me i c3 = Some c4" "cache_inv me (set bs) {} c4" "cache_view c4 = ?v" "dev_disk c4 = dev_disk (bc l)"
    using brelse_spec [OF 3(1), of i] 3 by (auto simp: bs_def split: if_splits)
  have "l_log_write i (l\<lparr>bc := c2\<rparr>) = Some (l\<lparr>lh := bs, bc := c3\<rparr>)"
    using True by (auto simp: l_log_write_bc 2(4) bs_def c3_def)
  then have run: "txn_write me b f l = Some (l\<lparr>lh := bs, bc := c4\<rparr>)"
    by (simp add: txn_write_def 2(1) 2(2) [symmetric] 4(1))
  have "log_write (set_block b (f (bread s b)) s) b = Some (s\<lparr>disk := (disk s)(b := f (disk s b)), lh_block := bs\<rparr>)"
    using R True by (cases s) (auto simp: log_write_def set_block_def bread_def bs_def logical_def)
  moreover have "logical me (s\<lparr>disk := (disk s)(b := f (disk s b)), lh_block := bs\<rparr>) (l\<lparr>lh := bs, bc := c4\<rparr>)"
    using R b 4 True by (auto simp: logical_def log_ok_def bs_def split: if_splits)
  ultimately show ?thesis
    by (simp add: run)
qed

lemma logical_end:
  assumes R: "logical me s l" and n: "length (lh l) < 30"
  shows "\<exists>l'. l_end_op me l = Some l' \<and> logical me (end_op s) l'"
proof (cases "l_outstanding l = 1")
  case False
  then show ?thesis
    using R by (auto simp: l_end_op_def end_op_def logical_def log_ok_def Let_def)
next
  case True
  let ?l = "l\<lparr>l_outstanding := 0, committing := True\<rparr>"
  have ok: "log_ok me ?l" "length (lh ?l) < 30" "get_head (dev_disk (bc ?l) (log_start ?l)) = Some []"
    using R n by (auto simp: logical_def log_ok_def)
  obtain c' where c: "commit me ?l = Some (?l\<lparr>lh := [], bc := c'\<rparr>)" "log_ok me (?l\<lparr>lh := [], bc := c'\<rparr>)"
    "get_head (dev_disk c' (log_start l)) = Some []" "\<And>b. b \<notin> log_area (log_start l) \<Longrightarrow> cache_view c' b = cache_view (bc l) b"
    using commit_after [OF ok] by auto
  then show ?thesis
    using R True c by (auto simp: l_end_op_def end_op_def logical_def log_ok_def Let_def)
qed

text \<open>
  C5: the log and the buffer cache implement the logical disk of the file system: \<open>begin_op\<close>, a
  logged write of a block and \<open>end_op\<close> on the cache, log and disk do what the operations of the
  same name do on the logical disk, panics included; only the commit of a transaction that fills
  the whole log is excluded.
\<close>

theorem log_refines_disk:
  assumes "logical me s l" and "b \<notin> log_area (log_start l)" and "length (lh l) < 30"
  shows "rel_option (logical me) (begin_op s) (l_begin_op l)
     \<and> rel_option (logical me) (log_write (set_block b (f (bread s b)) s) b) (txn_write me b f l)
     \<and> (\<exists>l'. l_end_op me l = Some l' \<and> logical me (end_op s) l')"
  using logical_begin [OF assms(1)] logical_write [OF assms(1,2)] logical_end [OF assms(1,3)] by blast

section \<open>The largest transaction\<close>

text \<open>
  C19: a transaction of \<open>LOGBLOCKS\<close> blocks, which \<open>begin_op\<close> and \<open>log_write\<close> allow, cannot be
  committed: its pins use up all \<open>NBUF\<close> buffers, and the commit panics when it reads the first
  block of the log.
\<close>

theorem full_log_panics:
  assumes "log_ok me l" and "length (lh l) = 30"
  shows "commit me l = None"
proof -
  let ?c = "bc l"
  have inv: "cache_inv me (set (lh l)) {} ?c" and dev: "log_dev l = ROOTDEV" and card: "card (set (lh l)) = NBUF"
    and dis: "set (lh l) \<inter> log_area (log_start l) = {}"
    using assms by (auto simp: log_ok_def distinct_card)
  obtain g where g: "\<And>b. b \<in> set (lh l) \<Longrightarrow> caches ?c b (g b)"
    using cache_invD(7) [OF inv] by metis
  have inj: "inj_on g (set (lh l))"
    using g by (intro inj_onI) (metis caches_def)
  have "g ` set (lh l) = {..<NBUF}"
    by (rule card_subset_eq) (use g card_image [OF inj] card in \<open>auto simp: caches_def\<close>)
  then have all: "\<exists>b \<in> set (lh l). caches ?c b i" if "i < NBUF" for i
    using that g by (metis imageE lessThan_iff)
  have "\<not> caches ?c (log_blk l 0) i" for i
    using all [of i] log_blk_not_lh [OF dis, of 0] by (auto simp: caches_def)
  then have 1: "find (\<lambda>i. b_dev (bufs ?c ! i) = ROOTDEV \<and> b_blockno (bufs ?c ! i) = log_blk l 0) (lru ?c) = None"
    using cache_invD(3) [OF inv] by (intro find_NoneI) (auto simp: caches_def)
  have "b_refcnt (bufs ?c ! i) \<noteq> 0" if "i < NBUF" for i
    using all [OF that] cache_invD(6) [OF inv that] by (auto simp: buf_ok_def caches_def)
  then have 2: "find (\<lambda>i. b_refcnt (bufs ?c ! i) = 0) (rev (lru ?c)) = None"
    using cache_invD(3) [OF inv] by (intro find_NoneI) auto
  have "write_log_one me 0 l = None"
    by (simp add: write_log_one_def bread_buf_def bget_def dev 1 2)
  moreover have "[0..<length (lh l)] = 0 # [1..<length (lh l)]"
    using assms(2) by (simp add: upt_conv_Cons)
  ultimately have "write_log me l = None"
    by (simp add: write_log_def)
  then show ?thesis
    using assms(2) by (auto simp: commit_def)
qed

definition demo_sb :: superblock where
  "demo_sb = \<lparr>magic = FSMAGIC, sb_size = 2000, nblocks = 1954, ninodes = 200, nlog = 31, logstart = 2, inodestart = 33, bmapstart = 46\<rparr>"

definition demo_fs :: fsys where
  "demo_fs = \<lparr>sb = demo_sb, disk = cache_view demo_cache, lh_block = [100], outstanding = 1, itable = []\<rparr>"

lemma demo_logical: "logical 1 demo_fs demo_log"
  using demo_ok(1) [of 1] demo_ok(2,3) by (simp add: logical_def demo_fs_def) (simp add: demo_log_def)

theorem log_refines_disk_witness:
  "\<exists>l'. l_end_op 1 demo_log = Some l' \<and> logical 1 (end_op demo_fs) l'"
  using log_refines_disk [OF demo_logical, of 100 "\<lambda>_ _. 9"] demo_home demo_ok(2) by (simp add: demo_log_def)

text \<open>A cache in which a transaction of 30 blocks has pinned every buffer.\<close>

definition full_cache :: bcache where
  "full_cache = \<lparr>bufs = map (\<lambda>i. \<lparr>b_valid = True, b_dev = ROOTDEV, b_blockno = of_nat (i + 100), b_lock = initsleeplock,
      b_refcnt = 1, b_data = \<lambda>_. 7\<rparr>) [0..<NBUF], lru = [0..<NBUF], dev_disk = \<lambda>_ _. 0, dev_writes = []\<rparr>"

definition full_log :: logstate where
  "full_log = \<lparr>log_start = 2, log_dev = ROOTDEV, l_outstanding = 1, committing = False,
     lh = map (\<lambda>i. of_nat (i + 100)) [0..<NBUF], bc = full_cache\<rparr>"

lemma of_nat_small_u32: "i < 200 \<Longrightarrow> j < 200 \<Longrightarrow> (of_nat i :: u32) = of_nat j \<longleftrightarrow> i = j"
  by (subst word_of_nat_eq_iff) (simp add: take_bit_nat_eq_self)

lemma full_buf: "i < NBUF \<Longrightarrow> bufs full_cache ! i = \<lparr>b_valid = True, b_dev = ROOTDEV, b_blockno = of_nat (i + 100),
    b_lock = initsleeplock, b_refcnt = 1, b_data = \<lambda>_. 7\<rparr>"
  by (simp add: full_cache_def del: upt_rec_numeral of_nat_add)

lemma full_caches: "caches full_cache b i \<longleftrightarrow> i < NBUF \<and> b = of_nat (i + 100)"
  by (cases "i < NBUF") (auto simp: caches_def full_buf simp del: of_nat_add)

lemma full_ok: "log_ok 1 full_log" "length (lh full_log) = 30"
proof -
  have area: "(of_nat (i + 100) :: u32) \<notin> log_area 2" if "i < NBUF" for i
  proof
    assume "(of_nat (i + 100) :: u32) \<in> log_area 2"
    then have "(of_nat (i + 100) :: u32) = of_nat 2 \<or> (\<exists>k < 30. (of_nat (i + 100) :: u32) = of_nat (k + 3))"
      by (auto simp: log_area_def)
    then obtain m where "m < 40" "(of_nat (i + 100) :: u32) = of_nat m"
    proof
      assume "\<exists>k < 30. (of_nat (i + 100) :: u32) = of_nat (k + 3)"
      then obtain k where "k < 30" "(of_nat (i + 100) :: u32) = of_nat (k + 3)" by blast
      with that [of "k + 3"] show thesis by simp
    qed (use that [of 2] in simp)
    then show False
      using of_nat_small_u32 [of "i + 100" m] \<open>i < NBUF\<close> by simp
  qed
  have "cache_inv 1 (set (lh full_log)) {} full_cache"
  proof -
    have "buf_ok 1 (set (lh full_log)) False (dev_disk full_cache) (bufs full_cache ! i)" if "i < NBUF" for i
      using that unfolding full_buf [OF that] by (simp add: buf_ok_def full_log_def del: upt_rec_numeral of_nat_add)
    moreover have "length (bufs full_cache) = NBUF" "distinct (lru full_cache)" "set (lru full_cache) = {..<NBUF}"
      by (auto simp: full_cache_def simp del: upt_rec_numeral)
    moreover have "\<exists>i. i < NBUF \<and> b = of_nat (i + 100) \<and> b_valid (bufs full_cache ! i)" if "b \<in> set (lh full_log)" for b
      using that by (auto simp: full_log_def full_buf simp del: upt_rec_numeral of_nat_add)
    ultimately show ?thesis
      unfolding cache_inv_def full_caches using of_nat_small_u32 by (auto simp del: of_nat_add)
  qed
  then show "log_ok 1 full_log"
    using area by (auto simp: log_ok_def full_log_def distinct_map inj_on_def of_nat_small_u32 simp del: upt_rec_numeral of_nat_add)
  show "length (lh full_log) = 30"
    by (simp add: full_log_def)
qed

theorem full_log_panics_witness: "commit 1 full_log = None"
  by (rule full_log_panics [OF full_ok])

end
