(* ===== verification/Usercopy.thy ===== *)
theory Usercopy
  imports Pager
begin

text \<open>
  User memory as bytes, and what \<open>copyin\<close> and \<open>copyout\<close> do on mapped ranges of it: no fault is
  taken, so no page is replaced and the allocator does not matter.
\<close>

definition user_byte :: "phys \<Rightarrow> u64 \<Rightarrow> u64 \<Rightarrow> u8 option" where
  "user_byte s r va = map_option (\<lambda>bs. bs ! unat (va - PGROUNDDOWN va)) (page_of s r (PGROUNDDOWN va))"

definition writable :: "phys \<Rightarrow> u64 \<Rightarrow> u64 \<Rightarrow> bool" where
  "writable s r va \<longleftrightarrow> upage s r (PGROUNDDOWN va) \<and> pte_of (mem s) r (PGROUNDDOWN va) AND PTE_W \<noteq> 0"

lemma page_off: "va - PGROUNDDOWN va < PGSIZE" "unat (va - PGROUNDDOWN va) < 4096"
proof -
  show "va - PGROUNDDOWN va < PGSIZE" by (simp add: in_page_iff)
  then show "unat (va - PGROUNDDOWN va) < 4096" by (simp add: word_less_nat_alt)
qed

lemma user_byte_upage:
  "user_byte s r va = (if upage s r (PGROUNDDOWN va) then Some (mem s (frame_of s r (PGROUNDDOWN va) + (va - PGROUNDDOWN va))) else None)"
  using page_off(2) [of va] by (simp add: user_byte_def page_of_def mem_bytes_def)

lemma user_byte_SomeD: "user_byte s r va \<noteq> None \<Longrightarrow> upage s r (PGROUNDDOWN va)"
  by (auto simp: user_byte_upage split: if_split_asm)

lemma frame_nonzero:
  assumes "space_ok s r xs" "upage s r va"
  shows "frame_of s r va \<noteq> 0"
  using space_okD(1,2) [OF assms(1)] assms(2) pt_inv_kmem by (fastforce simp: ram_page_def kmem_inv_def)

text \<open>The part of a range that lies in the page of its first address.\<close>

lemma chunk_page:
  assumes "j < unat (PGSIZE - (a - PGROUNDDOWN a))"
  shows "PGROUNDDOWN (a + of_nat j) = PGROUNDDOWN a"
    "a + of_nat j - PGROUNDDOWN a = of_nat (unat (a - PGROUNDDOWN a) + j)"
proof -
  have o: "unat (a - PGROUNDDOWN a) < 4096" by (rule page_off)
  have "unat (PGSIZE - (a - PGROUNDDOWN a)) = 4096 - unat (a - PGROUNDDOWN a)"
    using page_off(1) [of a] by (simp add: unat_sub word_le_nat_alt word_less_nat_alt)
  then have l: "unat (a - PGROUNDDOWN a) + j < 4096" using assms by linarith
  show e: "a + of_nat j - PGROUNDDOWN a = of_nat (unat (a - PGROUNDDOWN a) + j)"
    by (simp add: algebra_simps)
  have "unat (of_nat (unat (a - PGROUNDDOWN a) + j) :: u64) = unat (a - PGROUNDDOWN a) + j"
    using l by (simp add: unat_of_nat del: of_nat_add)
  then have "a + of_nat j - PGROUNDDOWN a < PGSIZE"
    using e l by (simp add: word_less_nat_alt del: of_nat_add)
  then show "PGROUNDDOWN (a + of_nat j) = PGROUNDDOWN a"
    using in_page_iff [of "PGROUNDDOWN a" "a + of_nat j"] by simp
qed

lemma chunk_end: "a + of_nat (unat (PGSIZE - (a - PGROUNDDOWN a))) = PGROUNDDOWN a + PGSIZE"
  by simp

lemma mapped_walkaddr:
  assumes "space_ok s r xs" "upage s r va"
  shows "walkaddr s r va = Some (frame_of s r va)"
  using assms walkaddr_spec [OF space_okD(1) [OF assms(1)], of va] by (simp add: upage_def user_pte_def frame_of_def)

lemma map_upt_split: "m \<le> n \<Longrightarrow> map g [0..<m] @ map (\<lambda>j. g (m + j)) [0..<n - m] = map g [0..<n]"
  by (rule nth_equalityI) (auto simp: nth_append)

lemma copyin_mapped:
  assumes "space_ok (ph k) pt xs" "\<And>j. j < n \<Longrightarrow> user_byte (ph k) pt (a + of_nat j) \<noteq> None"
  shows "copyin_with alloc pt a n k = Some (0, map (\<lambda>j. the (user_byte (ph k) pt (a + of_nat j))) [0..<n], k)"
  using assms(2)
proof (induction n arbitrary: a rule: less_induct)
  case (less n)
  show ?case
  proof (cases "n = 0")
    case True
    then show ?thesis by (simp add: copyin_with.simps)
  next
    case False
    let ?va0 = "PGROUNDDOWN a" and ?c = "unat (PGSIZE - (a - PGROUNDDOWN a))"
    let ?n = "min ?c n" and ?f = "frame_of (ph k) pt (PGROUNDDOWN a)"
    have up: "upage (ph k) pt ?va0" using user_byte_SomeD less.prems [of 0] False by simp
    note w = mapped_walkaddr [OF assms(1) up] and f0 = frame_nonzero [OF assms(1) up]
    have pos: "0 < ?n" using page_chunk_pos [of a] False by simp
    have bs: "mem_bytes (mem (ph k)) (?f + (a - ?va0)) ?n = map (\<lambda>j. the (user_byte (ph k) pt (a + of_nat j))) [0..<?n]"
    proof (rule nth_equalityI)
      fix j assume "j < length (mem_bytes (mem (ph k)) (?f + (a - ?va0)) ?n)"
      then have j: "j < ?n" by simp
      then show "mem_bytes (mem (ph k)) (?f + (a - ?va0)) ?n ! j = map (\<lambda>j. the (user_byte (ph k) pt (a + of_nat j))) [0..<?n] ! j"
        using chunk_page [of j a] up by (simp add: mem_bytes_def user_byte_upage algebra_simps)
    qed simp
    have next': "copyin_with alloc pt (?va0 + PGSIZE) (n - ?n) k = Some (0, map (\<lambda>j. the (user_byte (ph k) pt (a + of_nat (?n + j)))) [0..<n - ?n], k)"
    proof (cases "?c < n")
      case True
      then have e: "?va0 + PGSIZE + of_nat j = a + of_nat (?n + j)" for j
        using chunk_end [of a] by (simp add: algebra_simps)
      show ?thesis
        using less.IH [of "n - ?n" "?va0 + PGSIZE"] pos less.prems [of "?n + _"] False unfolding e by auto
    next
      case False
      then show ?thesis by (simp add: copyin_with.simps)
    qed
    note split = map_upt_split [of ?n n "\<lambda>j. the (user_byte (ph k) pt (a + of_nat j))"]
    show ?thesis
      using False up w f0 bs next' split by (subst copyin_with.simps) (simp add: Let_def upage_def not_le del: of_nat_add)
  qed
qed

text \<open>Storing bytes in one mapped page.\<close>

lemma user_store:
  assumes ok: "space_ok s r xs" and up: "upage s r va0" and len: "off + length bs \<le> 4096"
  defines "s' \<equiv> s\<lparr>mem := store_bytes (mem s) (frame_of s r va0 + of_nat off) bs\<rparr>"
  shows "space_ok s' r xs" "\<And>va. pte_of (mem s') r va = pte_of (mem s) r va"
    "\<And>y. PGROUNDDOWN y \<noteq> frame_of s r va0 \<Longrightarrow> mem s' y = mem s y"
    "user_byte s' r va = (if PGROUNDDOWN va = va0 \<and> off \<le> unat (va - va0) \<and> unat (va - va0) < off + length bs
       then Some (bs ! (unat (va - va0) - off)) else user_byte s r va)"
proof -
  let ?f = "frame_of s r va0" and ?m = "store_bytes (mem s) (frame_of s r va0 + of_nat off) bs"
  have al: "page_aligned ?f" using space_okD(2) [OF ok up] by auto
  have in_f: "?m (?f + of_nat i) = (if off \<le> i \<and> i < off + length bs then bs ! (i - off) else mem s (?f + of_nat i))" if "i < 4096" for i
  proof -
    have e: "?f + of_nat i - (?f + of_nat off) = of_nat i - of_nat off" by simp
    have "unat (of_nat i - of_nat off :: u64) = (if off \<le> i then i - off else 2 ^ 64 - (off - i))"
      using that len by (auto simp: unat_of_nat unat_sub_if' word_le_nat_alt unat_word_ariths)
    then show ?thesis
      unfolding store_bytes_def e using that len by auto
  qed
  show fr: "mem s' y = mem s y" if "PGROUNDDOWN y \<noteq> ?f" for y
  proof -
    have "\<not> unat (y - (?f + of_nat off)) < length bs"
    proof
      assume a: "unat (y - (?f + of_nat off)) < length bs"
      define j where "j = unat (y - (?f + of_nat off))"
      have "y = ?f + of_nat (off + j)" unfolding j_def by simp
      moreover have "off + j < 4096" using a len by (simp add: j_def)
      ultimately show False using page_offset [OF al] that by blast
    qed
    then show ?thesis by (simp add: s'_def store_bytes_def)
  qed
  have fm: "?m y = mem s y" if "PGROUNDDOWN y \<noteq> ?f" for y
    using fr [OF that] by (simp add: s'_def)
  note inv = space_okD(1) [OF ok]
  have t: "?m y = mem s y" if "PGROUNDDOWN y \<in> pt_pages (mem s) r" for y
    by (rule fm) (use that space_okD(3) [OF ok up] in auto)
  have free: "free_chain ?m (freelist s) xs = free_chain (mem s) (freelist s) xs"
  proof (rule free_chain_cong)
    show "?m y = mem s y" if "z \<in> set xs" "PGROUNDDOWN y = z" for z y
      by (rule fm) (use that space_okD(4) [OF ok up] in auto)
  qed (use pt_inv_kmem [OF inv] in \<open>auto simp: kmem_inv_def ram_page_def\<close>)
  then have km: "kmem_inv s' xs" using pt_inv_kmem [OF inv] by (simp add: kmem_inv_def s'_def)
  have pp: "pt_pages ?m r = pt_pages (mem s) r" and pe: "pte_of ?m r va = pte_of (mem s) r va" for va
    using pt_same [OF inv t] by auto
  show pe': "pte_of (mem s') r va = pte_of (mem s) r va" for va using pe by (simp add: s'_def)
  have "pt_inv s' r xs" unfolding s'_def
    by (rule pt_inv_same [OF inv _ km [unfolded s'_def]]) (use t inv in \<open>auto simp: pt_inv_def\<close>)
  then show "space_ok s' r xs"
    using space_okD(2-5) [OF ok] pp pe unfolding space_ok_def by (simp add: s'_def upage_def frame_of_def)
  have ms': "mem s' = ?m" by (simp add: s'_def)
  have ub: "upage s' r vb = upage s r vb" "frame_of s' r vb = frame_of s r vb" for vb
    using pe' by (simp_all add: upage_def frame_of_def)
  show "user_byte s' r va = (if PGROUNDDOWN va = va0 \<and> off \<le> unat (va - va0) \<and> unat (va - va0) < off + length bs
       then Some (bs ! (unat (va - va0) - off)) else user_byte s r va)"
  proof (cases "PGROUNDDOWN va = va0")
    case True
    then show ?thesis
      using up in_f [OF page_off(2) [of va]] unfolding user_byte_upage ub ms' True by simp
  next
    case False
    have "mem s' (frame_of s r (PGROUNDDOWN va) + (va - PGROUNDDOWN va)) = mem s (frame_of s r (PGROUNDDOWN va) + (va - PGROUNDDOWN va))"
      if u: "upage s r (PGROUNDDOWN va)"
    proof (rule fr)
      have "page_aligned (frame_of s r (PGROUNDDOWN va))" using space_okD(2) [OF ok u] by auto
      from page_offset [OF this page_off(2) [of va]]
      show "PGROUNDDOWN (frame_of s r (PGROUNDDOWN va) + (va - PGROUNDDOWN va)) \<noteq> ?f"
        using space_okD(5) [OF ok u up] False by auto
    qed
    then show ?thesis using False by (simp add: user_byte_upage ub)
  qed
qed

lemma in_chunk_iff:
  assumes "off = unat (a - PGROUNDDOWN a)" "n \<le> 4096 - off"
  shows "PGROUNDDOWN va = PGROUNDDOWN a \<and> off \<le> unat (va - PGROUNDDOWN a) \<and> unat (va - PGROUNDDOWN a) < off + n \<longleftrightarrow> unat (va - a) < n"
    "PGROUNDDOWN va = PGROUNDDOWN a \<Longrightarrow> off \<le> unat (va - PGROUNDDOWN a) \<Longrightarrow> unat (va - a) = unat (va - PGROUNDDOWN a) - off"
proof -
  have e: "va - a = (va - PGROUNDDOWN a) - (a - PGROUNDDOWN a)" by simp
  show d: "unat (va - a) = unat (va - PGROUNDDOWN a) - off" if "off \<le> unat (va - PGROUNDDOWN a)"
    unfolding e assms(1) by (rule unat_sub) (use that assms(1) in \<open>simp add: word_le_nat_alt\<close>)
  have c: "unat (PGSIZE - (a - PGROUNDDOWN a)) = 4096 - off"
    using page_off(1) [of a] assms(1) by (simp add: unat_sub word_le_nat_alt word_less_nat_alt)
  have "PGROUNDDOWN va = PGROUNDDOWN a \<and> unat (va - PGROUNDDOWN a) = off + unat (va - a)" if "unat (va - a) < n"
  proof -
    have j: "unat (va - a) < unat (PGSIZE - (a - PGROUNDDOWN a))" using that assms(2) c by linarith
    have "va - PGROUNDDOWN a = of_nat (off + unat (va - a))" using chunk_page(2) [OF j] assms(1) by simp
    then have "unat (va - PGROUNDDOWN a) = off + unat (va - a)"
      using j c page_off(2) [of a] by (simp add: unat_of_nat del: of_nat_add)
    then show ?thesis using chunk_page(1) [OF j] by simp
  qed
  then show "PGROUNDDOWN va = PGROUNDDOWN a \<and> off \<le> unat (va - PGROUNDDOWN a) \<and> unat (va - PGROUNDDOWN a) < off + n \<longleftrightarrow> unat (va - a) < n"
    using d by fastforce
qed

text \<open>The result of writing the bytes \<open>bs\<close> at user address \<open>a\<close>.\<close>

definition user_wrote :: "phys \<Rightarrow> phys \<Rightarrow> u64 \<Rightarrow> u64 \<Rightarrow> u8 list \<Rightarrow> bool" where
  "user_wrote s s' r a bs \<longleftrightarrow> (\<forall>va. pte_of (mem s') r va = pte_of (mem s) r va)
     \<and> (\<forall>va. user_byte s' r va = (if unat (va - a) < length bs then Some (bs ! unat (va - a)) else user_byte s r va))
     \<and> (\<forall>y. (\<forall>j < length bs. PGROUNDDOWN y \<noteq> frame_of s r (PGROUNDDOWN (a + of_nat j))) \<longrightarrow> mem s' y = mem s y)
     \<and> freelist s' = freelist s \<and> kend s' = kend s"

lemma unat_sub_nat:
  fixes d :: u64
  assumes "n < 2 ^ 64"
  shows "unat (d - of_nat n) = (if n \<le> unat d then unat d - n else 2 ^ 64 + unat d - n)"
proof -
  have e: "unat (of_nat n :: u64) = n" using assms by (simp add: unat_of_nat)
  have "unat (d - of_nat n) = (if n \<le> unat d then unat d - n else unat d + 2 ^ 64 - n)"
    using unat_sub_if' [of d "of_nat n"] unfolding e by simp
  then show ?thesis by (simp only: add.commute [of "unat d"])
qed

lemma user_wrote_append:
  assumes "user_wrote s s1 r a xs" "user_wrote s1 s2 r (a + of_nat (length xs)) ys" "length xs + length ys < 2 ^ 64"
  shows "user_wrote s s2 r a (xs @ ys)"
proof -
  have "user_byte s2 r va = (if unat (va - a) < length (xs @ ys) then Some ((xs @ ys) ! unat (va - a)) else user_byte s r va)" for va
  proof -
    have "unat (va - (a + of_nat (length xs))) = (if length xs \<le> unat (va - a) then unat (va - a) - length xs else 2 ^ 64 + unat (va - a) - length xs)"
      using unat_sub_nat [of "length xs" "va - a"] assms(3) by (simp add: diff_diff_eq)
    then show ?thesis
      using assms(1,2) assms(3) unat_bound64 [of "va - a"] unfolding user_wrote_def by (auto simp: nth_append)
  qed
  moreover have "mem s2 y = mem s y" if y: "\<forall>j < length (xs @ ys). PGROUNDDOWN y \<noteq> frame_of s r (PGROUNDDOWN (a + of_nat j))" for y
  proof -
    have "frame_of s1 r v = frame_of s r v" for v using assms(1) by (simp add: user_wrote_def frame_of_def)
    moreover have "PGROUNDDOWN y \<noteq> frame_of s r (PGROUNDDOWN (a + of_nat (length xs + j)))" if "j < length ys" for j
      using y [rule_format, of "length xs + j"] that by simp
    ultimately have "mem s2 y = mem s1 y" using assms(2) by (simp add: user_wrote_def add.assoc)
    moreover have "mem s1 y = mem s y" using assms(1) y by (simp add: user_wrote_def)
    ultimately show ?thesis by simp
  qed
  ultimately show ?thesis
    using assms(1,2) by (simp add: user_wrote_def)
qed

lemma user_store_wrote:
  assumes ok: "space_ok s r xs" and up: "upage s r (PGROUNDDOWN a)" and len: "bs \<noteq> []" "length bs \<le> unat (PGSIZE - (a - PGROUNDDOWN a))"
  defines "s' \<equiv> s\<lparr>mem := store_bytes (mem s) (frame_of s r (PGROUNDDOWN a) + (a - PGROUNDDOWN a)) bs\<rparr>"
  shows "space_ok s' r xs" "user_wrote s s' r a bs"
proof -
  define off where "off = unat (a - PGROUNDDOWN a)"
  have c: "unat (PGSIZE - (a - PGROUNDDOWN a)) = 4096 - off"
    using page_off(1) [of a] by (simp add: off_def unat_sub word_le_nat_alt word_less_nat_alt)
  have l: "off + length bs \<le> 4096" using len(2) c page_off(2) [of a] by (simp add: off_def)
  have s': "s' = s\<lparr>mem := store_bytes (mem s) (frame_of s r (PGROUNDDOWN a) + of_nat off) bs\<rparr>"
    by (simp add: s'_def off_def)
  note us = user_store [OF ok up l, folded s']
  show "space_ok s' r xs" by (rule us(1))
  have "length bs \<le> 4096 - off" using l by simp
  note ic = in_chunk_iff [OF off_def this]
  have "user_byte s' r va = (if unat (va - a) < length bs then Some (bs ! unat (va - a)) else user_byte s r va)" for va
    using us(4) [of va] ic(1) [of va] ic(2) [of va] by auto
  moreover have "mem s' y = mem s y" if "\<forall>j < length bs. PGROUNDDOWN y \<noteq> frame_of s r (PGROUNDDOWN (a + of_nat j))" for y
    using us(3) [of y] that [rule_format, of 0] len(1) by simp
  ultimately show "user_wrote s s' r a bs"
    using us(2) unfolding user_wrote_def by (simp add: s'_def)
qed

lemma user_wrote_nil: "user_wrote s s r a []"
  by (simp add: user_wrote_def)

lemma user_wrote_keeps:
  assumes "user_wrote s s' r a bs"
  shows "upage s' r = upage s r" "frame_of s' r = frame_of s r" "writable s' r = writable s r"
  using assms by (simp_all add: user_wrote_def fun_eq_iff upage_def frame_of_def writable_def)

lemma copyout_mapped:
  assumes "space_ok (ph k) pt xs" "\<And>j. j < length bs \<Longrightarrow> writable (ph k) pt (a + of_nat j)" "length bs < 2 ^ 64"
  shows "\<exists>s'. copyout_with alloc pt a bs k = Some (0, k\<lparr>ph := s'\<rparr>) \<and> space_ok s' pt xs \<and> user_wrote (ph k) s' pt a bs"
  using assms
proof (induction "length bs" arbitrary: a bs k rule: less_induct)
  case less
  show ?case
  proof (cases "bs = []")
    case True
    then show ?thesis using less.prems(1) user_wrote_nil [of "ph k" pt a]
      by (intro exI [of _ "ph k"]) (simp add: copyout_with.simps)
  next
    case False
    let ?va0 = "PGROUNDDOWN a" and ?n = "unat (PGSIZE - (a - PGROUNDDOWN a))"
    let ?f = "frame_of (ph k) pt ?va0"
    have up: "upage (ph k) pt ?va0" and w: "pte_of (mem (ph k)) pt ?va0 AND PTE_W \<noteq> 0"
      using less.prems(2) [of 0] False by (simp_all add: writable_def)
    have va: "?va0 < MAXVA" using up by (simp add: upage_def)
    then have nva: "\<not> MAXVA \<le> ?va0" by (simp only: not_le)
    note wa = mapped_walkaddr [OF less.prems(1) up] and f0 = frame_nonzero [OF less.prems(1) up]
    obtain pte where pte: "walk (ph k) pt ?va0 False = Some (pte, ph k)" "pte \<noteq> 0" "load64 (mem (ph k)) pte AND PTE_W \<noteq> 0"
      using space_okD(1) [OF less.prems(1)] va by (cases rule: walk_lookup) (use w in auto)
    define s1 where "s1 = (ph k)\<lparr>mem := store_bytes (mem (ph k)) (?f + (a - ?va0)) (take ?n bs)\<rparr>"
    have t: "take ?n bs \<noteq> []" "length (take ?n bs) \<le> ?n" using False page_chunk_pos [of a] by auto
    note st = user_store_wrote [OF less.prems(1) up t, folded s1_def]
    have step: "copyout_with alloc pt a bs k = copyout_with alloc pt (?va0 + PGSIZE) (drop ?n bs) (k\<lparr>ph := s1\<rparr>)"
      using False nva wa f0 pte by (subst copyout_with.simps) (simp add: Let_def s1_def set_mem_def)
    have "length (drop ?n bs) < length bs" using False page_chunk_pos [of a] by simp
    moreover have "space_ok (ph (k\<lparr>ph := s1\<rparr>)) pt xs" using st(1) by simp
    moreover have "writable (ph (k\<lparr>ph := s1\<rparr>)) pt (?va0 + PGSIZE + of_nat j)" if "j < length (drop ?n bs)" for j
      using less.prems(2) [of "?n + j"] that chunk_end [of a] user_wrote_keeps(3) [OF st(2)] by (simp add: algebra_simps)
    moreover have "length (drop ?n bs) < 2 ^ 64" using less.prems(3) by simp
    ultimately obtain s' where s': "copyout_with alloc pt (?va0 + PGSIZE) (drop ?n bs) (k\<lparr>ph := s1\<rparr>) = Some (0, k\<lparr>ph := s'\<rparr>)"
      "space_ok s' pt xs" "user_wrote s1 s' pt (?va0 + PGSIZE) (drop ?n bs)"
      using less.hyps [of "drop ?n bs" "k\<lparr>ph := s1\<rparr>" "?va0 + PGSIZE"] by auto
    have l: "length (take ?n bs) + length (drop ?n bs) < 2 ^ 64" using less.prems(3) by (simp flip: length_append)
    have "user_wrote (ph k) s' pt a (take ?n bs @ drop ?n bs)"
    proof (cases "length bs \<le> ?n")
      case True
      then have "user_wrote s1 s' pt (a + of_nat (length (take ?n bs))) (drop ?n bs)"
        using s'(3) by (simp add: user_wrote_def)
      then show ?thesis using l by (rule user_wrote_append [OF st(2)])
    next
      case False
      then have "?va0 + PGSIZE = a + of_nat (length (take ?n bs))" using chunk_end [of a] by simp
      then show ?thesis using s'(3) l by (intro user_wrote_append [OF st(2)]) simp_all
    qed
    then show ?thesis using step s' by auto
  qed
qed

lemma user_wrote_nth:
  assumes "user_wrote s s' r a bs" "j < length bs" "length bs < 2 ^ 64"
  shows "user_byte s' r (a + of_nat j) = Some (bs ! j)"
proof -
  have "unat (of_nat j :: u64) = j" using assms(2,3) by (simp add: unat_of_nat)
  then show ?thesis using assms(1,2) by (simp add: user_wrote_def)
qed

text \<open>
  C12: \<open>copyout\<close> to writable pages succeeds without a page fault, and a \<open>copyin\<close> of the range returns
  exactly the bytes. No other user address changes, and no physical page but the frames of the
  range: neither page tables, nor free pages, nor the memory of other processes.
\<close>

theorem copyout_copyin:
  assumes "space_ok (ph k) pt xs" and "\<And>j. j < length bs \<Longrightarrow> writable (ph k) pt (a + of_nat j)" and "length bs < 2 ^ 64"
  shows "\<exists>k'. copyout pt a bs k = Some (0, k') \<and> copyin pt a (length bs) k' = Some (0, bs, k') \<and> space_ok (ph k') pt xs
     \<and> (\<forall>va. \<not> unat (va - a) < length bs \<longrightarrow> user_byte (ph k') pt va = user_byte (ph k) pt va)
     \<and> (\<forall>y. (\<forall>j < length bs. PGROUNDDOWN y \<noteq> frame_of (ph k) pt (PGROUNDDOWN (a + of_nat j))) \<longrightarrow> mem (ph k') y = mem (ph k) y)"
proof -
  obtain s' where s': "copyout pt a bs k = Some (0, k\<lparr>ph := s'\<rparr>)" "space_ok s' pt xs" "user_wrote (ph k) s' pt a bs"
    using copyout_mapped [OF assms] unfolding copyout_def by blast
  let ?k = "k\<lparr>ph := s'\<rparr>"
  have b: "user_byte s' pt (a + of_nat j) = Some (bs ! j)" if "j < length bs" for j
    by (rule user_wrote_nth [OF s'(3) that assms(3)])
  have "map (\<lambda>j. the (user_byte s' pt (a + of_nat j))) [0..<length bs] = bs"
    by (rule nth_equalityI) (simp_all add: b)
  then have "copyin pt a (length bs) ?k = Some (0, bs, ?k)"
    using copyin_mapped [of ?k pt xs "length bs" a] s'(2) b unfolding copyin_def by simp
  then show ?thesis
    using s' unfolding user_wrote_def by (intro exI [of _ ?k]) simp
qed

lemma one_page_writable:
  assumes "\<And>va. upage s r va \<longleftrightarrow> va = 0x1000" "pte_of (mem s) r 0x1000 = PA2PTE 0x87FFC000 OR (PTE_R OR PTE_W OR PTE_U) OR PTE_V"
    and "PGROUNDDOWN va = 0x1000"
  shows "writable s r va"
  using assms by (simp add: writable_def PA2PTE_def)

lemma page_one: "j < 3 \<Longrightarrow> PGROUNDDOWN (0x1ffd + of_nat j) = 0x1000"
proof -
  assume "j < 3"
  then have "j = 0 \<or> j = 1 \<or> j = 2" by linarith
  then show ?thesis by (elim disjE) (simp_all add: PGROUNDDOWN_def)
qed

theorem copyout_copyin_witness:
  "\<exists>s ys k'. space_ok s 0x87FFB000 ys \<and> copyout 0x87FFB000 0x1ffd [1, 2, 3] (user_kernel False 0 s fresh_memstat) = Some (0, k')
     \<and> copyin 0x87FFB000 0x1ffd 3 k' = Some (0, [1, 2, 3], k')"
proof -
  obtain s ys where s: "space_ok s 0x87FFB000 ys" "\<And>va. upage s 0x87FFB000 va \<longleftrightarrow> va = 0x1000"
    "pte_of (mem s) 0x87FFB000 0x1000 = PA2PTE 0x87FFC000 OR (PTE_R OR PTE_W OR PTE_U) OR PTE_V"
    by (rule one_user_page) blast
  have "writable s 0x87FFB000 (0x1ffd + of_nat j)" if "j < 3" for j
    by (rule one_page_writable [OF s(2,3) page_one [OF that]])
  then show ?thesis
    using copyout_copyin [of "user_kernel False 0 s fresh_memstat" "0x87FFB000" ys "[1, 2, 3]" "0x1ffd"] s(1)
    by (auto simp: user_kernel_simps numeral_3_eq_3)
qed

end
