(* ===== verification/Ring.thy ===== *)
theory Ring
  imports Prelude
begin

text \<open>
  Ring buffers indexed by free-running 32-bit counters, the way \<open>pipe.c\<close> and \<open>console.c\<close> keep
  them: the entry of counter \<open>i\<close> is at index \<open>i % N\<close>, and the number of entries is the difference
  of the two counters, which is right also after they have wrapped around.
\<close>

definition ring :: "'a list \<Rightarrow> u32 \<Rightarrow> u32 \<Rightarrow> 'a list" where
  "ring buf r w = map (\<lambda>i. buf ! (unat (r + of_nat i) mod length buf)) [0..<unat (w - r)]"

text \<open>The size divides the range of the counters.\<close>

definition ring_size :: "'a list \<Rightarrow> bool" where
  "ring_size buf \<longleftrightarrow> length buf dvd 2 ^ 32"

lemma ring_size_pos: "ring_size buf \<Longrightarrow> 0 < length buf"
  by (auto simp: ring_size_def intro: Nat.gr0I)

lemma length_ring [simp]: "length (ring buf r w) = unat (w - r)"
  by (simp add: ring_def)

lemma ring_empty [simp]: "ring buf r r = []"
  by (simp add: ring_def)

lemma ring_index:
  assumes "ring_size buf" "n < 2 ^ 32"
  shows "unat ((r :: u32) + of_nat n) mod length buf = (unat r + n) mod length buf"
  using assms unat_of_nat [of n, where 'a = 32] mod_mod_cancel [of "length buf" "2 ^ 32"]
  by (simp add: ring_size_def unat_word_ariths take_bit_nat_eq_self)

lemma nth_ring: "i < unat (w - r) \<Longrightarrow> ring buf r w ! i = buf ! (unat (r + of_nat i) mod length buf)"
  by (simp add: ring_def)

lemma unat_diff_Suc:
  assumes "w \<noteq> r"
  shows "unat ((w :: u32) - r) = Suc (unat (w - (r + 1)))" "unat (w - 1 - r) = unat (w - r) - 1"
proof -
  define d where "d = w - r"
  have d: "d \<noteq> 0" using assms by (simp add: d_def)
  then have "unat (d - 1) = unat d - 1" by (simp add: unat_minus_one)
  moreover have e: "w - (r + 1) = d - 1" "w - 1 - r = d - 1" by (simp_all add: d_def)
  moreover have "0 < unat d" using d by (simp add: unat_gt_0)
  ultimately show "unat (w - r) = Suc (unat (w - (r + 1)))" "unat (w - 1 - r) = unat (w - r) - 1"
    unfolding d_def [symmetric] e by linarith+
qed

lemma ring_get:
  assumes "w \<noteq> r"
  shows "ring buf r w = buf ! (unat r mod length buf) # ring buf (r + 1) w"
  unfolding ring_def unat_diff_Suc(1) [OF assms]
  by (simp add: upt_conv_Cons map_Suc_upt [symmetric] add.assoc del: upt_Suc)

lemma ring_unput:
  assumes "w \<noteq> r"
  shows "ring buf r (w - 1) = butlast (ring buf r w)" "last (ring buf r w) = buf ! (unat (w - 1) mod length buf)"
proof -
  have ne: "ring buf r w \<noteq> []" using assms by (metis length_greater_0_conv length_ring right_minus_eq unat_gt_0)
  show "ring buf r (w - 1) = butlast (ring buf r w)"
    by (rule nth_equalityI) (simp_all add: unat_diff_Suc(2) [OF assms] nth_butlast nth_ring)
  have "last (ring buf r w) = buf ! (unat (r + of_nat (unat (w - r) - 1)) mod length buf)"
    using ne unat_gt_0 [of "w - r"] assms by (simp add: last_conv_nth nth_ring)
  moreover have "r + of_nat (unat (w - r) - 1) = w - 1"
    using unat_diff_Suc(2) [OF assms, symmetric] by simp
  ultimately show "last (ring buf r w) = buf ! (unat (w - 1) mod length buf)" by simp
qed

lemma ring_put:
  assumes N: "ring_size buf" and room: "unat (w - r) < length buf" and b: "length buf < 2 ^ 32"
  shows "ring (buf[unat w mod length buf := x]) r (w + 1) = ring buf r w @ [x]"
proof -
  have u: "unat (w + 1 - r) = Suc (unat (w - r))"
  proof -
    have "unat (w - r + 1) = unat (w - r) + 1" using room b by (simp add: unat_word_ariths)
    then show ?thesis by (simp add: algebra_simps)
  qed
  have w: "unat w mod length buf = (unat r + unat (w - r)) mod length buf"
    using ring_index [OF N, of "unat (w - r)" r] room b by simp
  have other: "buf[unat w mod length buf := x] ! (unat (r + of_nat i) mod length buf) = buf ! (unat (r + of_nat i) mod length buf)"
    if i: "i < unat (w - r)" for i
  proof -
    have "(unat r + i) mod length buf \<noteq> (unat r + unat (w - r)) mod length buf"
    proof
      assume eq: "(unat r + i) mod length buf = (unat r + unat (w - r)) mod length buf"
      have "unat r + i \<le> unat r + unat (w - r)" using i by simp
      from mod_eq_dvd_iff_nat [OF this, of "length buf"] eq
      have "length buf dvd (unat r + unat (w - r)) - (unat r + i)" by simp
      then have "length buf dvd unat (w - r) - i" by simp
      then show False using i room dvd_imp_le [of "length buf" "unat (w - r) - i"] by simp
    qed
    then show ?thesis using w ring_index [OF N, of i r] i room b by simp
  qed
  show ?thesis
  proof (rule nth_equalityI)
    show "length (ring (buf[unat w mod length buf := x]) r (w + 1)) = length (ring buf r w @ [x])" by (simp add: u)
    fix i assume "i < length (ring (buf[unat w mod length buf := x]) r (w + 1))"
    then have i: "i < Suc (unat (w - r))" by (simp add: u)
    show "ring (buf[unat w mod length buf := x]) r (w + 1) ! i = (ring buf r w @ [x]) ! i"
    proof (cases "i = unat (w - r)")
      case True
      then show ?thesis using ring_size_pos [OF N] by (simp add: nth_ring u nth_append)
    next
      case False
      then show ?thesis using i other [of i] by (simp add: nth_ring u nth_append)
    qed
  qed
qed

lemma ring_split:
  assumes "unat (w - r) \<le> unat (e - r)"
  shows "ring buf r e = ring buf r w @ ring buf w e" "unat (e - r) = unat (w - r) + unat (e - w)"
proof -
  have "e - w = (e - r) - (w - r)" by simp
  then have "unat (e - w) = unat (e - r) - unat (w - r)" using assms by (simp only: unat_sub word_le_nat_alt)
  then show u: "unat (e - r) = unat (w - r) + unat (e - w)" using assms by simp
  have "r + of_nat (unat (w - r) + i) = w + of_nat i" for i by simp
  then show "ring buf r e = ring buf r w @ ring buf w e"
    by (intro nth_equalityI) (auto simp: nth_ring nth_append u add.commute simp del: of_nat_add)
qed

end
