(* ===== verification/Pipespec.thy ===== *)
theory Pipespec
  imports Usercopy Fileops Ring
begin

text \<open>
  A pipe is a bounded byte queue: \<open>pipewrite\<close> appends the bytes of the writer's buffer in order,
  \<open>piperead\<close> moves bytes from the front to the reader's buffer in order, and no byte is lost,
  duplicated or overwritten, also when the 32-bit counters wrap around. The buffers are mapped, so
  that the copies take no page fault.
\<close>

definition pipe_ok :: "pipe \<Rightarrow> bool" where
  "pipe_ok p \<longleftrightarrow> length (pi_data p) = PIPESIZE \<and> unat (nwrite p - nread p) \<le> PIPESIZE"

definition queue :: "pipe \<Rightarrow> u8 list" where
  "queue p = ring (pi_data p) (nread p) (nwrite p)"

lemma new_pipe_ok: "pipe_ok new_pipe" "queue new_pipe = []"
  by (simp_all add: pipe_ok_def queue_def new_pipe_def)

lemma ring_size_pipe: "pipe_ok p \<Longrightarrow> ring_size (pi_data p)"
  by (simp add: pipe_ok_def ring_size_def)

lemma full_iff: "nwrite p = nread p + of_nat PIPESIZE \<longleftrightarrow> unat (nwrite p - nread p) = PIPESIZE"
proof -
  have "nwrite p = nread p + of_nat PIPESIZE \<longleftrightarrow> nwrite p - nread p = of_nat PIPESIZE"
    by (simp add: algebra_simps)
  also have "\<dots> \<longleftrightarrow> unat (nwrite p - nread p) = unat (of_nat PIPESIZE :: u32)"
    by (simp only: word_eq_iff_unat)
  finally show ?thesis by simp
qed

lemma put_ok:
  fixes c :: u8
  assumes "pipe_ok p" "nwrite p \<noteq> nread p + of_nat PIPESIZE"
  defines "p' \<equiv> p\<lparr>pi_data := (pi_data p)[unat (nwrite p) mod PIPESIZE := c], nwrite := nwrite p + 1\<rparr>"
  shows "pipe_ok p'" "queue p' = queue p @ [c]"
proof -
  have room: "unat (nwrite p - nread p) < PIPESIZE"
    using assms(1,2) full_iff [of p] unfolding pipe_ok_def by linarith
  have "ring ((pi_data p)[unat (nwrite p) mod length (pi_data p) := c]) (nread p) (nwrite p + 1) = queue p @ [c]"
    unfolding queue_def by (rule ring_put) (use ring_size_pipe [OF assms(1)] room assms(1) in \<open>auto simp: pipe_ok_def\<close>)
  then show q: "queue p' = queue p @ [c]"
    using assms(1) by (simp add: p'_def queue_def pipe_ok_def)
  have "length (queue p') \<le> PIPESIZE"
    unfolding q using room by (simp add: queue_def)
  then show "pipe_ok p'"
    using assms(1) by (simp add: p'_def queue_def pipe_ok_def)
qed

lemma get_ok:
  assumes "pipe_ok p" "nread p \<noteq> nwrite p"
  defines "p' \<equiv> p\<lparr>nread := nread p + 1\<rparr>"
  shows "pipe_ok p'" "queue p = pi_data p ! (unat (nread p) mod PIPESIZE) # queue p'"
proof -
  show q: "queue p = pi_data p ! (unat (nread p) mod PIPESIZE) # queue p'"
    using ring_get [of "nwrite p" "nread p" "pi_data p"] assms(1,2) by (simp add: p'_def queue_def pipe_ok_def)
  have "length (queue p') \<le> length (queue p)"
    unfolding q by simp
  then show "pipe_ok p'"
    using assms(1) by (simp add: p'_def queue_def pipe_ok_def)
qed


lemma length_queue [simp]: "length (queue p) = unat (nwrite p - nread p)"
  by (simp add: queue_def)

lemma full_queue: "pipe_ok p \<Longrightarrow> nwrite p = nread p + of_nat PIPESIZE \<longleftrightarrow> PIPESIZE - length (queue p) = 0"
  unfolding full_iff by (auto simp: pipe_ok_def)

definition user_bytes :: "phys \<Rightarrow> u64 \<Rightarrow> u64 \<Rightarrow> nat \<Rightarrow> u8 list" where
  "user_bytes s r a n = map (\<lambda>j. the (user_byte s r (a + of_nat j))) [0..<n]"

lemma user_bytes_simps:
  "user_bytes s r a 0 = []" "length (user_bytes s r a n) = n"
  "user_bytes s r a (Suc n) = the (user_byte s r a) # user_bytes s r (a + 1) n"
proof -
  show "user_bytes s r a (Suc n) = the (user_byte s r a) # user_bytes s r (a + 1) n"
    by (rule nth_equalityI) (auto simp: user_bytes_def nth_Cons algebra_simps simp del: upt_Suc split: nat.split)
qed (simp_all add: user_bytes_def)

section \<open>Writing\<close>

lemma pipewrite_loop_queue:
  assumes "pipes k pi = Some p" "pipe_ok p" "readopen p" "\<not> p_killed (myproc k)" "pt = p_pagetable (myproc k)"
    "space_ok (ph k) pt xs" "\<And>j. j < n \<Longrightarrow> user_byte (ph k) pt (addr + of_nat j) \<noteq> None" "i \<le> n"
    "m = min (n - i) (PIPESIZE - length (queue p))"
  shows "\<exists>p'. pipe_ok p' \<and> queue p' = queue p @ user_bytes (ph k) pt (addr + of_nat i) m
     \<and> pipewrite_loop pi addr n i k = Some
        (if i + m = n then (Done (int n), wakeup (PipeRead pi) (k\<lparr>pipes := (pipes k)(pi \<mapsto> p')\<rparr>))
         else (Asleep (i + m), sleep (PipeWrite pi) (wakeup (PipeRead pi) (k\<lparr>pipes := (pipes k)(pi \<mapsto> p')\<rparr>))))"
  using assms
proof (induction "n - i" arbitrary: i k p m)
  case 0
  have "k\<lparr>pipes := (pipes k)(pi \<mapsto> p)\<rparr> = k" using 0(2) by (simp add: fun_upd_idem)
  then show ?case using 0 by (subst pipewrite_loop.simps) (auto simp: user_bytes_simps intro!: exI [of _ p])
next
  case (Suc d)
  have i: "i < n" and d: "d = n - (i + 1)" using Suc.hyps(2) by simp_all
  show ?case
  proof (cases "nwrite p = nread p + of_nat PIPESIZE")
    case True
    then have "m = 0" using Suc.prems(9) full_queue [OF Suc.prems(2)] by simp
    moreover have "k\<lparr>pipes := (pipes k)(pi \<mapsto> p)\<rparr> = k" using Suc.prems(1) by (simp add: fun_upd_idem)
    ultimately show ?thesis
      using True Suc.prems i by (subst pipewrite_loop.simps) (auto simp: user_bytes_simps intro!: exI [of _ p])
  next
    case room: False
    define x where "x = the (user_byte (ph k) pt (addr + of_nat i))"
    have c: "copyin pt (addr + of_nat i) 1 k = Some (0, [x], k)"
      using copyin_mapped [OF Suc.prems(6), of 1 "addr + of_nat i" try_kalloc_or_replace] Suc.prems(7) [OF i] by (simp add: copyin_def x_def)
    define p2 where "p2 = p\<lparr>pi_data := (pi_data p)[unat (nwrite p) mod PIPESIZE := x], nwrite := nwrite p + 1\<rparr>"
    have p2: "pipe_ok p2" "queue p2 = queue p @ [x]" "readopen p2"
      using put_ok [OF Suc.prems(2) room, of x] Suc.prems(3) by (simp_all add: p2_def)
    let ?k2 = "k\<lparr>pipes := (pipes k)(pi \<mapsto> p2)\<rparr>"
    have step: "pipewrite_loop pi addr n i k = pipewrite_loop pi addr n (i + 1) ?k2"
      using Suc.prems(1,3,4,5) i room c by (subst pipewrite_loop.simps) (simp add: p2_def)
    have l: "length (queue p2) = length (queue p) + 1" using p2(2) by (metis length_append_singleton Suc_eq_plus1)
    have "PIPESIZE - length (queue p) \<noteq> 0" using room full_queue [OF Suc.prems(2)] by blast
    then have m: "m = Suc (min (n - (i + 1)) (PIPESIZE - length (queue p2)))" using Suc.prems(9) i unfolding l by linarith
    obtain p' where "pipe_ok p'" "queue p' = queue p2 @ user_bytes (ph k) pt (addr + of_nat (i + 1)) (m - 1)"
      "pipewrite_loop pi addr n (i + 1) ?k2 = Some
        (if i + 1 + (m - 1) = n then (Done (int n), wakeup (PipeRead pi) (?k2\<lparr>pipes := (pipes ?k2)(pi \<mapsto> p')\<rparr>))
         else (Asleep (i + 1 + (m - 1)), sleep (PipeWrite pi) (wakeup (PipeRead pi) (?k2\<lparr>pipes := (pipes ?k2)(pi \<mapsto> p')\<rparr>))))"
      using Suc.hyps(1) [of "i + 1" ?k2 p2 "m - 1"] d i p2 m Suc.prems by auto
    moreover have "user_bytes (ph k) pt (addr + of_nat i) m = x # user_bytes (ph k) pt (addr + of_nat (i + 1)) (m - 1)"
      using m by (simp add: user_bytes_simps x_def ac_simps)
    ultimately show ?thesis
      using step m p2(2) by (intro exI [of _ p']) simp
  qed
qed

section \<open>Reading\<close>

lemma piperead_loop_queue:
  assumes "pipes k pi = Some p" "pipe_ok p" "pt = p_pagetable (myproc k)" "space_ok (ph k) pt xs"
    "\<And>j. j < n \<Longrightarrow> writable (ph k) pt (addr + of_nat j)" "i \<le> n" "m = min (n - i) (length (queue p))"
  shows "\<exists>p' s'. pipe_ok p' \<and> queue p' = drop m (queue p) \<and> space_ok s' pt xs
     \<and> user_wrote (ph k) s' pt (addr + of_nat i) (take m (queue p))
     \<and> piperead_loop pi addr n i k = Some (int (i + m), k\<lparr>ph := s', pipes := (pipes k)(pi \<mapsto> p')\<rparr>)"
  using assms
proof (induction "n - i" arbitrary: i k p m)
  case 0
  have "k\<lparr>ph := ph k, pipes := (pipes k)(pi \<mapsto> p)\<rparr> = k" using 0(2) by (simp add: fun_upd_idem)
  then show ?case using 0 user_wrote_nil
    by (subst piperead_loop.simps) (auto intro!: exI [of _ p] exI [of _ "ph k"])
next
  case (Suc d)
  have i: "i < n" and d: "d = n - (i + 1)" using Suc.hyps(2) by simp_all
  let ?c = "pi_data p ! (unat (nread p) mod PIPESIZE)"
  show ?case
  proof (cases "nread p = nwrite p")
    case True
    then have "m = 0" using Suc.prems(7) by simp
    moreover have "k\<lparr>ph := ph k, pipes := (pipes k)(pi \<mapsto> p)\<rparr> = k" using Suc.prems(1) by (simp add: fun_upd_idem)
    ultimately show ?thesis
      using True Suc.prems i user_wrote_nil by (subst piperead_loop.simps) (auto intro!: exI [of _ p] exI [of _ "ph k"])
  next
    case ne: False
    obtain s1 where s1: "copyout pt (addr + of_nat i) [?c] k = Some (0, k\<lparr>ph := s1\<rparr>)" "space_ok s1 pt xs"
      "user_wrote (ph k) s1 pt (addr + of_nat i) [?c]"
      using copyout_mapped [OF Suc.prems(4), of "[?c]" "addr + of_nat i" try_kalloc_or_replace] Suc.prems(5) [OF i] by (auto simp: copyout_def)
    let ?p = "p\<lparr>nread := nread p + 1\<rparr>"
    let ?k2 = "k\<lparr>ph := s1, pipes := (pipes k)(pi \<mapsto> ?p)\<rparr>"
    note p2 = get_ok [OF Suc.prems(2) ne]
    have step: "piperead_loop pi addr n i k = piperead_loop pi addr n (i + 1) ?k2"
      using Suc.prems(1,3) i ne s1(1) by (subst piperead_loop.simps) (simp add: Let_def)
    have l: "length (queue p) = length (queue ?p) + 1" using p2(2) by (metis length_Cons Suc_eq_plus1)
    have m: "m = Suc (min (n - (i + 1)) (length (queue ?p)))" using Suc.prems(7) i unfolding l by linarith
    obtain p' s' where IH: "pipe_ok p'" "queue p' = drop (m - 1) (queue ?p)" "space_ok s' pt xs"
      "user_wrote s1 s' pt (addr + of_nat (i + 1)) (take (m - 1) (queue ?p))"
      "piperead_loop pi addr n (i + 1) ?k2 = Some (int (i + 1 + (m - 1)), ?k2\<lparr>ph := s', pipes := (pipes ?k2)(pi \<mapsto> p')\<rparr>)"
      using Suc.hyps(1) [of "i + 1" ?k2 ?p "m - 1"] d i p2(1) m Suc.prems s1(2) user_wrote_keeps(3) [OF s1(3)] by auto
    have "unat (nwrite p - nread p) \<le> PIPESIZE" using Suc.prems(2) by (simp add: pipe_ok_def)
    then have len: "length [?c] + length (take (m - 1) (queue ?p)) < 2 ^ 64" using l by simp
    have "user_wrote s1 s' pt (addr + of_nat i + of_nat (length [?c])) (take (m - 1) (queue ?p))"
      using IH(4) by (simp add: ac_simps)
    from user_wrote_append [OF s1(3) this len] have "user_wrote (ph k) s' pt (addr + of_nat i) (take m (queue p))"
      unfolding p2(2) using m by simp
    moreover have "drop (m - 1) (queue ?p) = drop m (queue p)" unfolding p2(2) using m by simp
    ultimately show ?thesis
      using IH step m by (intro exI [of _ p'] exI [of _ s']) simp
  qed
qed

text \<open>
  C26: a \<open>pipewrite\<close> of \<open>n\<close> bytes from mapped memory appends to the queue of an open pipe as many of
  them, in order, as fit. When all fit it returns \<open>n\<close>, otherwise the writer sleeps until a reader
  makes room; it wakes the readers in both cases and changes nothing else.
\<close>

theorem pipewrite_appends:
  assumes "pipes k pi = Some p" and "pipe_ok p" and "readopen p" and "\<not> p_killed (myproc k)" and "pt = p_pagetable (myproc k)"
    and "space_ok (ph k) pt xs" and "\<And>j. j < n \<Longrightarrow> user_byte (ph k) pt (addr + of_nat j) \<noteq> None"
    and "m = min n (PIPESIZE - length (queue p))"
  shows "\<exists>p'. pipe_ok p' \<and> queue p' = queue p @ user_bytes (ph k) pt addr m
     \<and> pipewrite pi addr (int n) k = Some
        (if m = n then (Done (int n), wakeup (PipeRead pi) (k\<lparr>pipes := (pipes k)(pi \<mapsto> p')\<rparr>))
         else (Asleep m, sleep (PipeWrite pi) (wakeup (PipeRead pi) (k\<lparr>pipes := (pipes k)(pi \<mapsto> p')\<rparr>))))"
proof -
  have "m = min (n - 0) (PIPESIZE - length (queue p))" by (simp only: assms(8) diff_zero)
  note w = pipewrite_loop_queue [where i = 0 and addr = addr and n = n, OF assms(1-6) _ le0 this]
  have z: "addr + of_nat 0 = addr" by simp
  show ?thesis
    unfolding pipewrite_def nat_int by (rule w [unfolded z add_0]) (rule assms(7))
qed

text \<open>
  C27: a \<open>piperead\<close> of \<open>n\<close> bytes into writable memory moves the first bytes of a queue that is not
  empty to the reader's buffer, in order, returns their number, and wakes the writers; an empty pipe
  without a writer gives 0 bytes, one with a writer puts the reader to sleep.
\<close>

theorem piperead_takes:
  assumes "pipes k pi = Some p" and "pipe_ok p" and "\<not> p_killed (myproc k)" and "pt = p_pagetable (myproc k)"
    and "space_ok (ph k) pt xs" and "\<And>j. j < n \<Longrightarrow> writable (ph k) pt (addr + of_nat j)"
    and "m = min n (length (queue p))"
  shows "if queue p = [] \<and> writeopen p then piperead pi addr (int n) k = Some (Asleep 0, sleep (PipeRead pi) k)
     else \<exists>p' s'. pipe_ok p' \<and> queue p' = drop m (queue p) \<and> space_ok s' pt xs \<and> user_wrote (ph k) s' pt addr (take m (queue p))
        \<and> piperead pi addr (int n) k = Some (Done (int m), wakeup (PipeWrite pi) (k\<lparr>ph := s', pipes := (pipes k)(pi \<mapsto> p')\<rparr>))"
proof -
  have "queue p = [] \<longleftrightarrow> length (queue p) = 0" by blast
  also have "\<dots> \<longleftrightarrow> nread p = nwrite p" by (auto simp: unat_eq_0)
  finally have e: "queue p = [] \<longleftrightarrow> nread p = nwrite p" .
  have "m = min (n - 0) (length (queue p))" by (simp only: assms(7) diff_zero)
  note r = piperead_loop_queue [where i = 0 and addr = addr and n = n, OF assms(1,2,4-6) le0 this]
  show ?thesis
  proof (cases "queue p = [] \<and> writeopen p")
    case True
    then show ?thesis using assms(1,3) e by (simp add: piperead_def)
  next
    case False
    obtain p' s' where p': "pipe_ok p'" "queue p' = drop m (queue p)" "space_ok s' pt xs" "user_wrote (ph k) s' pt addr (take m (queue p))"
      "piperead_loop pi addr n 0 k = Some (int m, k\<lparr>ph := s', pipes := (pipes k)(pi \<mapsto> p')\<rparr>)"
      using r by auto
    then have "piperead pi addr (int n) k = Some (Done (int m), wakeup (PipeWrite pi) (k\<lparr>ph := s', pipes := (pipes k)(pi \<mapsto> p')\<rparr>))"
      using False assms(1) e by (auto simp: piperead_def)
    with p'(1-4) show ?thesis unfolding if_not_P [OF False] by blast
  qed
qed

section \<open>Witnesses\<close>

text \<open>A kernel with a pipe whose counters are about to wrap and which holds the bytes 7 and 8.\<close>

definition wrapped_pipe :: pipe where
  "wrapped_pipe = new_pipe\<lparr>pi_data := (replicate PIPESIZE 0)[510 := 7, 511 := 8], nread := 0xFFFFFFFE, nwrite := 0\<rparr>"

lemma wrapped_pipe: "pipe_ok wrapped_pipe" "queue wrapped_pipe = [7, 8]" "readopen wrapped_pipe"
  by (simp_all add: pipe_ok_def queue_def ring_def wrapped_pipe_def new_pipe_def upt_rec)

definition pipe_kernel :: "phys \<Rightarrow> kernel" where
  "pipe_kernel s = (user_kernel False 0 s fresh_memstat)\<lparr>pipes := [0 \<mapsto> wrapped_pipe]\<rparr>"

lemma pipe_kernel:
  "ph (pipe_kernel s) = s" "pipes (pipe_kernel s) = [0 \<mapsto> wrapped_pipe]" "p_pagetable (myproc (pipe_kernel s)) = 0x87FFB000"
  "\<not> p_killed (myproc (pipe_kernel s))"
  by (simp_all add: pipe_kernel_def user_kernel_simps swap_proc_def)

theorem pipewrite_appends_witness:
  "\<exists>s p' k'. pipewrite 0 0x1ffd 3 (pipe_kernel s) = Some (Done 3, k') \<and> pipes k' 0 = Some p' \<and> take 2 (queue p') = [7, 8] \<and> length (queue p') = 5"
proof -
  obtain s ys where s: "space_ok s 0x87FFB000 ys" "\<And>va. upage s 0x87FFB000 va \<longleftrightarrow> va = 0x1000"
    by (rule one_user_page) blast
  have b: "user_byte s 0x87FFB000 (0x1ffd + of_nat j) \<noteq> None" if "j < 3" for j
    using page_one [OF that] s(2) by (simp add: user_byte_upage)
  obtain p' where p': "queue p' = [7, 8] @ user_bytes s 0x87FFB000 0x1ffd 3"
    "pipewrite 0 0x1ffd (int 3) (pipe_kernel s) = Some (Done (int 3), wakeup (PipeRead 0) ((pipe_kernel s)\<lparr>pipes := (pipes (pipe_kernel s))(0 \<mapsto> p')\<rparr>))"
    using pipewrite_appends [of "pipe_kernel s" 0 wrapped_pipe "0x87FFB000" ys 3 "0x1ffd" 3] wrapped_pipe s(1) b
    by (auto simp: pipe_kernel simp del: length_queue)
  then have "length (queue p') = 5" "take 2 (queue p') = [7, 8]" by (simp_all add: user_bytes_simps del: length_queue)
  then show ?thesis using p'(2) by (intro exI [of _ s] exI [of _ p']) simp
qed

theorem piperead_takes_witness:
  "\<exists>s k'. piperead 0 0x1ffd 3 (pipe_kernel s) = Some (Done 2, k') \<and> user_byte (ph k') 0x87FFB000 0x1ffd = Some 7
     \<and> user_byte (ph k') 0x87FFB000 0x1ffe = Some 8"
proof -
  obtain s ys where s: "space_ok s 0x87FFB000 ys" "\<And>va. upage s 0x87FFB000 va \<longleftrightarrow> va = 0x1000"
    "pte_of (mem s) 0x87FFB000 0x1000 = PA2PTE 0x87FFC000 OR (PTE_R OR PTE_W OR PTE_U) OR PTE_V"
    by (rule one_user_page) blast
  have b: "writable s 0x87FFB000 (0x1ffd + of_nat j)" if "j < 3" for j
    by (rule one_page_writable [OF s(2,3) page_one [OF that]])
  obtain p' s' where p': "user_wrote s s' 0x87FFB000 0x1ffd [7, 8]"
    "piperead 0 0x1ffd (int 3) (pipe_kernel s) = Some (Done (int 2), wakeup (PipeWrite 0) ((pipe_kernel s)\<lparr>ph := s', pipes := (pipes (pipe_kernel s))(0 \<mapsto> p')\<rparr>))"
    using piperead_takes [of "pipe_kernel s" 0 wrapped_pipe "0x87FFB000" ys 3 "0x1ffd" 2] wrapped_pipe s(1) b
    by (auto simp: pipe_kernel simp del: length_queue)
  have "user_byte s' 0x87FFB000 0x1ffd = Some 7" "user_byte s' 0x87FFB000 0x1ffe = Some 8"
    using user_wrote_nth [OF p'(1), of 0] user_wrote_nth [OF p'(1), of 1] by simp_all
  then show ?thesis using p'(2) by (intro exI [of _ s]) simp
qed

end
