(* ===== verification/Printf.thy ===== *)
theory Printf
  imports Ulib
begin

text \<open>
  Formatted output: \<open>printf\<close> of the kernel (\<open>kernel/printf.c\<close>) and of the user library
  (\<open>user/printf.c\<close>). The result is the list of characters put out; \<open>None\<close> is undefined behaviour of C:
  a write past the end of \<open>buf\<close>, or an argument that is missing or of the wrong kind.
\<close>

section \<open>Numbers\<close>

definition kdigits :: "u8 list" where
  "kdigits = [48, 49, 50, 51, 52, 53, 54, 55, 56, 57, 97, 98, 99, 100, 101, 102]"

definition udigits :: "u8 list" where
  "udigits = [48, 49, 50, 51, 52, 53, 54, 55, 56, 57, 65, 66, 67, 68, 69, 70]"

abbreviation BUFLEN :: nat where "BUFLEN \<equiv> 20"
abbreviation MINUS :: u8 where "MINUS \<equiv> 45"

text \<open>\<open>buf[i++] = c\<close> in a buffer of 20 characters.\<close>

definition buf_put :: "u8 \<Rightarrow> u8 list \<Rightarrow> u8 list option" where
  "buf_put c buf = (if length buf < BUFLEN then Some (buf @ [c]) else None)"

function digit_loop :: "u8 list \<Rightarrow> u64 \<Rightarrow> u64 \<Rightarrow> u8 list \<Rightarrow> u8 list option" where
  "digit_loop D base x buf =
     (case buf_put (D ! unat (x mod base)) buf of
        None \<Rightarrow> None
      | Some buf1 \<Rightarrow> if x div base \<noteq> 0 then digit_loop D base (x div base) buf1 else Some buf1)"
  by pat_completeness auto
termination
  by (relation "measure (\<lambda>(D, base, x, buf). BUFLEN - length buf)") (auto simp: buf_put_def split: if_split_asm)

declare digit_loop.simps [simp del]

text \<open>
  The negation is the machine's, which wraps around: that of the smallest \<open>long long\<close> overflows, and C
  leaves its result open.
\<close>

definition printint :: "u8 list \<Rightarrow> u64 \<Rightarrow> u64 \<Rightarrow> bool \<Rightarrow> u8 list option" where
  "printint D xx base sign =
     (let neg = sign \<and> sint xx < 0;
          x = (if neg then - xx else xx)
      in do {
        buf \<leftarrow> digit_loop D base x [];
        buf1 \<leftarrow> (if neg then buf_put MINUS buf else Some buf);
        Some (rev buf1)
      })"

fun printptr_loop :: "u8 list \<Rightarrow> nat \<Rightarrow> u64 \<Rightarrow> u8 list" where
  "printptr_loop D 0 x = []"
| "printptr_loop D (Suc n) x = D ! unat (drop_bit 60 x) # printptr_loop D n (push_bit 4 x)"

definition printptr :: "u8 list \<Rightarrow> u64 \<Rightarrow> u8 list" where
  "printptr D x = [48, 120] @ printptr_loop D 16 x"

section \<open>Formats\<close>

text \<open>A number takes one 64-bit argument slot; a string is given by its characters, or is the null pointer.\<close>

datatype arg = Num u64 | Str "u8 list option"

fun num_arg :: "arg list \<Rightarrow> (u64 \<times> arg list) option" where
  "num_arg (Num x # as) = Some (x, as)"
| "num_arg _ = None"

fun str_arg :: "arg list \<Rightarrow> (u8 list \<times> arg list) option" where
  "str_arg (Str (Some s) # as) = Some (s, as)"
| "str_arg (Str None # as) = Some ([40, 110, 117, 108, 108, 41], as)"
| "str_arg _ = None"

definition as_int :: "u64 \<Rightarrow> u64" where
  "as_int x = scast (ucast x :: u32)"

definition as_uint :: "u64 \<Rightarrow> u64" where
  "as_uint x = ucast (ucast x :: u32)"

definition put_num :: "u8 list \<Rightarrow> (u64 \<Rightarrow> u64) \<Rightarrow> u64 \<Rightarrow> bool \<Rightarrow> nat \<Rightarrow> arg list \<Rightarrow> (u8 list \<times> nat \<times> arg list) option" where
  "put_num D f base sign skip as = do { (x, as1) \<leftarrow> num_arg as; out \<leftarrow> printint D (f x) base sign; Some (out, skip, as1) }"

text \<open>
  One conversion: the characters after the percent sign (0 past the end of the format) to the output,
  the number of further format characters it uses, and the arguments left.
\<close>

definition format_one :: "u8 list \<Rightarrow> u8 \<Rightarrow> u8 \<Rightarrow> u8 \<Rightarrow> arg list \<Rightarrow> (u8 list \<times> nat \<times> arg list) option" where
  "format_one D c0 c1 c2 as =
     (if c0 = 100 then put_num D as_int 10 True 0 as
      else if c0 = 108 \<and> c1 = 100 then put_num D id 10 True 1 as
      else if c0 = 108 \<and> c1 = 108 \<and> c2 = 100 then put_num D id 10 True 2 as
      else if c0 = 117 then put_num D as_uint 10 False 0 as
      else if c0 = 108 \<and> c1 = 117 then put_num D id 10 False 1 as
      else if c0 = 108 \<and> c1 = 108 \<and> c2 = 117 then put_num D id 10 False 2 as
      else if c0 = 120 then put_num D as_uint 16 False 0 as
      else if c0 = 108 \<and> c1 = 120 then put_num D id 16 False 1 as
      else if c0 = 108 \<and> c1 = 108 \<and> c2 = 120 then put_num D id 16 False 2 as
      else if c0 = 112 then do { (x, as1) \<leftarrow> num_arg as; Some (printptr D x, 0, as1) }
      else if c0 = 99 then do { (x, as1) \<leftarrow> num_arg as; Some ([ucast x], 0, as1) }
      else if c0 = 115 then do { (s, as1) \<leftarrow> str_arg as; Some (s, 0, as1) }
      else if c0 = 37 then Some ([37], 0, as)
      else Some ([37, c0], 0, as))"

definition at :: "u8 list \<Rightarrow> nat \<Rightarrow> u8" where
  "at fmt i = (if i < length fmt then fmt ! i else 0)"

text \<open>The kernel's loop over the format, on what is left of it.\<close>

function kprintf :: "u8 list \<Rightarrow> arg list \<Rightarrow> u8 list option" where
  "kprintf fmt as =
     (case fmt of
        [] \<Rightarrow> Some []
      | cx # f \<Rightarrow>
          if cx \<noteq> 37 then map_option (Cons cx) (kprintf f as)
          else if f = [] then Some []
          else case format_one kdigits (at f 0) (at f 1) (if at f 1 \<noteq> 0 then at f 2 else 0) as of
                 None \<Rightarrow> None
               | Some (out, skip, as1) \<Rightarrow> map_option (append out) (kprintf (drop (Suc skip) f) as1))"
  by pat_completeness auto
termination
  by (relation "measure (\<lambda>(fmt, as). length fmt)") auto

text \<open>The user library's loop, which keeps in \<open>state\<close> whether the last character was a percent sign.\<close>

function vprintf_loop :: "u8 list \<Rightarrow> bool \<Rightarrow> arg list \<Rightarrow> u8 list option" where
  "vprintf_loop fmt state as =
     (case fmt of
        [] \<Rightarrow> Some []
      | c0 # f \<Rightarrow>
          if \<not> state
          then if c0 = 37 then vprintf_loop f True as else map_option (Cons c0) (vprintf_loop f False as)
          else case format_one udigits c0 (at f 0) (if at f 0 \<noteq> 0 then at f 1 else 0) as of
                 None \<Rightarrow> None
               | Some (out, skip, as1) \<Rightarrow> map_option (append out) (vprintf_loop (drop skip f) False as1))"
  by pat_completeness auto
termination
  by (relation "measure (\<lambda>(fmt, state, as). length fmt)") auto

definition vprintf :: "u8 list \<Rightarrow> arg list \<Rightarrow> u8 list option" where
  "vprintf fmt as = vprintf_loop fmt False as"

declare kprintf.simps [simp del] vprintf_loop.simps [simp del]

section \<open>Digits\<close>

text \<open>The digits of a number, the lowest first.\<close>

function digs :: "nat \<Rightarrow> nat \<Rightarrow> nat list" where
  "digs b n = (n mod b) # (if 1 < b \<and> n div b \<noteq> 0 then digs b (n div b) else [])"
  by pat_completeness auto
termination
  by (relation "measure snd") (auto simp: div_less_dividend div_greater_zero_iff intro!: Nat.gr0I)

declare digs.simps [simp del]

lemma digs_value: "1 < b \<Longrightarrow> foldr (\<lambda>d v. d + b * v) (digs b n) 0 = n"
proof (induction b n rule: digs.induct)
  case (1 b n)
  then show ?case by (subst digs.simps) (auto simp: mod_eq_self_iff_div_eq_0)
qed

lemma digs_less: "1 < b \<Longrightarrow> d \<in> set (digs b n) \<Longrightarrow> d < b"
proof (induction b n rule: digs.induct)
  case (1 b n)
  then show ?case by (subst (asm) digs.simps) (auto split: if_split_asm)
qed

lemma digs_length: "1 < b \<Longrightarrow> n < b ^ Suc k \<Longrightarrow> length (digs b n) \<le> Suc k"
proof (induction k arbitrary: n)
  case 0
  then show ?case by (subst digs.simps) simp
next
  case (Suc k)
  have "n div b < b ^ Suc k" using Suc.prems by (simp add: less_mult_imp_div_less mult.commute)
  then show ?case using Suc.IH [of "n div b"] Suc.prems(1) by (subst digs.simps) simp
qed

lemma digs_last: "1 < b \<Longrightarrow> last (digs b n) = 0 \<Longrightarrow> digs b n = [0]"
proof (induction b n rule: digs.induct)
  case (1 b n)
  show ?case
  proof (cases "n div b = 0")
    case True
    then show ?thesis using 1(3) by (subst digs.simps) (subst (asm) digs.simps, simp)
  next
    case False
    have ne: "digs b (n div b) \<noteq> []" by (subst digs.simps) simp
    have e: "digs b n = n mod b # digs b (n div b)" using False 1(2) by (subst digs.simps) simp
    then have "last (digs b (n div b)) = 0" using 1(3) ne by simp
    then have "digs b (n div b) = [0]" using 1(1) [OF _ 1(2)] 1(2) False by simp
    then have "n div b = 0" using digs_value [OF 1(2), of "n div b"] by simp
    then show ?thesis using False by simp
  qed
qed

lemma digit_loop_digs:
  assumes "1 < unat base" "length buf + length (digs (unat base) (unat x)) \<le> BUFLEN"
  shows "digit_loop D base x buf = Some (buf @ map ((!) D) (digs (unat base) (unat x)))"
  using assms
proof (induction D base x buf rule: digit_loop.induct)
  case (1 D base x buf)
  let ?b = "unat base" and ?n = "unat x"
  have d: "unat (x div base) = ?n div ?b" "unat (x mod base) = ?n mod ?b" by (simp_all add: unat_div unat_mod)
  have len: "length buf < BUFLEN" using 1(3) by (subst (asm) digs.simps) simp
  then have p: "buf_put (D ! (?n mod ?b)) buf = Some (buf @ [D ! (?n mod ?b)])" by (simp add: buf_put_def)
  show ?case
  proof (cases "x div base = 0")
    case True
    then have "digs ?b ?n = [?n mod ?b]" using d(1) by (subst digs.simps) simp
    then show ?thesis using True p d(2) by (subst digit_loop.simps) simp
  next
    case False
    then have ne: "?n div ?b \<noteq> 0" using d(1) by (metis unat_eq_zero)
    have e: "digs ?b ?n = ?n mod ?b # digs ?b (?n div ?b)" using ne 1(2) by (subst digs.simps) simp
    have "digit_loop D base (x div base) (buf @ [D ! (?n mod ?b)]) = Some ((buf @ [D ! (?n mod ?b)]) @ map ((!) D) (digs ?b (?n div ?b)))"
      using 1(1) [of "buf @ [D ! (?n mod ?b)]"] False p d 1(2,3) e by simp
    then show ?thesis using False p d(2) e by (subst digit_loop.simps) simp
  qed
qed

section \<open>Reading numbers back\<close>

definition digit_of :: "u8 list \<Rightarrow> u8 \<Rightarrow> nat" where
  "digit_of D c = the (first_idx (\<lambda>d. d = c) D)"

definition read_nat :: "u8 list \<Rightarrow> nat \<Rightarrow> u8 list \<Rightarrow> nat" where
  "read_nat D b cs = foldl (\<lambda>v c. v * b + digit_of D c) 0 cs"

definition read_int :: "u8 list \<Rightarrow> nat \<Rightarrow> u8 list \<Rightarrow> int" where
  "read_int D b cs = (if cs \<noteq> [] \<and> hd cs = MINUS then - int (read_nat D b (tl cs)) else int (read_nat D b cs))"

lemma tables: "D = kdigits \<or> D = udigits \<Longrightarrow> length D = 16 \<and> distinct D \<and> MINUS \<notin> set D"
  by (auto simp: kdigits_def udigits_def)

lemma digit_of_nth: "distinct D \<Longrightarrow> d < length D \<Longrightarrow> digit_of D (D ! d) = d"
proof -
  assume "distinct D" "d < length D"
  then have "first_idx (\<lambda>x. x = D ! d) D = Some d" by (auto simp: first_idx_Some_iff nth_eq_iff_index_eq)
  then show ?thesis by (simp add: digit_of_def)
qed

lemma read_nat_digs:
  assumes "distinct D" "\<forall>d \<in> set ds. d < length D"
  shows "read_nat D b (rev (map ((!) D) ds)) = foldr (\<lambda>d v. d + b * v) ds 0"
proof -
  have "foldr (\<lambda>c v. v * b + digit_of D c) (map ((!) D) ds) 0 = foldr (\<lambda>d v. d + b * v) ds 0"
    using assms(2) by (induction ds) (simp_all add: digit_of_nth [OF assms(1)])
  then show ?thesis by (simp add: read_nat_def foldl_conv_foldr)
qed

lemma digits_read:
  assumes "D = kdigits \<or> D = udigits" "1 < b" "b \<le> 16"
  shows "read_nat D b (rev (map ((!) D) (digs b n))) = n"
    "set (rev (map ((!) D) (digs b n))) \<subseteq> set D" "rev (map ((!) D) (digs b n)) \<noteq> []"
proof -
  have "\<forall>d \<in> set (digs b n). d < length D" using digs_less [OF assms(2)] tables [OF assms(1)] assms(3) by (auto dest!: order.strict_trans2)
  then show "read_nat D b (rev (map ((!) D) (digs b n))) = n" "set (rev (map ((!) D) (digs b n))) \<subseteq> set D"
    using read_nat_digs [of D "digs b n" b] digs_value [OF assms(2), of n] tables [OF assms(1)] by auto
  show "rev (map ((!) D) (digs b n)) \<noteq> []" by (subst digs.simps) simp
qed

definition formats :: "(nat \<times> bool) set" where
  "formats = {(10, True), (10, False), (16, False)}"

lemma abs_bound:
  fixes xx :: u64
  shows "sint xx < 0 \<Longrightarrow> int (unat (- xx)) = - sint xx \<and> unat (- xx) < 10 ^ 19" "0 \<le> sint xx \<Longrightarrow> int (unat xx) = sint xx"
proof -
  have b: "- (2 ^ 63) \<le> sint xx" "sint xx < 2 ^ 63" using sint_range_size [of xx] by (simp_all add: size_word_def)
  show "int (unat (- xx)) = - sint xx \<and> unat (- xx) < 10 ^ 19" if "sint xx < 0"
  proof -
    have "uint (- xx) = (- uint xx) mod 2 ^ 64" by (simp add: uint_word_ariths)
    also have "\<dots> = (- sint xx) mod 2 ^ 64" unfolding uint_sint take_bit_eq_mod by (simp add: mod_minus_eq)
    also have "\<dots> = - sint xx" using b that by simp
    finally have "int (unat (- xx)) = - sint xx" by simp
    moreover from this have "int (unat (- xx)) < int (10 ^ 19)" using b by simp
    ultimately show ?thesis by (simp only: of_nat_less_iff simp_thms)
  qed
  show "int (unat xx) = sint xx" if "0 \<le> sint xx"
    using that b uint_sint [of xx] by (simp add: take_bit_eq_mod)
qed

text \<open>
  C35: \<open>printint\<close> never writes past its 20-character buffer, for every 64-bit value and every base
  and sign that \<open>printf\<close> uses, in the kernel and in the user library, and the characters it prints
  denote the number: read back in that base they give it again. There is no leading zero.
\<close>

theorem printint_denotes:
  assumes "D = kdigits \<or> D = udigits" and "(b, sign) \<in> formats"
  shows "\<exists>out. printint D xx (of_nat b) sign = Some out \<and> length out \<le> BUFLEN
     \<and> read_int D b out = (if sign then sint xx else uint xx) \<and> (hd out = D ! 0 \<longrightarrow> out = [D ! 0])"
proof -
  have b: "1 < b" "b \<le> 16" "unat (of_nat b :: u64) = b" using assms(2) by (auto simp: formats_def)
  define neg where "neg \<longleftrightarrow> sign \<and> sint xx < 0"
  define x where "x = (if neg then - xx else xx)"
  define ds where "ds = digs b (unat x)"
  have "length ds \<le> (if neg then 19 else 20)"
  proof (cases neg)
    case True
    then have "unat x < 10 ^ Suc 18" "b = 10" using abs_bound(1) [of xx] assms(2) by (auto simp: x_def neg_def formats_def)
    then show ?thesis using digs_length [of 10 "unat x" 18] True by (simp add: ds_def)
  next
    case False
    have "unat x < 2 ^ 64" by (rule unat_bound64)
    also have "(2 :: nat) ^ 64 \<le> 10 ^ 20" by simp
    also have "(10 :: nat) ^ 20 \<le> b ^ 20" using assms(2) by (auto simp: formats_def intro: power_mono)
    finally show ?thesis using digs_length [OF b(1), of "unat x" 19] False by (simp add: ds_def)
  qed
  then have len: "length ds \<le> 20" "neg \<Longrightarrow> length ds < 20" by (auto split: if_split_asm)
  have loop: "digit_loop D (of_nat b) x [] = Some (map ((!) D) ds)"
    using digit_loop_digs [of "of_nat b" "[]" x D] b len(1) by (simp add: ds_def)
  let ?cs = "rev (map ((!) D) ds)"
  define out where "out = (if neg then MINUS # ?cs else ?cs)"
  have run: "printint D xx (of_nat b) sign = Some out"
    using loop len(2) by (simp add: printint_def Let_def neg_def [symmetric] x_def [symmetric] buf_put_def out_def)
  note r = digits_read [OF assms(1) b(1,2), of "unat x", folded ds_def]
  have m: "hd ?cs \<noteq> MINUS" using r(2,3) tables [OF assms(1)] by (cases ?cs) auto
  have "read_int D b out = (if neg then - int (unat x) else int (unat x))"
    using r(1) m by (simp add: read_int_def out_def)
  also have "\<dots> = (if sign then sint xx else uint xx)"
    using abs_bound [of xx] by (auto simp: x_def neg_def)
  finally have v: "read_int D b out = (if sign then sint xx else uint xx)" .
  have "hd out = D ! 0 \<longrightarrow> out = [D ! 0]"
  proof
    assume h: "hd out = D ! 0"
    have D0: "D ! 0 \<in> set D" using tables [OF assms(1)] by simp
    have nn: "\<not> neg"
    proof
      assume neg
      then have "D ! 0 = MINUS" using h by (simp add: out_def)
      then show False using D0 tables [OF assms(1)] by simp
    qed
    have dsn: "ds \<noteq> []" using r(3) by auto
    then have "D ! last ds = D ! 0" using h nn by (simp add: out_def hd_rev last_map)
    moreover have "last ds < 16" using digs_less [OF b(1), of "last ds" "unat x"] dsn b(2) by (simp add: ds_def)
    ultimately have "last ds = 0" using tables [OF assms(1)] by (simp add: nth_eq_iff_index_eq)
    then have "ds = [0]" using digs_last [OF b(1), of "unat x"] by (simp add: ds_def)
    then show "out = [D ! 0]" using nn by (simp add: out_def)
  qed
  then show ?thesis using run v len by (auto simp: out_def)
qed

theorem printint_denotes_witness:
  "\<exists>out. printint kdigits 0x8000000000000000 10 True = Some out \<and> read_int kdigits 10 out = - 9223372036854775808"
  using printint_denotes [of kdigits 10 True "0x8000000000000000"] by (auto simp: formats_def)

section \<open>The two implementations\<close>

lemma format_one_skip: "format_one D c0 c1 c2 as = Some (out, skip, as1) \<Longrightarrow> c0 \<noteq> 0 \<Longrightarrow> skip \<le> 2"
  by (auto simp: format_one_def put_num_def bind_eq_Some_conv split: if_split_asm)

text \<open>A format without hexadecimal conversions.\<close>

definition no_hex :: "u8 list \<Rightarrow> bool" where
  "no_hex fmt \<longleftrightarrow> 120 \<notin> set fmt \<and> 112 \<notin> set fmt"

lemma printint_tables: "printint udigits xx 10 sign = printint kdigits xx 10 sign"
proof -
  have d: "d < 10 \<Longrightarrow> udigits ! d = kdigits ! d" for d
    by (auto simp: udigits_def kdigits_def nth_Cons' numeral_eq_Suc less_Suc_eq)
  have "digit_loop udigits 10 x buf = digit_loop kdigits 10 x buf" for x buf
  proof (induction kdigits "10 :: u64" x buf rule: digit_loop.induct)
    case (1 x buf)
    have "unat (x mod 10) < 10" by (simp add: unat_mod)
    then have e: "udigits ! unat (x mod 10) = kdigits ! unat (x mod 10)" by (rule d)
    show ?case
      using 1 by (subst (1 2) digit_loop.simps) (simp add: e split: option.split)
  qed
  then show ?thesis by (simp add: printint_def)
qed

lemma format_one_tables:
  assumes "c0 \<noteq> 120" "c1 \<noteq> 120" "c2 \<noteq> 120" "c0 \<noteq> 112"
  shows "format_one udigits c0 c1 c2 as = format_one kdigits c0 c1 c2 as"
  using assms by (simp add: format_one_def put_num_def printint_tables)

lemma vprintf_kprintf:
  assumes "no_hex fmt" "0 \<notin> set fmt"
  shows "vprintf_loop fmt False as = kprintf fmt as"
  using assms
proof (induction "length fmt" arbitrary: fmt as rule: less_induct)
  case less
  show ?case
  proof (cases fmt)
    case Nil
    then show ?thesis by (subst vprintf_loop.simps, subst kprintf.simps) simp
  next
    case (Cons cx f)
    have f: "no_hex f" "0 \<notin> set f" using less.prems Cons by (auto simp: no_hex_def)
    show ?thesis
    proof (cases "cx = 37 \<and> f \<noteq> []")
      case False
      then show ?thesis using less.hyps [of f as] Cons f
        by (subst vprintf_loop.simps, subst kprintf.simps) (auto simp: vprintf_loop.simps [of "[]"])
    next
      case True
      then obtain c0 f1 where f1: "f = c0 # f1" by (cases f) auto
      define c1 c2 where "c1 = at f1 0" and "c2 = (if at f1 0 \<noteq> 0 then at f1 1 else 0)"
      have at: "at (c0 # f1) 0 = c0" "at (c0 # f1) 1 = c1" "(if c1 \<noteq> 0 then at (c0 # f1) 2 else 0) = c2"
        by (auto simp: at_def nth_Cons' c1_def c2_def)
      have "c1 \<in> insert 0 (set f1)" "c2 \<in> insert 0 (set f1)" by (auto simp: at_def c1_def c2_def)
      then have e: "format_one udigits c0 c1 c2 as = format_one kdigits c0 c1 c2 as"
        using f f1 by (intro format_one_tables) (auto simp: no_hex_def)
      have "vprintf_loop (drop skip f1) False as1 = kprintf (drop skip f1) as1" for skip as1
      proof -
        have "set (drop skip f1) \<subseteq> set f1" by (rule set_drop_subset)
        then have "no_hex (drop skip f1)" "0 \<notin> set (drop skip f1)" using f f1 by (auto simp: no_hex_def)
        then show ?thesis using less.hyps [of "drop skip f1" as1] Cons f1 by simp
      qed
      moreover have "kprintf fmt as = (case format_one kdigits c0 c1 c2 as of None \<Rightarrow> None
          | Some (out, skip, as1) \<Rightarrow> map_option (append out) (kprintf (drop skip f1) as1))"
        using True by (subst kprintf.simps) (simp only: Cons list.case at if_False simp_thms f1 drop_Suc_Cons list.distinct)
      moreover have "vprintf_loop fmt False as = vprintf_loop f True as"
        using True Cons by (subst vprintf_loop.simps) simp
      moreover have "vprintf_loop f True as = (case format_one udigits c0 c1 c2 as of None \<Rightarrow> None
          | Some (out, skip, as1) \<Rightarrow> map_option (append out) (vprintf_loop (drop skip f1) False as1))"
        by (subst vprintf_loop.simps) (simp only: f1 list.case c1_def c2_def not_True_eq_False if_False)
      ultimately show ?thesis
        unfolding e by (simp only: split: option.split)
    qed
  qed
qed

end
