(* ===== verification/Umalloc.thy ===== *)
theory Umalloc
  imports Prelude
begin

text \<open>
  The user-level allocator (\<open>user/umalloc.c\<close>): the circular, address-ordered list of free blocks that
  \<open>malloc\<close> and \<open>free\<close> keep in the memory they manage. A header is 16 bytes; \<open>hptr\<close> and \<open>hsize\<close> are the
  two fields of the headers in memory, by address. \<open>None\<close> stands for a loop that does not end.

  \<open>sbrk\<close> is a system call: \<open>grow b n\<close> says whether the kernel moves a break at \<open>b\<close> by \<open>n\<close> bytes.
\<close>

section \<open>Operations\<close>

record uheap =
  hptr :: "u64 \<Rightarrow> u64"
  hsize :: "u64 \<Rightarrow> u32"
  freep :: u64
  brk :: u64

definition set_ptr :: "u64 \<Rightarrow> u64 \<Rightarrow> uheap \<Rightarrow> uheap" where
  "set_ptr a v h = h\<lparr>hptr := (hptr h)(a := v)\<rparr>"

definition set_size :: "u64 \<Rightarrow> u32 \<Rightarrow> uheap \<Rightarrow> uheap" where
  "set_size a n h = h\<lparr>hsize := (hsize h)(a := n)\<rparr>"

text \<open>\<open>a + n\<close> on a pointer to headers.\<close>

definition hadd :: "u64 \<Rightarrow> u32 \<Rightarrow> u64" where
  "hadd a n = a + 16 * ucast n"

partial_function (option) free_loop :: "uheap \<Rightarrow> u64 \<Rightarrow> u64 \<Rightarrow> u64 option" where
  "free_loop h bp p =
     (if bp > p \<and> bp < hptr h p then Some p
      else if p \<ge> hptr h p \<and> (bp > p \<or> bp < hptr h p) then Some p
      else free_loop h bp (hptr h p))"

definition free :: "u64 \<Rightarrow> uheap \<Rightarrow> uheap option" where
  "free ap h =
     (let bp = ap - 16
      in do {
        p \<leftarrow> free_loop h bp (freep h);
        let h1 = (if hadd bp (hsize h bp) = hptr h p
                  then set_ptr bp (hptr h (hptr h p)) (set_size bp (hsize h bp + hsize h (hptr h p)) h)
                  else set_ptr bp (hptr h p) h);
            h2 = (if hadd p (hsize h1 p) = bp
                  then set_ptr p (hptr h1 bp) (set_size p (hsize h1 p + hsize h1 bp) h1)
                  else set_ptr p bp h1)
        in Some (h2\<lparr>freep := p\<rparr>)
      })"

abbreviation SBRK_ERROR :: u64 where "SBRK_ERROR \<equiv> 0xFFFFFFFFFFFFFFFF"

definition sbrk :: "(u64 \<Rightarrow> int \<Rightarrow> bool) \<Rightarrow> int \<Rightarrow> uheap \<Rightarrow> u64 \<times> uheap" where
  "sbrk grow n h = (if grow (brk h) n then (brk h, h\<lparr>brk := brk h + of_int n\<rparr>) else (SBRK_ERROR, h))"

text \<open>The result 0 is the null pointer. The argument of \<open>sbrk\<close> is an \<open>int\<close>.\<close>

definition morecore :: "(u64 \<Rightarrow> int \<Rightarrow> bool) \<Rightarrow> u32 \<Rightarrow> uheap \<Rightarrow> (u64 \<times> uheap) option" where
  "morecore grow nu h =
     (let nu1 = (if nu < 4096 then 4096 else nu)
      in case sbrk grow (sint (ucast (16 * ucast nu1 :: u64) :: u32)) h of (p, h1) \<Rightarrow>
           if p = SBRK_ERROR then Some (0, h1)
           else do {
             h2 \<leftarrow> free (p + 16) (set_size p nu1 h1);
             Some (freep h2, h2)
           })"

text \<open>Taking \<open>nunits\<close> from the block \<open>p\<close>, whose predecessor in the list is \<open>prevp\<close>.\<close>

definition take_block :: "u32 \<Rightarrow> u64 \<Rightarrow> u64 \<Rightarrow> uheap \<Rightarrow> u64 \<times> uheap" where
  "take_block nunits prevp p h =
     (if hsize h p = nunits then (p + 16, (set_ptr prevp (hptr h p) h)\<lparr>freep := prevp\<rparr>)
      else let h1 = set_size p (hsize h p - nunits) h;
               q = hadd p (hsize h1 p)
           in (q + 16, (set_size q nunits h1)\<lparr>freep := prevp\<rparr>))"

partial_function (option) malloc_loop :: "(u64 \<Rightarrow> int \<Rightarrow> bool) \<Rightarrow> u32 \<Rightarrow> u64 \<Rightarrow> u64 \<Rightarrow> uheap \<Rightarrow> (u64 \<times> uheap) option" where
  "malloc_loop grow nunits prevp p h =
     (if hsize h p \<ge> nunits then Some (take_block nunits prevp p h)
      else if p = freep h
      then Option.bind (morecore grow nunits h) (\<lambda>(q, h1).
             if q = 0 then Some (0, h1) else malloc_loop grow nunits q (hptr h1 q) h1)
      else malloc_loop grow nunits p (hptr h p) h)"

definition units :: "u32 \<Rightarrow> u32" where
  "units nbytes = ucast ((ucast nbytes + 16 - 1) div 16 + 1 :: u64)"

definition malloc :: "(u64 \<Rightarrow> int \<Rightarrow> bool) \<Rightarrow> u64 \<Rightarrow> u32 \<Rightarrow> uheap \<Rightarrow> (u64 \<times> uheap) option" where
  "malloc grow base nbytes h =
     (let h1 = (if freep h = 0 then (set_size base 0 (set_ptr base base h))\<lparr>freep := base\<rparr> else h);
          prevp = freep h1
      in malloc_loop grow (units nbytes) prevp (hptr h1 prevp) h1)"

lemma heap_simps [simp]:
  "hptr (set_ptr a v h) = (hptr h)(a := v)" "hsize (set_ptr a v h) = hsize h" "freep (set_ptr a v h) = freep h" "brk (set_ptr a v h) = brk h"
  "hptr (set_size a n h) = hptr h" "hsize (set_size a n h) = (hsize h)(a := n)" "freep (set_size a n h) = freep h" "brk (set_size a n h) = brk h"
  by (simp_all add: set_ptr_def set_size_def)

section \<open>The list of free blocks\<close>

text \<open>\<open>hlinked f xs z\<close>: following \<open>f\<close> from the first element of \<open>xs\<close> visits \<open>xs\<close> and then \<open>z\<close>.\<close>

fun hlinked :: "(u64 \<Rightarrow> u64) \<Rightarrow> u64 list \<Rightarrow> u64 \<Rightarrow> bool" where
  "hlinked f [] z = True"
| "hlinked f [x] z = (f x = z)"
| "hlinked f (x # y # xs) z = (f x = y \<and> hlinked f (y # xs) z)"

lemma hlinked_append: "xs \<noteq> [] \<Longrightarrow> ys \<noteq> [] \<Longrightarrow> hlinked f (xs @ ys) z \<longleftrightarrow> hlinked f xs (hd ys) \<and> hlinked f ys z"
  by (induction f xs z rule: hlinked.induct) (auto simp: neq_Nil_conv)

lemma hlinked_upd: "a \<notin> set xs \<Longrightarrow> hlinked (f(a := v)) xs z = hlinked f xs z"
  by (induction f xs z rule: hlinked.induct) auto

lemma hlinked_nth: "hlinked f xs z \<Longrightarrow> i < length xs \<Longrightarrow> f (xs ! i) = (if Suc i < length xs then xs ! Suc i else z)"
proof (induction f xs z arbitrary: i rule: hlinked.induct)
  case (3 f x y xs z)
  then show ?case by (cases i) auto
qed auto

lemma hlinked_relink:
  "hlinked f cs z \<Longrightarrow> (L \<noteq> [] \<Longrightarrow> hlinked f L p) \<Longrightarrow> p \<notin> set L \<union> set cs \<Longrightarrow> hlinked (f(p := hd (cs @ [z]))) (L @ p # cs) z"
  by (cases "L = []"; cases cs) (auto simp: hlinked_append hlinked_upd)

lemma hlinked_around:
  "hlinked f (L @ p # rs) z \<Longrightarrow> L \<noteq> [] \<Longrightarrow> hlinked f L p" "hlinked f (L @ p # rs) z \<Longrightarrow> hlinked f rs z"
  by (cases "L = []"; cases rs; auto simp: hlinked_append)+

definition bend :: "u64 \<times> u32 \<Rightarrow> nat" where
  "bend b = unat (fst b) + 16 * unat (snd b)"

definition ahead :: "u64 \<times> u32 \<Rightarrow> u64 \<times> u32 \<Rightarrow> bool" where
  "ahead b c \<longleftrightarrow> bend b < unat (fst c)"

text \<open>
  \<open>chain h bs\<close>: the headers of the blocks \<open>bs\<close> form a circular list in the order of their addresses, and
  no two of the blocks overlap or touch.
\<close>

definition chain :: "uheap \<Rightarrow> (u64 \<times> u32) list \<Rightarrow> bool" where
  "chain h bs \<longleftrightarrow> bs \<noteq> [] \<and> sorted_wrt ahead bs \<and> hlinked (hptr h) (map fst bs) (fst (hd bs))
     \<and> (\<forall>c \<in> set bs. hsize h (fst c) = snd c \<and> bend c < 2 ^ 36)"

definition bytes_of :: "u64 \<times> u32 \<Rightarrow> nat set" where
  "bytes_of b = {unat (fst b) ..< bend b}"

definition all_bytes :: "(u64 \<times> u32) set \<Rightarrow> nat set" where
  "all_bytes B = (\<Union>b \<in> B. bytes_of b)"

lemma all_bytes_simps [simp]: "all_bytes {} = {}" "all_bytes (insert b B) = bytes_of b \<union> all_bytes B" "all_bytes (A \<union> B) = all_bytes A \<union> all_bytes B"
  by (simp_all add: all_bytes_def)

lemma ahead_trans: "ahead a b \<Longrightarrow> ahead b c \<Longrightarrow> ahead a c"
  by (simp add: ahead_def bend_def)

lemma unat_units: "unat (16 * ucast n :: u64) = 16 * unat (n :: u32)"
proof -
  have n: "unat n < 2 ^ 32" using unsigned_less [of n] by simp
  moreover have "unat (ucast n :: u64) = unat n"
    using n by (simp add: unsigned_ucast_eq take_bit_nat_eq_self_iff)
  ultimately show ?thesis by (simp add: unat_word_ariths)
qed

lemma unat_hadd: "unat a + 16 * unat n < 2 ^ 64 \<Longrightarrow> unat (hadd a n) = unat a + 16 * unat n"
  using unat_units [of n] by (simp add: hadd_def unat_word_ariths)

lemma chain_nth_less:
  assumes "chain h bs" "i < j" "j < length bs"
  shows "fst (bs ! i) < fst (bs ! j)"
proof -
  have "ahead (bs ! i) (bs ! j)"
    using assms unfolding chain_def by (meson sorted_wrt_nth_less)
  then show ?thesis by (simp add: ahead_def bend_def word_less_nat_alt)
qed

lemma chain_next:
  assumes "chain h bs" "i < length bs"
  shows "hptr h (fst (bs ! i)) = (if Suc i < length bs then fst (bs ! Suc i) else fst (bs ! 0))"
  using assms hlinked_nth [of "hptr h" "map fst bs" "fst (hd bs)" i]
  by (auto simp: chain_def hd_conv_nth)

lemma free_loop_finds:
  assumes c: "chain h bs" and j: "j < length bs" "fst (bs ! j) < b" "Suc j < length bs \<Longrightarrow> b < fst (bs ! Suc j)" "fst (bs ! 0) < b"
    and i: "i < length bs"
  shows "free_loop h b (fst (bs ! i)) = Some (fst (bs ! j))"
  using i
proof (induction "if i \<le> j then j - i else length bs + j - i" arbitrary: i rule: less_induct)
  case less
  note lt = chain_nth_less [OF c]
  note nx = chain_next [OF c less.prems]
  have step: "free_loop h b (fst (bs ! i)) = Some (fst (bs ! j))"
    if "free_loop h b (fst (bs ! i)) = free_loop h b (fst (bs ! k))" "k < length bs"
      "(if k \<le> j then j - k else length bs + j - k) < (if i \<le> j then j - i else length bs + j - i)" for k
    using less.hyps [OF that(3) that(2)] that(1) by simp
  consider "i = j" | "i < j" | "j < i" by linarith
  then show ?case
  proof cases
    case 1
    then show ?thesis
      using j lt [of 0 j] nx by (subst free_loop.simps) (cases "j = 0"; auto)
  next
    case 2
    have le: "fst (bs ! Suc i) \<le> fst (bs ! j)"
      using 2 j(1) lt [of "Suc i" j] by (cases "Suc i = j") auto
    have "free_loop h b (fst (bs ! i)) = free_loop h b (fst (bs ! Suc i))"
      using 2 j(1,2) le lt [of i "Suc i"] nx by (subst free_loop.simps) auto
    then show ?thesis by (rule step) (use 2 j in auto)
  next
    case 3
    have gt: "b < fst (bs ! i)"
      using 3 j(1,3) less.prems lt [of "Suc j" i] by (cases "Suc j = i") auto
    show ?thesis
    proof (cases "Suc i < length bs")
      case True
      have "free_loop h b (fst (bs ! i)) = free_loop h b (fst (bs ! Suc i))"
        using 3 gt True lt [of i "Suc i"] nx by (subst free_loop.simps) auto
      then show ?thesis by (rule step) (use 3 True in auto)
    next
      case False
      have "free_loop h b (fst (bs ! i)) = free_loop h b (fst (bs ! 0))"
        using 3 gt False j(4) nx by (subst free_loop.simps) auto
      then show ?thesis by (rule step) (use 3 j(1) less.prems in auto)
    qed
  qed
qed


text \<open>
  What \<open>free\<close> leaves of the list when the block \<open>(b, n)\<close> comes between \<open>pb\<close> and \<open>R\<close>.
\<close>

fun join_next :: "u64 \<Rightarrow> u32 \<Rightarrow> (u64 \<times> u32) list \<Rightarrow> (u64 \<times> u32) list" where
  "join_next b n [] = [(b, n)]"
| "join_next b n (c # R) = (if bend (b, n) = unat (fst c) then (b, n + snd c) # R else (b, n) # c # R)"

definition join_prev :: "u64 \<times> u32 \<Rightarrow> (u64 \<times> u32) list \<Rightarrow> (u64 \<times> u32) list" where
  "join_prev pb cs = (if bend pb = unat (fst (hd cs)) then (fst pb, snd pb + snd (hd cs)) # tl cs else pb # cs)"

lemma join_next_cases:
  obtains "join_next b n R = (b, n) # R" "R \<noteq> [] \<Longrightarrow> bend (b, n) \<noteq> unat (fst (hd R))"
    | c R' where "R = c # R'" "bend (b, n) = unat (fst c)" "join_next b n R = (b, n + snd c) # R'"
  by (cases R) (auto split: if_splits)

definition fits_between :: "u64 \<times> u32 \<Rightarrow> u64 \<times> u32 \<Rightarrow> (u64 \<times> u32) list \<Rightarrow> bool" where
  "fits_between pb b R \<longleftrightarrow> bend pb \<le> unat (fst b) \<and> fst pb < fst b \<and> snd b \<noteq> 0 \<and> bend b < 2 ^ 36 \<and> (\<forall>c \<in> set R. bend b \<le> unat (fst c))"

lemma unat_add_blocks:
  assumes "bend (b, n) = unat (fst c)" "bend c < 2 ^ 36"
  shows "unat (n + snd c) = unat n + unat (snd c)"
  using assms by (simp add: bend_def unat_word_ariths)

lemma join_next_ok:
  assumes "sorted_wrt ahead (pb # R)" "fits_between pb (b, n) R" "\<forall>c \<in> set R. bend c < 2 ^ 36"
  shows "sorted_wrt ahead (join_next b n R)" "\<forall>c \<in> set (join_next b n R). bend c < 2 ^ 36"
    "all_bytes (set (join_next b n R)) = bytes_of (b, n) \<union> all_bytes (set R)"
    "fst (hd (join_next b n R)) = b" "\<forall>c \<in> set (tl (join_next b n R)). ahead pb c"
    "set (tl (join_next b n R)) \<subseteq> set R"
proof -
  show "sorted_wrt ahead (join_next b n R)"
  proof (cases rule: join_next_cases [of b n R])
    case 1
    have "ahead (b, n) c" if c: "c \<in> set R" for c
    proof (cases R)
      case (Cons d R')
      have "bend (b, n) < unat (fst d)"
        using 1(2) assms(2) Cons by (fastforce simp: fits_between_def)
      then show ?thesis using assms(1) c Cons ahead_trans [of "(b, n)" d c] by (auto simp: ahead_def)
    qed (use c in simp)
    then show ?thesis using 1 assms by auto
  next
    case (2 c R')
    then show ?thesis using assms unat_add_blocks [of b n c] by (auto simp: ahead_def bend_def)
  qed
  show "\<forall>c \<in> set (join_next b n R). bend c < 2 ^ 36"
  proof (cases rule: join_next_cases [of b n R])
    case 1
    then show ?thesis using assms by (auto simp: fits_between_def)
  next
    case (2 c R')
    then show ?thesis using assms unat_add_blocks [of b n c] by (auto simp: bend_def)
  qed
  show "all_bytes (set (join_next b n R)) = bytes_of (b, n) \<union> all_bytes (set R)"
  proof (cases rule: join_next_cases [of b n R])
    case (2 c R')
    then show ?thesis using assms unat_add_blocks [of b n c] by (auto simp: bend_def bytes_of_def)
  qed auto
  show "fst (hd (join_next b n R)) = b" "\<forall>c \<in> set (tl (join_next b n R)). ahead pb c"
    "set (tl (join_next b n R)) \<subseteq> set R"
    using assms by (cases R; auto)+
qed


lemma join_prev_ok:
  assumes so: "sorted_wrt ahead (M @ pb # R)" "sorted_wrt ahead (c # C)" and le: "bend pb \<le> unat (fst c)" "fst pb < fst c"
    and C: "\<forall>x \<in> set C. ahead pb x" "\<forall>x \<in> set (c # C). bend x < 2 ^ 36"
  shows "sorted_wrt ahead (M @ join_prev pb (c # C))" "all_bytes (set (join_prev pb (c # C))) = bytes_of pb \<union> all_bytes (set (c # C))"
    "bend (hd (join_prev pb (c # C))) < 2 ^ 36"
proof -
  have u: "unat (snd pb + snd c) = unat (snd pb) + unat (snd c)" if "bend pb = unat (fst c)"
    using unat_add_blocks [of "fst pb" "snd pb" c] that C by simp
  have t: "ahead x y" if "ahead x pb" "y = c \<or> y \<in> set C" for x y
    using that le C ahead_trans [of x pb y] by (auto simp: ahead_def word_less_nat_alt)
  have p: "ahead pb c" if "bend pb \<noteq> unat (fst c)" using that le by (simp add: ahead_def)
  have m: "ahead (fst pb, snd pb + snd c) y" if "bend pb = unat (fst c)" "y \<in> set C" for y
    using that so(2) u by (auto simp: ahead_def bend_def)
  have l: "ahead x (fst pb, k)" if "ahead x pb" for x k using that by (simp add: ahead_def)
  show "sorted_wrt ahead (M @ join_prev pb (c # C))"
    using so C(1) t p m l by (auto simp: join_prev_def sorted_wrt_append)
  show "all_bytes (set (join_prev pb (c # C))) = bytes_of pb \<union> all_bytes (set (c # C))"
    using u le by (auto simp: join_prev_def bytes_of_def bend_def)
  show "bend (hd (join_prev pb (c # C))) < 2 ^ 36"
    using u le C so(2) by (auto simp: join_prev_def bend_def ahead_def)
qed

lemma chain_split_next:
  assumes "chain h (M @ pb # R)"
  shows "hptr h (fst pb) = fst (hd (R @ [hd (M @ [pb])]))"
  using chain_next [OF assms, of "length M"]
  by (cases R) (auto simp: nth_append hd_conv_nth hd_append split: if_splits)

lemma free_right:
  assumes ch: "chain h (M @ pb # R)" and f: "fits_between pb (b, n) R" and n: "hsize h b = n" and lo: "fst (hd (M @ [pb])) < b"
  shows "(if hadd b (hsize h b) = hptr h (fst pb)
          then set_ptr b (hptr h (hptr h (fst pb))) (set_size b (hsize h b + hsize h (hptr h (fst pb))) h)
          else set_ptr b (hptr h (fst pb)) h)
       = set_ptr b (fst (hd (tl (join_next b n R) @ [hd (M @ [pb])]))) (set_size b (snd (hd (join_next b n R))) h)"
proof -
  have nsame: "set_size b n h = h" using n by (simp add: set_size_def fun_upd_idem)
  have e: "unat (hadd b n) = bend (b, n)" using f unat_hadd [of b n] by (simp add: fits_between_def bend_def)
  show ?thesis
  proof (cases R)
    case Nil
    have "hadd b n \<noteq> fst (hd (M @ [pb]))"
      using lo e by (auto simp: word_less_nat_alt bend_def)
    then show ?thesis using n nsame chain_split_next [OF ch] by (simp add: Nil)
  next
    case (Cons c C)
    have "hptr h (fst c) = fst (hd (C @ [hd (M @ [pb])]))"
      using chain_split_next [of h "M @ [pb]" c C] ch by (simp add: Cons hd_append)
    moreover have "hsize h (fst c) = snd c" using ch by (simp add: Cons chain_def)
    moreover have "hadd b n = fst c \<longleftrightarrow> bend (b, n) = unat (fst c)" using e by (metis word_unat_eq_iff)
    ultimately show ?thesis using n nsame chain_split_next [OF ch] by (simp add: Cons)
  qed
qed


lemma fits_between_next:
  assumes "fits_between pb (b, n) R" "c \<in> set R"
  shows "b < fst c"
proof -
  have "bend (b, n) \<le> unat (fst c)" "n \<noteq> 0" using assms by (auto simp: fits_between_def)
  moreover have "0 < unat n" using \<open>n \<noteq> 0\<close> by (simp add: unat_gt_0)
  ultimately have "unat b < unat (fst c)" unfolding bend_def fst_conv snd_conv by linarith
  then show ?thesis by (simp add: word_less_nat_alt)
qed

lemma fits_between_new:
  assumes "chain h (M @ pb # R)" "fits_between pb (b, n) R"
  shows "b \<notin> fst ` set (M @ pb # R)"
proof -
  have "fst x < b" if "x \<in> set M" for x
    using assms that by (auto simp: chain_def sorted_wrt_append ahead_def bend_def fits_between_def word_less_nat_alt)
  then show ?thesis using assms(2) fits_between_next [OF assms(2)] by (fastforce simp: fits_between_def)
qed

lemma free_finds_place:
  assumes ch: "chain h (M @ pb # R)" and f: "fits_between pb (b, n) R" and lo: "fst (hd (M @ [pb])) < b"
    and fp: "freep h \<in> fst ` set (M @ pb # R)"
  shows "free_loop h b (freep h) = Some (fst pb)"
proof -
  obtain i where i: "i < length (M @ pb # R)" "freep h = fst ((M @ pb # R) ! i)"
    using fp by (auto simp: in_set_conv_nth image_iff simp del: set_append)
  have R: "b < fst (R ! 0)" if "R \<noteq> []" using fits_between_next [OF f, of "R ! 0"] that by simp
  have "free_loop h b (fst ((M @ pb # R) ! i)) = Some (fst ((M @ pb # R) ! length M))"
    by (rule free_loop_finds [OF ch]) (use f lo R i in \<open>auto simp: fits_between_def nth_append hd_conv_nth\<close>)
  then show ?thesis using i by simp
qed

lemma chain_update [simp]: "chain (h\<lparr>freep := p\<rparr>) bs = chain h bs" "chain (h\<lparr>brk := p\<rparr>) bs = chain h bs"
  by (simp_all add: chain_def)

lemma free_relinks_list:
  assumes lk: "hlinked (hptr h) (map fst M @ fst pb # map fst R) z" and lC: "hlinked (hptr h) (map fst C) z" and cb: "fst c = b"
    and dis: "fst pb \<notin> fst ` set M" "fst pb \<notin> fst ` set C" "b \<notin> fst ` set M" "b \<notin> fst ` set C" "fst pb \<noteq> b"
    and h1: "h1 = set_ptr b (hd (map fst C @ [z])) (set_size b (snd c) h)"
    and h2: "h2 = (if bend pb = unat b then set_ptr (fst pb) (hptr h1 b) (set_size (fst pb) (hsize h1 (fst pb) + hsize h1 b) h1)
                   else set_ptr (fst pb) b h1)"
  shows "hlinked (hptr h2) (map fst (M @ join_prev pb (c # C))) z"
proof -
  have l1: "hlinked (hptr h1) (b # map fst C) z"
    using hlinked_relink [OF lC, of "[]" b] dis by (cases C) (auto simp: h1)
  have lM: "M \<noteq> [] \<Longrightarrow> hlinked (hptr h1) (map fst M) (fst pb)"
    using hlinked_around(1) [OF lk] dis by (simp add: h1 hlinked_upd)
  show ?thesis
  proof (cases "bend pb = unat b")
    case True
    have "hlinked (hptr h1) (map fst C) z" using lC dis by (simp add: h1 hlinked_upd)
    moreover have "hptr h1 b = hd (map fst C @ [z])" by (cases C) (auto simp: h1)
    ultimately show ?thesis
      using True hlinked_relink [of "hptr h1" "map fst C" z "map fst M" "fst pb"] lM dis cb by (simp add: h2 join_prev_def)
  next
    case False
    then show ?thesis
      using hlinked_relink [OF l1, of "map fst M" "fst pb"] lM dis cb by (simp add: h2 join_prev_def)
  qed
qed

lemma free_relinks:
  assumes ch: "chain h (M @ pb # R)" and f: "fits_between pb (b, n) R" and cs: "join_next b n R = c # C"
    and h1: "h1 = set_ptr b (fst (hd (C @ [hd (M @ [pb])]))) (set_size b (snd c) h)"
    and h2: "h2 = (if bend pb = unat b then set_ptr (fst pb) (hptr h1 b) (set_size (fst pb) (hsize h1 (fst pb) + hsize h1 b) h1)
                   else set_ptr (fst pb) b h1)"
  shows "chain h2 (M @ join_prev pb (c # C))"
proof -
  note new = fits_between_new [OF ch f]
  have so: "sorted_wrt ahead (M @ pb # R)" and sm: "\<forall>x \<in> set R. bend x < 2 ^ 36"
    using ch by (simp_all add: chain_def)
  have "sorted_wrt ahead (pb # R)" using so by (simp add: sorted_wrt_append)
  note ok = join_next_ok [OF this f sm, unfolded cs list.sel]
  have le: "bend pb \<le> unat (fst c)" "fst pb < fst c" using f ok(4) by (simp_all add: fits_between_def)
  note jp = join_prev_ok [OF so ok(1) le ok(5,2)]
  let ?z = "fst (hd (M @ [pb]))"
  have lk: "hlinked (hptr h) (map fst M @ fst pb # map fst R) ?z"
    using ch by (simp add: chain_def hd_append split: if_splits)
  have lC: "hlinked (hptr h) (map fst C) ?z"
  proof (cases rule: join_next_cases [of b n R])
    case (2 d R')
    then show ?thesis using hlinked_around(2) [OF lk] hlinked_around(2) [of "hptr h" "[]" "fst d"] cs by simp
  qed (use hlinked_around(2) [OF lk] cs in simp)
  have dis: "fst pb \<notin> fst ` set M" "fst pb \<notin> fst ` set C" "b \<notin> fst ` set M" "b \<notin> fst ` set C" "fst pb \<noteq> b"
    using new ok(5,6) so by (auto simp: ahead_def bend_def sorted_wrt_append)
  have h1': "h1 = set_ptr b (hd (map fst C @ [?z])) (set_size b (snd c) h)" using h1 by (cases C) simp_all
  note l2 = free_relinks_list [OF lk lC ok(4) dis h1' h2]
  have old: "hsize h (fst x) = snd x \<and> bend x < 2 ^ 36" if "x = pb \<or> x \<in> set M \<or> x \<in> set C" for x
    using ch ok(6) that by (auto simp: chain_def)
  have ne: "fst x \<noteq> b \<and> fst x \<noteq> fst pb" if "x \<in> set M \<or> x \<in> set C" for x
    using dis that by (metis image_eqI)
  have "hsize h2 (fst x) = snd x \<and> bend x < 2 ^ 36" if x: "x \<in> set (M @ join_prev pb (c # C))" for x
  proof (cases "x \<in> set M \<or> x \<in> set C")
    case True
    then show ?thesis using old ne by (simp add: h1 h2)
  next
    case False
    then show ?thesis using x jp(3) ok(2,4) old [of pb] dis(5) by (simp add: h1 h2 join_prev_def split: if_splits) auto
  qed
  then show ?thesis using jp(1) l2 by (auto simp: chain_def hd_append join_prev_def split: if_splits)
qed

lemma free_chain:
  assumes ch: "chain h (M @ pb # R)" and f: "fits_between pb (b, n) R" and n: "hsize h b = n" and lo: "fst (hd (M @ [pb])) < b"
    and fp: "freep h \<in> fst ` set (M @ pb # R)"
  shows "\<exists>h'. free (b + 16) h = Some h' \<and> chain h' (M @ join_prev pb (join_next b n R)) \<and> freep h' = fst pb \<and> brk h' = brk h
    \<and> (\<forall>y. y \<notin> insert b (fst ` set (M @ pb # R)) \<longrightarrow> hsize h' y = hsize h y)"
proof -
  let ?cs = "join_next b n R" and ?base = "hd (M @ [pb])"
  define c C where "c = hd ?cs" and "C = tl ?cs"
  have cs: "?cs = c # C" by (cases R) (auto simp: c_def C_def)
  define h1 where "h1 = set_ptr b (fst (hd (C @ [?base]))) (set_size b (snd c) h)"
  define h2 where "h2 = (if bend pb = unat b then set_ptr (fst pb) (hptr h1 b) (set_size (fst pb) (hsize h1 (fst pb) + hsize h1 b) h1)
                         else set_ptr (fst pb) b h1)"
  note new = fits_between_new [OF ch f]
  have sz: "hsize h1 (fst pb) = snd pb" using ch new by (auto simp: h1_def chain_def)
  have "unat (hadd (fst pb) (snd pb)) = bend pb"
    using ch unat_hadd [of "fst pb" "snd pb"] by (simp add: chain_def bend_def)
  then have "hadd (fst pb) (hsize h1 (fst pb)) = b \<longleftrightarrow> bend pb = unat b" using sz by (metis word_unat_eq_iff)
  then have ev: "free (b + 16) h = Some (h2\<lparr>freep := fst pb\<rparr>)"
    using free_right [OF ch f n lo] free_finds_place [OF ch f lo fp]
    by (simp add: free_def Let_def h2_def cs flip: h1_def)
  have "chain (h2\<lparr>freep := fst pb\<rparr>) (M @ join_prev pb ?cs)"
    using free_relinks [OF ch f cs h1_def h2_def] by (simp add: cs)
  then show ?thesis using ev by (auto simp: h2_def h1_def)
qed


section \<open>The invariant of the allocator\<close>

text \<open>
  \<open>fs\<close> are the free blocks and \<open>A\<close> the blocks handed out by \<open>malloc\<close>, each with its header's address
  and its length in headers.
\<close>

definition proper :: "nat \<Rightarrow> u64 \<times> u32 \<Rightarrow> bool" where
  "proper m c \<longleftrightarrow> snd c \<noteq> 0 \<and> bend c \<le> m"

definition heap_inv :: "u64 \<Rightarrow> uheap \<Rightarrow> (u64 \<times> u32) list \<Rightarrow> (u64 \<times> u32) set \<Rightarrow> bool" where
  "heap_inv base h fs A \<longleftrightarrow>
     base \<noteq> 0 \<and> base < brk h \<and> unat (brk h) < 2 ^ 36
   \<and> chain h ((base, 0) # fs) \<and> freep h \<in> insert base (fst ` set fs) \<and> (\<forall>c \<in> set fs. proper (unat (brk h)) c)
   \<and> (\<forall>c \<in> A. proper (unat (brk h)) c \<and> base < fst c \<and> hsize h (fst c) = snd c \<and> bytes_of c \<inter> all_bytes (set fs) = {})
   \<and> (\<forall>c \<in> A. \<forall>d \<in> A. c \<noteq> d \<longrightarrow> bytes_of c \<inter> bytes_of d = {})"

lemma heap_invD:
  assumes "heap_inv base h fs A"
  shows "base \<noteq> 0" "base < brk h" "unat (brk h) < 2 ^ 36" "chain h ((base, 0) # fs)" "freep h \<in> insert base (fst ` set fs)"
    "\<forall>c \<in> set fs. proper (unat (brk h)) c"
    "c \<in> A \<Longrightarrow> proper (unat (brk h)) c" "c \<in> A \<Longrightarrow> base < fst c" "c \<in> A \<Longrightarrow> hsize h (fst c) = snd c"
    "c \<in> A \<Longrightarrow> bytes_of c \<inter> all_bytes (set fs) = {}" "c \<in> A \<Longrightarrow> d \<in> A \<Longrightarrow> c \<noteq> d \<Longrightarrow> bytes_of c \<inter> bytes_of d = {}"
  using assms by (simp_all add: heap_inv_def)

lemma bytes_of_start: "snd c \<noteq> 0 \<Longrightarrow> unat (fst c) \<in> bytes_of c"
  by (simp add: bytes_of_def bend_def unat_gt_0)

lemma bytes_of_apart:
  assumes "bytes_of c \<inter> bytes_of d = {}" "snd d \<noteq> 0"
  shows "fst c < fst d \<Longrightarrow> bend c \<le> unat (fst d)"
proof (rule ccontr)
  assume "fst c < fst d" "\<not> bend c \<le> unat (fst d)"
  then have "unat (fst d) \<in> bytes_of c" by (simp add: bytes_of_def word_less_nat_alt)
  then show False using assms bytes_of_start [of d] by blast
qed

lemma place_exists:
  assumes ch: "chain h (b0 # fs)" and b: "fst b0 < b" "n \<noteq> 0" "bend (b, n) < 2 ^ 36" "snd b0 = 0"
    and ap: "\<forall>x \<in> set fs. snd x \<noteq> 0 \<and> bytes_of (b, n) \<inter> bytes_of x = {}"
  shows "\<exists>M pb R. b0 # fs = M @ pb # R \<and> fits_between pb (b, n) R"
proof -
  let ?lt = "\<lambda>x. fst x < b"
  define L R where "L = takeWhile ?lt (b0 # fs)" and "R = dropWhile ?lt (b0 # fs)"
  have LR: "b0 # fs = L @ R" by (simp only: L_def R_def takeWhile_dropWhile_id)
  have "L \<noteq> []" using b by (simp add: L_def)
  then obtain M pb where L: "L = M @ [pb]" by (metis rev_exhaust)
  have pb: "fst pb < b" using L by (metis L_def in_set_conv_decomp set_takeWhileD)
  have "pb = b0 \<or> pb \<in> set fs" using LR L by (metis UnI2 Un_iff in_set_conv_decomp set_ConsD set_append)
  then have le: "bend pb \<le> unat b"
    using pb b ap bytes_of_apart [of pb "(b, n)"] by (auto simp: bend_def word_less_nat_alt)
  have "bend (b, n) \<le> unat (fst x)" if x: "x \<in> set R" for x
  proof -
    obtain d D where R: "R = d # D" using x by (cases R) auto
    have "\<not> fst d < b" using hd_dropWhile [of ?lt "b0 # fs"] R by (simp add: R_def)
    moreover have "sorted_wrt ahead R" using ch LR by (simp add: chain_def sorted_wrt_append)
    ultimately have ge: "unat b \<le> unat (fst x)" using x R by (auto simp: ahead_def bend_def word_less_nat_alt)
    have "x \<in> set fs" using LR L x by (cases M) auto
    then have "snd x \<noteq> 0" and e: "bytes_of (b, n) \<inter> bytes_of x = {}" using ap by auto
    moreover have "b \<noteq> fst x" using e b(2) \<open>snd x \<noteq> 0\<close> bytes_of_start [of x] bytes_of_start [of "(b, n)"] by auto
    ultimately show ?thesis using ge bytes_of_apart [of "(b, n)" x] by (simp add: word_less_nat_alt word_unat_eq_iff)
  qed
  then have "fits_between pb (b, n) R" using le pb b by (simp add: fits_between_def)
  then show ?thesis using LR L by (intro exI [of _ M] exI [of _ pb] exI [of _ R]) simp
qed

lemma proper_join:
  assumes "proper m (b, n)" "proper m c" "bend (b, n) = unat (fst c)" "m < 2 ^ 36"
  shows "proper m (b, n + snd c)"
proof -
  have u: "unat (n + snd c) = unat n + unat (snd c)" using assms by (intro unat_add_blocks) (auto simp: proper_def)
  moreover have "0 < unat n" using assms by (simp add: proper_def unat_gt_0)
  ultimately have "n + snd c \<noteq> 0" by (metis add_is_0 less_numeral_extra(3) unsigned_0)
  then show ?thesis using assms u by (simp add: proper_def bend_def)
qed

lemma proper_join_next:
  "proper m (b, n) \<Longrightarrow> \<forall>c \<in> set R. proper m c \<Longrightarrow> m < 2 ^ 36 \<Longrightarrow> \<forall>c \<in> set (join_next b n R). proper m c"
  by (cases R) (auto intro: proper_join)

lemma proper_join_prev:
  assumes "proper m pb \<or> bend pb \<noteq> unat (fst c)" "\<forall>x \<in> set (c # C). proper m x" "m < 2 ^ 36"
  shows "\<forall>x \<in> set (join_prev pb (c # C)) - {pb}. proper m x"
  using assms proper_join [of m "fst pb" "snd pb" c] by (auto simp: join_prev_def)

lemma joined_list:
  assumes sp: "(base, 0) # fs = M @ pb # R" and f: "fits_between pb (b, n) R" and ch: "chain h ((base, 0) # fs)"
    and pf: "\<forall>c \<in> set fs. proper m c" and m: "m < 2 ^ 36" "bend (b, n) \<le> m"
  shows "\<exists>fs'. M @ join_prev pb (join_next b n R) = (base, 0) # fs' \<and> all_bytes (set fs') = all_bytes (set fs) \<union> bytes_of (b, n)
    \<and> (\<forall>x \<in> set fs'. proper m x) \<and> fst pb \<in> insert base (fst ` set fs')"
proof -
  obtain c C where cs: "join_next b n R = c # C" by (cases rule: join_next_cases [of b n R]) auto
  have so: "sorted_wrt ahead (M @ pb # R)" and sm: "\<forall>x \<in> set R. bend x < 2 ^ 36"
    using ch sp by (simp_all add: chain_def)
  have "sorted_wrt ahead (pb # R)" using so by (simp add: sorted_wrt_append)
  note ok = join_next_ok [OF this f sm, unfolded cs list.sel]
  have le: "bend pb \<le> unat (fst c)" "fst pb < fst c" using f ok(4) by (simp_all add: fits_between_def)
  note jp = join_prev_ok [OF so ok(1) le ok(5,2)]
  have "\<forall>x \<in> set R. proper m x" using sp pf by (cases M) auto
  then have pn: "\<forall>x \<in> set (c # C). proper m x"
    using proper_join_next [of m b n R] f m cs by (simp add: proper_def fits_between_def)
  show ?thesis
  proof (cases M)
    case Nil
    have "bend pb \<noteq> unat (fst c)" using le sp Nil by (auto simp: bend_def word_less_nat_alt)
    then show ?thesis using Nil sp cs pn ok(3) by (auto simp: join_prev_def)
  next
    case (Cons d M')
    then have fs: "fs = M' @ pb # R" "d = (base, 0)" using sp by auto
    have "proper m x" if "x \<in> set (join_prev pb (c # C))" for x
      using proper_join_prev [of m pb c C] pn pf m(1) fs that by auto
    moreover have "fst pb \<in> fst ` set (join_prev pb (c # C))" by (auto simp: join_prev_def)
    ultimately show ?thesis using Cons fs cs pf jp(2) ok(3)
      by (intro exI [of _ "M' @ join_prev pb (c # C)"]) (auto simp: image_Un)
  qed
qed

lemma headers_apart:
  assumes hi: "heap_inv base h fs A" and d: "d \<in> A"
  shows "fst d \<notin> insert base (fst ` set fs)" "c \<in> A \<Longrightarrow> c \<noteq> d \<Longrightarrow> fst c \<noteq> fst d"
proof -
  have s: "unat (fst d) \<in> bytes_of d" using heap_invD(7) [OF hi d] bytes_of_start by (simp add: proper_def)
  have "unat (fst x) \<in> all_bytes (set fs)" if "x \<in> set fs" for x
    using heap_invD(6) [OF hi] that bytes_of_start by (fastforce simp: proper_def all_bytes_def)
  then show "fst d \<notin> insert base (fst ` set fs)"
    using s heap_invD(8,10) [OF hi d] by fastforce
  show "c \<in> A \<Longrightarrow> c \<noteq> d \<Longrightarrow> fst c \<noteq> fst d"
    using s heap_invD(7) [OF hi, of c] heap_invD(11) [OF hi, of c d] d bytes_of_start [of c] by (fastforce simp: proper_def)
qed

lemma free_keeps_heap:
  assumes hi: "heap_inv base h fs A" and c: "(b, n) \<in> A"
  shows "\<exists>h' fs'. free (b + 16) h = Some h' \<and> heap_inv base h' fs' (A - {(b, n)}) \<and> brk h' = brk h
     \<and> all_bytes (set fs') = all_bytes (set fs) \<union> bytes_of (b, n)"
proof -
  note ch = heap_invD(4) [OF hi] and fp = heap_invD(5) [OF hi] and br = heap_invD(3) [OF hi]
  have bn: "base < b" "n \<noteq> 0" "bend (b, n) \<le> unat (brk h)" "hsize h b = n"
    using heap_invD(7-9) [OF hi c] by (auto simp: proper_def)
  have "\<forall>x \<in> set fs. snd x \<noteq> 0 \<and> bytes_of (b, n) \<inter> bytes_of x = {}"
    using heap_invD(6) [OF hi] heap_invD(10) [OF hi c] by (fastforce simp: proper_def all_bytes_def)
  then obtain M pb R where sp: "(base, 0) # fs = M @ pb # R" and f: "fits_between pb (b, n) R"
    using place_exists [OF ch, of b n] bn br by auto
  have hd: "hd (M @ [pb]) = (base, 0)" using sp by (cases M) auto
  have fp': "freep h \<in> fst ` set (M @ pb # R)" using fp unfolding sp [symmetric] by simp
  have lo: "fst (hd (M @ [pb])) < b" using hd bn(1) by simp
  obtain h' where h': "free (b + 16) h = Some h'" "chain h' (M @ join_prev pb (join_next b n R))" "freep h' = fst pb" "brk h' = brk h"
      and keep: "\<forall>y. y \<notin> insert b (fst ` set (M @ pb # R)) \<longrightarrow> hsize h' y = hsize h y"
    using free_chain [OF ch [unfolded sp] f bn(4) lo fp'] by blast
  obtain fs' where fs': "M @ join_prev pb (join_next b n R) = (base, 0) # fs'" "all_bytes (set fs') = all_bytes (set fs) \<union> bytes_of (b, n)"
      "\<forall>x \<in> set fs'. proper (unat (brk h)) x" "fst pb \<in> insert base (fst ` set fs')"
    using joined_list [OF sp f ch heap_invD(6) [OF hi] br bn(3)] by blast
  have "hsize h' (fst d) = snd d" if d: "d \<in> A - {(b, n)}" for d
  proof -
    have "fst d \<notin> insert b (fst ` set (M @ pb # R))"
      using headers_apart [OF hi, of d] d c unfolding sp [symmetric] by force
    then show ?thesis using keep d heap_invD(9) [OF hi, of d] by simp
  qed
  moreover have "bytes_of d \<inter> (all_bytes (set fs) \<union> bytes_of (b, n)) = {}" if "d \<in> A - {(b, n)}" for d
    using that heap_invD(10,11) [OF hi] c by blast
  ultimately have "heap_inv base h' fs' (A - {(b, n)})"
    using heap_invD(1-3,7,8,11) [OF hi] h' fs' by (simp add: heap_inv_def)
  then show ?thesis using h' fs'(2) by blast
qed


section \<open>Allocation\<close>

lemma chain_distinct: "chain h bs \<Longrightarrow> distinct (map fst bs)"
  unfolding distinct_conv_nth
  using chain_nth_less [of h bs] by (auto simp: neq_iff)

lemma chain_pred:
  assumes ch: "chain h bs" and q: "q \<in> fst ` set bs" and c: "c \<in> set bs" "c \<noteq> hd bs" "hptr h q = fst c"
  shows "\<exists>M pb R. bs = M @ pb # c # R \<and> fst pb = q"
proof -
  obtain k where k: "k < length bs" "fst (bs ! k) = q" using q by (auto simp: in_set_conv_nth)
  obtain j where j: "j < length bs" "bs ! j = c" using c by (auto simp: in_set_conv_nth)
  have same: "i = l" if "fst (bs ! i) = fst (bs ! l)" "i < length bs" "l < length bs" for i l
    using nth_eq_iff_index_eq [OF chain_distinct [OF ch], of i l] that by simp
  have j0: "j \<noteq> 0" using c(2) j ch by (cases j) (auto simp: chain_def hd_conv_nth)
  have nx: "fst (bs ! j) = (if Suc k < length bs then fst (bs ! Suc k) else fst (bs ! 0))"
    using chain_next [OF ch k(1)] k(2) c(3) j(2) by simp
  have "Suc k < length bs"
  proof (rule ccontr)
    assume "\<not> Suc k < length bs"
    then have "fst (bs ! j) = fst (bs ! 0)" using nx by simp
    then show False using same [of j 0] j(1) j0 by linarith
  qed
  moreover from this have "j = Suc k" using nx same [of j "Suc k"] j(1) by simp
  ultimately have sk: "Suc k < length bs" "j = Suc k" by blast+
  have "bs = take k bs @ bs ! k # bs ! Suc k # drop (Suc (Suc k)) bs"
    using sk(1) by (metis Cons_nth_drop_Suc Suc_lessD id_take_nth_drop)
  then show ?thesis using k(2) j sk by metis
qed

lemma take_whole:
  assumes ch: "chain h (M @ pb # c # R)"
  shows "chain (set_ptr (fst pb) (hptr h (fst c)) h) (M @ pb # R)"
proof -
  let ?z = "fst (hd (M @ [pb]))"
  have lk: "hlinked (hptr h) (map fst M @ fst pb # fst c # map fst R) ?z"
    using ch by (simp add: chain_def hd_append split: if_splits)
  have nx: "hptr h (fst c) = hd (map fst R @ [?z])"
    using chain_split_next [of h "M @ [pb]" c R] ch by (cases R) (auto simp: hd_append)
  have d: "fst pb \<notin> set (map fst M) \<union> set (map fst R)" using chain_distinct [OF ch] by auto
  have "hlinked (hptr h) (map fst R) ?z"
    using hlinked_around(2) [OF lk] hlinked_around(2) [of "hptr h" "[]" "fst c"] by simp
  then have "hlinked ((hptr h)(fst pb := hptr h (fst c))) (map fst M @ fst pb # map fst R) ?z"
    using hlinked_relink [of "hptr h" "map fst R" ?z "map fst M" "fst pb"] hlinked_around(1) [OF lk] d by (simp add: nx)
  then show ?thesis using ch by (auto simp: chain_def sorted_wrt_append hd_append)
qed

lemma take_part:
  assumes ch: "chain h (M @ (a, m) # R)" and n: "n < m"
  shows "unat (hadd a (m - n)) + 16 * unat n = bend (a, m)" "bend (a, m - n) = unat (hadd a (m - n))" "a < hadd a (m - n)"
    "chain (set_size (hadd a (m - n)) n (set_size a (m - n) h)) (M @ (a, m - n) # R)"
proof -
  let ?x = "hadd a (m - n)"
  have am: "bend (a, m) < 2 ^ 36" using ch by (simp add: chain_def)
  have lt: "unat n < unat m" using n by (simp add: word_less_nat_alt)
  have u: "unat (m - n) = unat m - unat n" using n by (simp add: unat_sub)
  have x: "unat ?x = unat a + 16 * (unat m - unat n)" using am unat_hadd [of a "m - n"] u by (simp add: bend_def)
  show e: "unat ?x + 16 * unat n = bend (a, m)" using x lt by (simp add: bend_def)
  show "bend (a, m - n) = unat ?x" using x u by (simp add: bend_def)
  show ax: "a < ?x" using x lt by (simp add: word_less_nat_alt)
  have so: "sorted_wrt ahead (M @ (a, m) # R)" using ch by (simp add: chain_def)
  have M: "fst y < a" if "y \<in> set M" for y
    using so that by (auto simp: sorted_wrt_append ahead_def bend_def word_less_nat_alt)
  have R: "?x < fst y" if "y \<in> set R" for y
  proof -
    have "bend (a, m) < unat (fst y)" using so that by (auto simp: sorted_wrt_append ahead_def)
    then show ?thesis using e by (simp add: word_less_nat_alt)
  qed
  have "sorted_wrt ahead (M @ (a, m - n) # R)"
    using so u lt by (auto simp: sorted_wrt_append ahead_def bend_def)
  moreover have "hsize (set_size ?x n (set_size a (m - n) h)) (fst y) = snd y \<and> bend y < 2 ^ 36" if y: "y \<in> set (M @ (a, m - n) # R)" for y
  proof (cases "y = (a, m - n)")
    case True
    then show ?thesis using ax am u by (auto simp: bend_def)
  next
    case False
    then have yy: "y \<in> set M \<or> y \<in> set R" using y by auto
    then have "fst y \<noteq> ?x" "fst y \<noteq> a" using M R ax by fastforce+
    then show ?thesis using yy ch by (auto simp: chain_def)
  qed
  ultimately show "chain (set_size ?x n (set_size a (m - n) h)) (M @ (a, m - n) # R)"
    using ch by (auto simp: chain_def hd_append split: if_splits)
qed

lemma heap_inv_take:
  assumes hi: "heap_inv base h fs A" and h': "chain h' ((base, 0) # fs')" "freep h' \<in> insert base (fst ` set fs')" "brk h' = brk h"
    and p: "\<forall>y \<in> set fs'. proper (unat (brk h)) y" "proper (unat (brk h)) (x, n)" "base < x" "hsize h' x = n"
    and sp: "all_bytes (set fs) = all_bytes (set fs') \<union> bytes_of (x, n)" "all_bytes (set fs') \<inter> bytes_of (x, n) = {}"
    and keep: "\<forall>y. unat y \<notin> all_bytes (set fs) \<longrightarrow> hsize h' y = hsize h y"
  shows "heap_inv base h' fs' (insert (x, n) A)" "(x, n) \<notin> A"
proof -
  have x: "unat x \<in> bytes_of (x, n)" using p(2) bytes_of_start [of "(x, n)"] by (simp add: proper_def)
  have out: "bytes_of d \<inter> all_bytes (set fs') = {}" "bytes_of d \<inter> bytes_of (x, n) = {}" if "d \<in> A" for d
    using heap_invD(10) [OF hi that] sp(1) by auto
  show "(x, n) \<notin> A" using out(2) x by blast
  have "hsize h' (fst d) = snd d" if d: "d \<in> A" for d
  proof -
    have "unat (fst d) \<in> bytes_of d" using heap_invD(7) [OF hi d] bytes_of_start by (simp add: proper_def)
    then have "unat (fst d) \<notin> all_bytes (set fs)" using heap_invD(10) [OF hi d] by blast
    then show ?thesis using keep heap_invD(9) [OF hi d] by simp
  qed
  then show "heap_inv base h' fs' (insert (x, n) A)"
    using heap_invD(1-3,7,8,11) [OF hi] h' p sp(2) out by (simp add: heap_inv_def Int_commute)
qed

lemma chain_bytes_apart:
  assumes "sorted_wrt ahead (M @ c # R)"
  shows "all_bytes (set M \<union> set R) \<inter> bytes_of c = {}"
  using assms by (fastforce simp: all_bytes_def bytes_of_def sorted_wrt_append ahead_def bend_def)

lemma take_whole_keeps:
  assumes hi: "heap_inv base h fs A" and P: "(base, 0) # P = M @ [pb]" "fs = P @ (a, n) # R"
  shows "heap_inv base ((set_ptr (fst pb) (hptr h a) h)\<lparr>freep := fst pb\<rparr>) (P @ R) (insert (a, n) A)" "(a, n) \<notin> A"
proof -
  note ch = heap_invD(4) [OF hi] and pr = heap_invD(6) [OF hi]
  let ?h = "(set_ptr (fst pb) (hptr h a) h)\<lparr>freep := fst pb\<rparr>"
  have e: "(base, 0) # P @ X = M @ pb # X" for X using P(1) by (metis append_Cons append_assoc append_Nil)
  have "chain h (M @ pb # (a, n) # R)" using ch P(2) e [of "(a, n) # R"] by simp
  then have 1: "chain ?h ((base, 0) # P @ R)" unfolding e using take_whole by fastforce
  have "fst pb \<in> fst ` set ((base, 0) # P)" using P(1) by simp
  then have 2: "freep ?h \<in> insert base (fst ` set (P @ R))" by auto
  have so: "sorted_wrt ahead (P @ (a, n) # R)" and lo: "base < a" and sz: "hsize h a = n"
    using ch P(2) by (auto simp: chain_def ahead_def bend_def word_less_nat_alt)
  have 3: "all_bytes (set fs) = all_bytes (set (P @ R)) \<union> bytes_of (a, n)" "all_bytes (set (P @ R)) \<inter> bytes_of (a, n) = {}"
    using P(2) chain_bytes_apart [OF so] by auto
  show "heap_inv base ?h (P @ R) (insert (a, n) A)" "(a, n) \<notin> A"
    by (rule heap_inv_take [OF hi 1 2]; use 3 pr P(2) lo sz in simp)+
qed

lemma take_part_keeps:
  assumes hi: "heap_inv base h fs A" and P: "fs = P @ (a, m) # R" "n < m" "n \<noteq> 0" "q \<in> insert base (fst ` set P)"
  shows "heap_inv base ((set_size (hadd a (m - n)) n (set_size a (m - n) h))\<lparr>freep := q\<rparr>) (P @ (a, m - n) # R) (insert (hadd a (m - n), n) A)"
    "(hadd a (m - n), n) \<notin> A"
proof -
  note ch = heap_invD(4) [OF hi] and pr = heap_invD(6) [OF hi]
  let ?x = "hadd a (m - n)" and ?fs = "P @ (a, m - n) # R"
  let ?h = "(set_size ?x n (set_size a (m - n) h))\<lparr>freep := q\<rparr>"
  note tp = take_part [of h "(base, 0) # P" a m R n, unfolded append_Cons, OF ch [unfolded P(1)] P(2)]
  have 1: "chain ?h ((base, 0) # ?fs)" using tp(4) by simp
  have 2: "freep ?h \<in> insert base (fst ` set ?fs)" using P(4) by auto
  have so: "sorted_wrt ahead (P @ (a, m) # R)" and lo: "base < a"
    using ch P(1) by (auto simp: chain_def ahead_def bend_def word_less_nat_alt)
  have sp: "bytes_of (a, m) = bytes_of (a, m - n) \<union> bytes_of (?x, n)" "bytes_of (a, m - n) \<inter> bytes_of (?x, n) = {}"
    using tp(1-3) by (auto simp: bytes_of_def bend_def word_less_nat_alt)
  have 3: "all_bytes (set fs) = all_bytes (set ?fs) \<union> bytes_of (?x, n)" "all_bytes (set ?fs) \<inter> bytes_of (?x, n) = {}"
    using P(1) sp chain_bytes_apart [OF so] by auto
  have xin: "unat ?x \<in> all_bytes (set fs)" "unat a \<in> all_bytes (set fs)"
  proof -
    have "unat ?x \<in> bytes_of (?x, n)" using bytes_of_start [of "(?x, n)"] P(3) by simp
    then show "unat ?x \<in> all_bytes (set fs)" unfolding 3(1) by (rule UnI2)
    have "m \<noteq> 0" using P(2) by auto
    then have "unat a \<in> bytes_of (a, m)" using bytes_of_start [of "(a, m)"] by simp
    then show "unat a \<in> all_bytes (set fs)" unfolding P(1) by (simp add: all_bytes_def)
  qed
  have pp: "proper (unat (brk h)) (?x, n)" "proper (unat (brk h)) (a, m - n)"
    using pr P(1-3) tp(1,2) by (auto simp: proper_def bend_def)
  show "heap_inv base ?h ?fs (insert (?x, n) A)" "(?x, n) \<notin> A"
    by (rule heap_inv_take [OF hi 1 2 _ _ pp(1) _ _ 3]; use pr P(1) lo tp(3) pp xin in auto)+
qed

lemma take_block_keeps:
  assumes hi: "heap_inv base h fs A" and n: "n \<noteq> 0" "n \<le> snd c" and c: "c \<in> set fs" and q: "q \<in> insert base (fst ` set fs)" "hptr h q = fst c"
  shows "\<exists>x h' fs'. take_block n q (fst c) h = (x + 16, h') \<and> heap_inv base h' fs' (insert (x, n) A) \<and> (x, n) \<notin> A \<and> brk h' = brk h"
proof -
  note ch = heap_invD(4) [OF hi] and pr = heap_invD(6) [OF hi]
  obtain a m where am: "c = (a, m)" by fastforce
  have "m \<noteq> 0" using n am by auto
  then obtain M pb R where sp: "(base, 0) # fs = M @ pb # c # R" "fst pb = q"
    using chain_pred [OF ch, of q c] q c am by auto
  define P where "P = tl (M @ [pb])"
  have P: "(base, 0) # P = M @ [pb]" "fs = P @ c # R" using sp(1) by (cases M; simp add: P_def)+
  have so: "sorted_wrt ahead (P @ c # R)" using ch P by (simp add: chain_def)
  have qP: "q \<in> insert base (fst ` set P)" using P(1) sp(2) by (cases M) auto
  have ba: "base < a" using ch am P(2) by (auto simp: chain_def ahead_def bend_def word_less_nat_alt)
  have al: "all_bytes (set fs) = all_bytes (set P \<union> set R) \<union> bytes_of c" using P by auto
  show ?thesis
  proof (cases "m = n")
    case True
    let ?h = "(set_ptr q (hptr h a) h)\<lparr>freep := q\<rparr>"
    have "heap_inv base ?h (P @ R) (insert (a, n) A)" "(a, n) \<notin> A"
      using take_whole_keeps [OF hi P(1), of a n R] P(2) sp(2) True am by auto
    then show ?thesis using True am ch P by (auto simp: take_block_def chain_def)
  next
    case False
    then have lt: "n < m" using n am by simp
    let ?x = "hadd a (m - n)"
    let ?h = "(set_size ?x n (set_size a (m - n) h))\<lparr>freep := q\<rparr>"
    have "heap_inv base ?h (P @ (a, m - n) # R) (insert (?x, n) A)" "(?x, n) \<notin> A"
      using take_part_keeps [OF hi, of P a m R n q] P(2) lt n(1) qP am by auto
    then show ?thesis using False am ch P by (auto simp: take_block_def chain_def Let_def)
  qed
qed


text \<open>One search of the list: it stops at a block that is large enough, or has seen that there is none.\<close>

lemma malloc_scan:
  assumes ch: "chain h bs" and fp: "freep h = fst (bs ! f)" and n: "n \<noteq> 0" and l: "f < length bs" and i: "i < length bs"
    and p: "prevp \<in> fst ` set bs" "hptr h prevp = fst (bs ! i)"
  shows "(\<exists>q \<in> fst ` set bs. \<exists>c \<in> set bs. n \<le> snd c \<and> hptr h q = fst c
            \<and> malloc_loop grow n prevp (fst (bs ! i)) h = Some (take_block n q (fst c) h))
       \<or> (\<forall>k < length bs. (if i \<le> f then i \<le> k \<and> k \<le> f else i \<le> k \<or> k \<le> f) \<longrightarrow> snd (bs ! k) < n)
         \<and> malloc_loop grow n prevp (fst (bs ! i)) h
           = Option.bind (morecore grow n h) (\<lambda>(q, h1). if q = 0 then Some (0, h1) else malloc_loop grow n q (hptr h1 q) h1)"
  using i p
proof (induction "if i \<le> f then f - i else length bs + f - i" arbitrary: i prevp rule: less_induct)
  case less
  let ?c = "bs ! i"
  have sz: "hsize h (fst ?c) = snd ?c" using ch less.prems(1) by (simp add: chain_def)
  consider "n \<le> snd ?c" | "snd ?c < n" "i = f" | "snd ?c < n" "i \<noteq> f" by fastforce
  then show ?case
  proof cases
    case 1
    have "malloc_loop grow n prevp (fst ?c) h = Some (take_block n prevp (fst ?c) h)"
      using 1 sz by (subst malloc_loop.simps) simp
    then show ?thesis using 1 less.prems nth_mem by blast
  next
    case 2
    then have "malloc_loop grow n prevp (fst (bs ! i)) h
        = Option.bind (morecore grow n h) (\<lambda>(q, h1). if q = 0 then Some (0, h1) else malloc_loop grow n q (hptr h1 q) h1)"
      using sz fp by (subst malloc_loop.simps) (simp add: linorder_not_le [THEN iffD2])
    then show ?thesis using 2 by (auto dest: le_antisym)
  next
    case 3
    define j where "j = (if Suc i < length bs then Suc i else 0)"
    have j: "j < length bs" "hptr h (fst ?c) = fst (bs ! j)"
      using chain_next [OF ch less.prems(1)] less.prems(1) by (auto simp: j_def)
    have "fst ?c \<noteq> freep h"
      using nth_eq_iff_index_eq [OF chain_distinct [OF ch], of i f] less.prems(1) l fp 3(2) by simp
    then have step: "malloc_loop grow n prevp (fst ?c) h = malloc_loop grow n (fst ?c) (fst (bs ! j)) h"
      using 3 sz j(2) by (subst malloc_loop.simps) (simp add: linorder_not_le [THEN iffD2])
    have d: "(if j \<le> f then f - j else length bs + f - j) < (if i \<le> f then f - i else length bs + f - i)"
      using 3(2) less.prems(1) l by (auto simp: j_def)
    have pc: "fst ?c \<in> fst ` set bs" using less.prems(1) by simp
    have cov: "k = i \<or> (if j \<le> f then j \<le> k \<and> k \<le> f else j \<le> k \<or> k \<le> f)"
      if "k < length bs" "if i \<le> f then i \<le> k \<and> k \<le> f else i \<le> k \<or> k \<le> f" for k
      using that 3(2) l less.prems(1) by (auto simp: j_def split: if_splits)
    from less.hyps [OF d j(1) pc j(2)] show ?thesis
    proof
      assume a: "(\<forall>k < length bs. (if j \<le> f then j \<le> k \<and> k \<le> f else j \<le> k \<or> k \<le> f) \<longrightarrow> snd (bs ! k) < n)
         \<and> malloc_loop grow n (fst ?c) (fst (bs ! j)) h
           = Option.bind (morecore grow n h) (\<lambda>(q, h1). if q = 0 then Some (0, h1) else malloc_loop grow n q (hptr h1 q) h1)"
      have "snd (bs ! k) < n" if "k < length bs" "if i \<le> f then i \<le> k \<and> k \<le> f else i \<le> k \<or> k \<le> f" for k
        using cov [OF that] conjunct1 [OF a] that(1) 3(1) by blast
      then show ?thesis unfolding step using conjunct2 [OF a] by blast
    qed (unfold step, rule disjI1)
  qed
qed


lemma malloc_search:
  assumes hi: "heap_inv base h fs A" and n: "n \<noteq> 0"
  shows "(\<exists>q \<in> insert base (fst ` set fs). \<exists>c \<in> set fs. n \<le> snd c \<and> hptr h q = fst c
            \<and> malloc_loop grow n (freep h) (hptr h (freep h)) h = Some (take_block n q (fst c) h))
       \<or> (\<forall>c \<in> set fs. snd c < n)
         \<and> malloc_loop grow n (freep h) (hptr h (freep h)) h
           = Option.bind (morecore grow n h) (\<lambda>(q, h1). if q = 0 then Some (0, h1) else malloc_loop grow n q (hptr h1 q) h1)"
proof -
  let ?bs = "(base, 0) # fs"
  note ch = heap_invD(4) [OF hi]
  have fp: "freep h \<in> fst ` set ?bs" using heap_invD(5) [OF hi] by simp
  then obtain c where c: "c \<in> set ?bs" "freep h = fst c" by (rule imageE)
  obtain f where "f < length ?bs" "?bs ! f = c" using c(1) unfolding in_set_conv_nth by blast
  with c(2) have f: "f < length ?bs" "freep h = fst (?bs ! f)" by simp_all
  define i where "i = (if Suc f < length ?bs then Suc f else 0)"
  have i: "i < length ?bs" "hptr h (freep h) = fst (?bs ! i)"
    using chain_next [OF ch f(1)] f by (simp_all add: i_def split: if_split_asm)
  have all: "if i \<le> f then i \<le> k \<and> k \<le> f else i \<le> k \<or> k \<le> f" if "k < length ?bs" for k
    using that f(1) by (auto simp: i_def)
  from malloc_scan [OF ch f(2) n f(1) i(1) fp i(2), of grow, folded i(2)] show ?thesis
  proof
    assume "\<exists>q \<in> fst ` set ?bs. \<exists>c \<in> set ?bs. n \<le> snd c \<and> hptr h q = fst c
            \<and> malloc_loop grow n (freep h) (hptr h (freep h)) h = Some (take_block n q (fst c) h)"
    then obtain q c where "q \<in> fst ` set ?bs" "c \<in> set ?bs" "n \<le> snd c" "hptr h q = fst c"
      "malloc_loop grow n (freep h) (hptr h (freep h)) h = Some (take_block n q (fst c) h)" by blast
    moreover from this n have "c \<in> set fs" by auto
    ultimately show ?thesis by auto
  next
    assume a: "(\<forall>k < length ?bs. (if i \<le> f then i \<le> k \<and> k \<le> f else i \<le> k \<or> k \<le> f) \<longrightarrow> snd (?bs ! k) < n)
         \<and> malloc_loop grow n (freep h) (hptr h (freep h)) h
           = Option.bind (morecore grow n h) (\<lambda>(q, h1). if q = 0 then Some (0, h1) else malloc_loop grow n q (hptr h1 q) h1)"
    have "snd c < n" if "c \<in> set fs" for c
    proof -
      have "c \<in> set ?bs" using that by simp
      then obtain k where "k < length ?bs" "?bs ! k = c" unfolding in_set_conv_nth by blast
      then show ?thesis using conjunct1 [OF a] all by blast
    qed
    then show ?thesis using conjunct2 [OF a] by blast
  qed
qed

lemma block_covers:
  assumes ch: "chain h bs" and sub: "{a ..< a + m} \<subseteq> all_bytes (set bs)" and m: "0 < m"
  shows "\<exists>c \<in> set bs. unat (fst c) \<le> a \<and> a + m \<le> bend c"
proof -
  have "a \<in> all_bytes (set bs)" using sub m by auto
  then obtain c where c: "c \<in> set bs" "unat (fst c) \<le> a" "a < bend c" by (auto simp: all_bytes_def bytes_of_def)
  have "a + m \<le> bend c"
  proof (rule ccontr)
    assume n: "\<not> a + m \<le> bend c"
    then have "bend c \<in> all_bytes (set bs)" using sub c(3) by auto
    then obtain d where d: "d \<in> set bs" "unat (fst d) \<le> bend c" "bend c < bend d" by (auto simp: all_bytes_def bytes_of_def)
    obtain i j where ij: "i < length bs" "bs ! i = c" "j < length bs" "bs ! j = d" using c(1) d(1) by (auto simp: in_set_conv_nth)
    have so: "sorted_wrt ahead bs" using ch by (simp add: chain_def)
    consider "i = j" | "i < j" | "j < i" by linarith
    then show False
    proof cases
      case 2
      then show False using sorted_wrt_nth_less [OF so, of i j] ij d(2) by (auto simp: ahead_def)
    next
      case 3
      then have "bend d < unat (fst c)" using sorted_wrt_nth_less [OF so, of j i] ij by (auto simp: ahead_def)
      then show False using c(2,3) d(3) by linarith
    qed (use ij d(3) in simp)
  qed
  then show ?thesis using c by blast
qed


text \<open>Below \<open>2^27\<close> units the argument of \<open>sbrk\<close> is the number of bytes.\<close>

lemma sbrk_arg:
  assumes "unat (nu :: u32) < 2 ^ 27"
  shows "sint (ucast (16 * ucast nu :: u64) :: u32) = 16 * int (unat nu)"
proof -
  let ?w = "ucast (16 * ucast nu :: u64) :: u32"
  have u: "unat ?w = 16 * unat nu"
    using assms unat_units [of nu] by (simp add: unsigned_ucast_eq take_bit_nat_eq_self_iff)
  then show ?thesis using assms sint_small [of ?w] by simp
qed

lemma grow_heap:
  assumes hi: "heap_inv base h fs A" and nu: "nu \<noteq> 0" "unat (brk h) + 16 * unat nu < 2 ^ 36"
  defines "h' \<equiv> set_size (brk h) nu (h\<lparr>brk := brk h + 16 * ucast nu\<rparr>)"
  shows "heap_inv base h' fs (insert (brk h, nu) A)" "(brk h, nu) \<notin> A"
proof -
  have br: "unat (brk h') = unat (brk h) + 16 * unat nu"
    using nu(2) unat_units [of nu] by (simp add: h'_def unat_word_ariths)
  have low: "unat (fst c) < unat (brk h)" "bytes_of c \<inter> bytes_of (brk h, nu) = {}" if "proper (unat (brk h)) c" for c
  proof -
    have "0 < unat (snd c)" using that by (simp add: proper_def unat_gt_0)
    then show "unat (fst c) < unat (brk h)" using that by (simp add: proper_def bend_def)
    show "bytes_of c \<inter> bytes_of (brk h, nu) = {}" using that by (auto simp: bytes_of_def proper_def)
  qed
  show "(brk h, nu) \<notin> A" using low(1) heap_invD(7) [OF hi] by fastforce
  have ne: "fst c \<noteq> brk h" if "c \<in> insert (base, 0) (set fs) \<union> A" for c
    using that low(1) [of c] heap_invD(2,6) [OF hi] heap_invD(7) [OF hi, of c] by auto
  have ch: "chain h' ((base, 0) # fs)"
  proof -
    have "base \<noteq> brk h" "\<And>c. c \<in> set fs \<Longrightarrow> fst c \<noteq> brk h" using ne [of "(base, 0)"] ne by simp_all
    then show ?thesis using heap_invD(4) [OF hi] by (simp add: chain_def h'_def)
  qed
  have pr: "proper (unat (brk h')) c" if "proper (unat (brk h)) c" for c
    using that br by (simp add: proper_def)
  have bn: "proper (unat (brk h')) (brk h, nu)" using nu(1) br by (simp add: proper_def bend_def)
  have dis: "bytes_of (brk h, nu) \<inter> all_bytes (set fs) = {}" using low(2) heap_invD(6) [OF hi] by (fastforce simp: all_bytes_def)
  have sz: "hsize h' (fst c) = snd c" if "c \<in> insert (brk h, nu) A" for c
    using that heap_invD(9) [OF hi, of c] ne [of c] by (auto simp: h'_def)
  have lt: "base < brk h'" "unat (brk h') < 2 ^ 36" using heap_invD(2) [OF hi] br nu(2) by (simp_all add: word_less_nat_alt)
  have fp: "freep h' = freep h" by (simp add: h'_def)
  have pa: "bytes_of c \<inter> bytes_of d = {}" if "c \<in> insert (brk h, nu) A" "d \<in> insert (brk h, nu) A" "c \<noteq> d" for c d
    using that low(2) [of c] low(2) [of d] heap_invD(7) [OF hi, of c] heap_invD(7) [OF hi, of d] heap_invD(11) [OF hi, of c d]
    by (auto simp: Int_commute)
  show "heap_inv base h' fs (insert (brk h, nu) A)"
    unfolding heap_inv_def
    using heap_invD(1,2,5,6,7,8,10) [OF hi] ch pr bn dis sz lt pa by (simp add: fp)
qed

lemma freep_nonzero: "heap_inv base h fs A \<Longrightarrow> freep h \<noteq> 0"
  using heap_invD(1,4,5) [of base h fs A] by (auto simp: chain_def ahead_def)

lemma morecore_keeps:
  assumes hi: "heap_inv base h fs A" and n: "n \<noteq> 0" "unat n < 2 ^ 27" and g: "\<And>b m. grow b m \<Longrightarrow> unat b + nat m < 2 ^ 36"
    and nu: "nu = (if n < 4096 then 4096 else n)"
  shows "\<not> grow (brk h) (16 * int (unat nu)) \<Longrightarrow> morecore grow n h = Some (0, h)"
    and "grow (brk h) (16 * int (unat nu)) \<Longrightarrow> \<exists>h' fs'. morecore grow n h = Some (freep h', h') \<and> heap_inv base h' fs' A
        \<and> (\<exists>c \<in> set fs'. n \<le> snd c)"
proof -
  have u: "unat nu < 2 ^ 27" "nu \<noteq> 0" "n \<le> nu" using n nu by (auto simp: not_less)
  note arg = sbrk_arg [OF u(1)]
  show "morecore grow n h = Some (0, h)" if "\<not> grow (brk h) (16 * int (unat nu))"
    using that arg by (simp add: morecore_def sbrk_def Let_def flip: nu)
  assume gr: "grow (brk h) (16 * int (unat nu))"
  let ?h = "set_size (brk h) nu (h\<lparr>brk := brk h + 16 * ucast nu\<rparr>)"
  have b: "unat (brk h) + 16 * unat nu < 2 ^ 36" using g [OF gr] by (simp add: nat_mult_distrib)
  have oi: "of_int (16 * int (unat nu)) = (16 * ucast nu :: u64)"
    by (simp only: of_int_mult of_int_numeral of_nat_unat) (simp only: ucast_eq)
  have err: "brk h \<noteq> SBRK_ERROR" using heap_invD(3) [OF hi] by auto
  note gh = grow_heap [OF hi u(2) b]
  obtain h' fs' where f: "free (brk h + 16) ?h = Some h'" "heap_inv base h' fs' A" "all_bytes (set fs') = all_bytes (set fs) \<union> bytes_of (brk h, nu)"
    using free_keeps_heap [OF gh(1), of "brk h" nu] gh(2) by auto
  have "{unat (brk h) ..< unat (brk h) + 16 * unat nu} \<subseteq> all_bytes (set ((base, 0) # fs'))"
    using f(3) by (auto simp: bytes_of_def bend_def)
  then obtain c where c: "c \<in> set ((base, 0) # fs')" "unat (fst c) \<le> unat (brk h)" "unat (brk h) + 16 * unat nu \<le> bend c"
    using block_covers [OF heap_invD(4) [OF f(2)], of "unat (brk h)" "16 * unat nu"] u(2) unat_gt_0 by (metis mult_pos_pos zero_less_numeral)
  then have le: "unat nu \<le> unat (snd c)" by (simp add: bend_def)
  then have "c \<in> set fs'" using c(1) u(2) unat_eq_zero [of nu] by auto
  moreover have "n \<le> snd c" using le u(3) by (simp add: word_le_nat_alt)
  moreover have "morecore grow n h = Some (freep h', h')"
    using gr arg f(1) err oi by (simp add: morecore_def sbrk_def Let_def flip: nu)
  ultimately show "\<exists>h' fs'. morecore grow n h = Some (freep h', h') \<and> heap_inv base h' fs' A \<and> (\<exists>c \<in> set fs'. n \<le> snd c)"
    using f(2) by blast
qed

lemma malloc_loop_keeps:
  assumes hi: "heap_inv base h fs A" and n: "n \<noteq> 0" "unat n < 2 ^ 27" and g: "\<And>b m. grow b m \<Longrightarrow> unat b + nat m < 2 ^ 36"
    and nu: "nu = (if n < 4096 then 4096 else n)"
  shows "(malloc_loop grow n (freep h) (hptr h (freep h)) h = Some (0, h) \<and> (\<forall>c \<in> set fs. snd c < n) \<and> \<not> grow (brk h) (16 * int (unat nu)))
     \<or> (\<exists>x h' fs'. malloc_loop grow n (freep h) (hptr h (freep h)) h = Some (x + 16, h')
         \<and> heap_inv base h' fs' (insert (x, n) A) \<and> (x, n) \<notin> A)"
proof -
  have take: "\<exists>x h' fs'. malloc_loop grow n (freep h0) (hptr h0 (freep h0)) h0 = Some (x + 16, h') \<and> heap_inv base h' fs' (insert (x, n) A) \<and> (x, n) \<notin> A"
    if "heap_inv base h0 gs A" "q \<in> insert base (fst ` set gs)" "c \<in> set gs" "n \<le> snd c" "hptr h0 q = fst c"
      "malloc_loop grow n (freep h0) (hptr h0 (freep h0)) h0 = Some (take_block n q (fst c) h0)" for h0 gs q c
    using take_block_keeps [OF that(1) n(1) that(4,3,2,5)] that(6) by auto
  from malloc_search [OF hi n(1), of grow] show ?thesis
  proof
    assume "\<exists>q \<in> insert base (fst ` set fs). \<exists>c \<in> set fs. n \<le> snd c \<and> hptr h q = fst c
            \<and> malloc_loop grow n (freep h) (hptr h (freep h)) h = Some (take_block n q (fst c) h)"
    then show ?thesis using take [OF hi] by blast
  next
    assume a: "(\<forall>c \<in> set fs. snd c < n) \<and> malloc_loop grow n (freep h) (hptr h (freep h)) h
           = Option.bind (morecore grow n h) (\<lambda>(q, h1). if q = 0 then Some (0, h1) else malloc_loop grow n q (hptr h1 q) h1)"
    show ?thesis
    proof (cases "grow (brk h) (16 * int (unat nu))")
      case False
      then show ?thesis using a morecore_keeps(1) [OF hi n g nu] by simp
    next
      case True
      then obtain h1 gs c where m: "morecore grow n h = Some (freep h1, h1)" "heap_inv base h1 gs A" "c \<in> set gs" "n \<le> snd c"
        using morecore_keeps(2) [OF hi n g nu] by blast
      have e: "malloc_loop grow n (freep h) (hptr h (freep h)) h = malloc_loop grow n (freep h1) (hptr h1 (freep h1)) h1"
        using a m(1) freep_nonzero [OF m(2)] by simp
      show ?thesis
        using malloc_search [OF m(2) n(1), of grow] m(3,4) take [OF m(2)] unfolding e by (meson not_le)
    qed
  qed
qed


lemma units_spec:
  assumes "unat nbytes < 2 ^ 31 - 32"
  shows "unat (units nbytes) = (unat nbytes + 15) div 16 + 1"
proof -
  have "unat (ucast nbytes :: u64) = unat nbytes"
    using assms by (simp add: unsigned_ucast_eq take_bit_nat_eq_self_iff)
  then have "unat (ucast nbytes + 16 - 1 :: u64) = unat nbytes + 15"
    using assms by (simp add: unat_word_ariths)
  then have "unat ((ucast nbytes + 16 - 1) div 16 + 1 :: u64) = (unat nbytes + 15) div 16 + 1"
    using assms by (simp add: unat_word_ariths unat_div)
  moreover have "(unat nbytes + 15) div 16 + 1 < 2 ^ 32" using assms by (simp add: div_less_iff_less_mult)
  ultimately show ?thesis by (simp add: units_def unsigned_ucast_eq take_bit_nat_eq_self_iff)
qed

section \<open>The allocator's contract\<close>

text \<open>
  \<open>A\<close> are the blocks in use. Before the first \<open>malloc\<close>, \<open>freep\<close> is null and there are none.
\<close>

definition heap_ok :: "u64 \<Rightarrow> uheap \<Rightarrow> (u64 \<times> u32) set \<Rightarrow> bool" where
  "heap_ok base h A \<longleftrightarrow> (\<exists>fs. heap_inv base h fs A)
     \<or> freep h = 0 \<and> A = {} \<and> base \<noteq> 0 \<and> base < brk h \<and> unat (brk h) < 2 ^ 36"

lemma first_malloc:
  assumes "base \<noteq> 0" "base < brk h" "unat (brk h) < 2 ^ 36"
  shows "heap_inv base ((set_size base 0 (set_ptr base base h))\<lparr>freep := base\<rparr>) [] {}"
  using assms by (simp add: heap_inv_def chain_def bend_def word_less_nat_alt)

text \<open>
  C11: \<open>malloc\<close> of fewer than \<open>2^31 - 32\<close> bytes always returns, in the first call and in any later one. It returns null only
  when \<open>sbrk\<close> refuses to extend the heap; otherwise it returns a block of the heap with room for \<open>nbytes\<close> bytes that
  overlaps no block in use, and the heap stays well-formed: blocks in use and free blocks are apart, and the
  free ones form a circular list in the order of their addresses, no two adjacent. (The program is
  assumed to end below \<open>2^36\<close>.)
\<close>

theorem malloc_allocates:
  assumes "heap_ok base h A" and "unat nbytes < 2 ^ 31 - 32" and "\<forall>b m. grow b m \<longrightarrow> unat b + nat m < 2 ^ 36"
  shows "\<exists>r h'. malloc grow base nbytes h = Some (r, h')
     \<and> heap_ok base h' (if r = 0 then A else insert (r - 16, units nbytes) A)
     \<and> (r = 0 \<longrightarrow> \<not> grow (brk h) (int (16 * max 4096 (unat (units nbytes)))))
     \<and> (r \<noteq> 0 \<longrightarrow> (r - 16, units nbytes) \<notin> A \<and> unat r + unat nbytes \<le> unat (brk h')
         \<and> (\<forall>c \<in> A. bytes_of c \<inter> {unat r ..< unat r + unat nbytes} = {}))"
proof -
  let ?n = "units nbytes" and ?h = "if freep h = 0 then (set_size base 0 (set_ptr base base h))\<lparr>freep := base\<rparr> else h"
  define nu where "nu = (if ?n < 4096 then 4096 else ?n)"
  have br: "brk ?h = brk h" by simp
  obtain fs where hi: "heap_inv base ?h fs A"
  proof (cases "freep h = 0")
    case True
    then show thesis using that [of "[]"] assms(1) first_malloc [of base h] freep_nonzero [of base h _ A] by (auto simp: heap_ok_def)
  qed (use that assms(1) in \<open>auto simp: heap_ok_def\<close>)
  note us = units_spec [OF assms(2)]
  have n: "?n \<noteq> 0" "unat ?n < 2 ^ 27" and room: "unat nbytes + 16 \<le> 16 * unat ?n"
    using us assms(2) by auto
  have g: "\<And>b m. grow b m \<Longrightarrow> unat b + nat m < 2 ^ 36" using assms(3) by blast
  have "unat nu = max 4096 (unat ?n)" by (auto simp: nu_def word_less_nat_alt max_def)
  then have nu: "16 * int (unat nu) = int (16 * max 4096 (unat ?n))" by (simp only: of_nat_mult of_nat_numeral)
  have m: "malloc grow base nbytes h = malloc_loop grow ?n (freep ?h) (hptr ?h (freep ?h)) ?h"
    by (simp add: malloc_def Let_def)
  from malloc_loop_keeps [OF hi n g nu_def] show ?thesis
  proof
    assume "malloc_loop grow ?n (freep ?h) (hptr ?h (freep ?h)) ?h = Some (0, ?h) \<and> (\<forall>c \<in> set fs. snd c < ?n)
      \<and> \<not> grow (brk ?h) (16 * int (unat nu))"
    then show ?thesis using hi br nu unfolding m by (intro exI [of _ 0] exI [of _ ?h]) (auto simp: heap_ok_def)
  next
    assume "\<exists>x h' fs'. malloc_loop grow ?n (freep ?h) (hptr ?h (freep ?h)) ?h = Some (x + 16, h')
         \<and> heap_inv base h' fs' (insert (x, ?n) A) \<and> (x, ?n) \<notin> A"
    then obtain x h' fs' where x: "malloc_loop grow ?n (freep ?h) (hptr ?h (freep ?h)) ?h = Some (x + 16, h')"
      "heap_inv base h' fs' (insert (x, ?n) A)" "(x, ?n) \<notin> A" by blast
    have e: "bend (x, ?n) \<le> unat (brk h')" "unat (brk h') < 2 ^ 36"
      using heap_invD(3) [OF x(2)] heap_invD(7) [OF x(2), of "(x, ?n)"] by (simp_all add: proper_def)
    then have u: "unat (x + 16) = unat x + 16" using room by (simp add: bend_def unat_word_ariths)
    then have nz: "x + 16 \<noteq> 0" by (metis add_eq_0_iff_both_eq_0 unsigned_0 zero_neq_numeral)
    have sub: "{unat (x + 16) ..< unat (x + 16) + unat nbytes} \<subseteq> bytes_of (x, ?n)"
      using u room by (auto simp: bytes_of_def bend_def)
    have "bytes_of c \<inter> {unat (x + 16) ..< unat (x + 16) + unat nbytes} = {}" if "c \<in> A" for c
      using heap_invD(11) [OF x(2), of c "(x, ?n)"] that x(3) sub by blast
    then show ?thesis
      using x e u nz room unfolding m by (intro exI [of _ "x + 16"] exI [of _ h']) (auto simp: heap_ok_def bend_def)
  qed
qed

text \<open>
  C21: \<open>free\<close> of a block in use always returns, although its search has no bound of its own: it finds the block's
  place in the circular list from any position of \<open>freep\<close>. The block's bytes become free, joined with the free
  blocks on both sides, nothing else becomes free, and the heap stays well-formed with the other
  blocks in use as they were.
\<close>

theorem free_releases:
  assumes "heap_inv base h fs A" and "(b, n) \<in> A"
  shows "\<exists>h' fs'. free (b + 16) h = Some h' \<and> heap_inv base h' fs' (A - {(b, n)}) \<and> brk h' = brk h
     \<and> all_bytes (set fs') = all_bytes (set fs) \<union> bytes_of (b, n)"
  using assms by (rule free_keeps_heap)

section \<open>Witnesses\<close>

definition empty_heap :: uheap where
  "empty_heap = \<lparr>hptr = (\<lambda>_. 0), hsize = (\<lambda>_. 0), freep = 0, brk = 0x4000\<rparr>"

text \<open>The first allocation of a program whose heap may grow to 1 MB.\<close>

theorem malloc_allocates_witness:
  "\<exists>r h'. malloc (\<lambda>b m. unat b + nat m < 0x100000) 0x2008 100 empty_heap = Some (r, h') \<and> r \<noteq> 0 \<and> heap_ok 0x2008 h' {(r - 16, 8)}"
proof -
  let ?g = "\<lambda>b m. unat (b :: u64) + nat m < 0x100000"
  have ok: "heap_ok 0x2008 empty_heap {}" by (simp add: heap_ok_def empty_heap_def)
  have u: "units 100 = 8" by (simp add: units_def)
  obtain r h' where r: "malloc ?g 0x2008 100 empty_heap = Some (r, h')" "heap_ok 0x2008 h' (if r = 0 then {} else {(r - 16, 8)})"
    "r = 0 \<longrightarrow> \<not> ?g (brk empty_heap) (int (16 * max 4096 (unat (8 :: u32))))"
    using malloc_allocates [OF ok, of 100 ?g, unfolded u] by auto
  then have "r \<noteq> 0" by (auto simp: empty_heap_def)
  then show ?thesis using r by auto
qed

text \<open>One block of two units, in use.\<close>

definition one_block :: uheap where
  "one_block = \<lparr>hptr = (\<lambda>_. 0x2008), hsize = (\<lambda>a. if a = 0x4000 then 2 else 0), freep = 0x2008, brk = 0x5000\<rparr>"

theorem free_releases_witness:
  "\<exists>h' fs'. free 0x4010 one_block = Some h' \<and> heap_inv 0x2008 h' fs' {} \<and> all_bytes (set fs') = {0x4000 ..< 0x4020}"
proof -
  have "heap_inv 0x2008 one_block [] {(0x4000, 2)}"
    by (simp add: heap_inv_def chain_def bend_def proper_def one_block_def)
  from free_releases [OF this, of "0x4000" 2] show ?thesis
    by (auto simp: bytes_of_def bend_def)
qed

end
