(* ===== verification/Spec2Isabelle.thy ===== *)
theory Spec2Isabelle
  imports Bonus Grep Logspec Pipespec Printf Umalloc
begin

text \<open>
  Verification of an xv6-riscv kernel with demand paging and per-process swap files.

  \<^bold>\<open>The program.\<close> The sources are \<open>kernel/\<close>, \<open>user/\<close> and \<open>mkfs/\<close> under \<open>src/DemandPaging&Swapping\<close>. A process
  starts with an empty page table: \<open>kexec\<close> only records where its segments are in the executable. The
  first access to a page traps into \<open>usertrap\<close>, which classifies the address (guard page, swapped page, text or data,
  stack, heap), gets a frame from \<open>try_kalloc_or_replace\<close>, fills it (from the executable, from the swap file, or with
  zeros) and maps it. When \<open>kalloc\<close> has no page left, \<open>try_kalloc_or_replace\<close> takes one from the same process: the oldest
  resident page of its metadata table, which it writes to the process's swap file when it is marked dirty and drops
  otherwise. The kernel's own accesses to user memory (\<open>copyin\<close>, \<open>copyout\<close>, \<open>copyinstr\<close>) fault through \<open>vmfault\<close>. The swap
  file is an ordinary file, so all this rests on the file system, its redo log and the buffer cache. \<open>vm_bonus.c\<close> is an
  alternative to \<open>vm.c\<close> with another victim selection.

  \<^bold>\<open>The model.\<close> C functions are HOL functions on explicit state. A panic, a wait that cannot end in the model and an
  access that C leaves undefined are \<open>None\<close>; error returns are values. Machine integers are words of their width. Physical
  memory is a function from 64-bit addresses to bytes, and everything that lives in pages (free list, page tables,
  trapframes, user memory) lives there. \<open>kernel\<close> (\<open>Kstate\<close>) is the record of memory, file system, file table, pipes,
  process table, console and the log of the messages printed. Loops are structural or well-founded recursion;
  a loop over memory that may not end (the string routines of \<open>Ulib\<close>) is a \<open>partial_function (option)\<close>. No fuel is used.

  \<^bold>\<open>Theories, in the order of the layers.\<close>
  \<^item> \<open>Prelude\<close>: integer types, \<open>first_idx\<close> (the search loop of every fixed-size table), \<open>fold_opt\<close>, generic lemmas.
  \<^item> \<open>Riscv\<close> (\<open>riscv.h\<close>, \<open>memlayout.h\<close>, \<open>param.h\<close>): page and PTE macros, 64-bit loads and stores, alignment.
  \<^item> \<open>Cstring\<close> (\<open>string.c\<close>): every routine as its loop; \<open>memmove\<close> is right for overlapping ranges.
  \<^item> \<open>Kalloc\<close> (\<open>kalloc.c\<close>): the free list threaded through the free pages; the interface \<open>page_allocator\<close>, with its
    interpretation on \<open>kalloc\<close> and \<open>kfree\<close>; \<open>kinit\<close>, \<open>kalloc\<close> and their round trip.
  \<^item> \<open>Pagetable\<close> (the first half of \<open>vm.c\<close>, \<open>proc_mapstacks\<close>), \<open>Sv39\<close> (tables as a tree and as a map), \<open>Addrspace\<close>, \<open>Unmap\<close>, \<open>Vmspec\<close>:
    what \<open>mappages\<close> and \<open>uvmunmap\<close> do to the whole map, \<open>walkaddr\<close>; the interface \<open>address_space\<close>.
  \<^item> \<open>Memstat\<close> (\<open>memstat.h\<close>, metadata and victim selection of \<open>vm.c\<close> and \<open>vm_bonus.c\<close>): both policies choose what they
    claim (interface \<open>replacement_policy\<close>), and the table is a finite map.
  \<^item> \<open>Fs\<close> (\<open>fs.c\<close>, \<open>fs.h\<close>), \<open>Fsinv\<close>, \<open>Fsrw\<close>: the file system on a logical disk of blocks; the contents of a file as bytes
    by offset; \<open>writei\<close> and \<open>readi\<close> (interface \<open>byte_sink\<close>).
  \<^item> \<open>Locks\<close> (\<open>spinlock.c\<close>, \<open>sleeplock.c\<close>): interleavings of the atomic steps of several CPUs as an inductive relation.
  \<^item> \<open>Bio\<close> (\<open>bio.c\<close>), \<open>Log\<close> (\<open>log.c\<close>), \<open>Logspec\<close>: the cache and the redo log over a disk in which a crash may come between
    any two block writes; crash atomicity, durability, and the refinement of the logical disk of \<open>Fs\<close>.
  \<^item> \<open>Kstate\<close>, \<open>Filetab\<close> (\<open>file.c\<close>, part of \<open>pipe.c\<close>), \<open>Swap\<close> (\<open>swap.c\<close>), \<open>Swapspec\<close>, \<open>Swapprops\<close>: the swap file as a store of pages
    (interface \<open>page_store\<close>); round trip, swap-in, capacity.
  \<^item> \<open>Vmfault\<close> (the second half of \<open>vm.c\<close>, \<open>vm_bonus.c\<close>), \<open>Frame\<close> (what it leaves alone, interface \<open>frame_supplier\<close>), \<open>Userspace\<close> (user
    pages), \<open>Pager\<close> (interface \<open>pager\<close>, interpreted on both kernels): \<open>contents k va\<close> is what a page holds, in memory or
    in the swap file; allocation with replacement and \<open>vmfault\<close> keep it.
  \<^item> \<open>Console\<close> (\<open>console.c\<close>), \<open>Fileops\<close> (\<open>pipe.c\<close>, \<open>file.c\<close>), \<open>Ring\<close>, \<open>Usercopy\<close>, \<open>Pipespec\<close>: ring buffers, \<open>copyin\<close> and
    \<open>copyout\<close> as transfers of bytes, pipes as bounded queues.
  \<^item> \<open>Proc\<close> (\<open>proc.c\<close>), \<open>Exec\<close> (\<open>exec.c\<close>), \<open>Syscall\<close> (\<open>syscall.c\<close>, \<open>sysfile.c\<close>, \<open>sysproc.c\<close>), \<open>Trap\<close> (\<open>trap.c\<close>), \<open>Faultspec\<close>, \<open>Bonus\<close>:
    processes, system calls and traps; what the page-fault handler does on every kind of fault; a page it can lose;
    when the two kernels agree.
  \<^item> \<open>Ulib\<close> (\<open>user/ulib.c\<close>), \<open>Umalloc\<close> (\<open>user/umalloc.c\<close>), \<open>Printf\<close> (\<open>kernel/printf.c\<close>, \<open>user/printf.c\<close>), \<open>Grep\<close> (\<open>user/grep.c\<close>):
    the user library and \<open>grep\<close>; the heap of \<open>malloc\<close> and \<open>free\<close>, printed numbers, the language a pattern denotes.

  \<^bold>\<open>Abstractions.\<close> One system call or trap runs at a time on \<open>kernel\<close>: a sleeping call returns \<open>Asleep\<close> with its
  progress, and is resumed by calling it again. Interleaving is modelled where the code is about it, in \<open>Locks\<close>; a sleep lock in
  \<open>Fs\<close> is its flag. The disk of \<open>Fs\<close> is the logical disk: that the log and the cache provide it is
  \<open>Logspec\<close>. A disk transfer is one block, complete or not begun. Pipes are records in a map from the address of their
  page. A user program's \<open>sbrk\<close> and the reads of \<open>grep\<close> are parameters.

  \<^bold>\<open>Bounds.\<close> The sizes are the code's: 1024 swap slots, 128 metadata entries, 30 log blocks and buffers, 512-byte pipes, 20
  characters in \<open>printint\<close>, 1024 in \<open>grep\<close>. The invariants of memory need RAM pages below \<open>PHYSTOP\<close> and user
  addresses below \<open>MAXVA\<close>; the metadata keeps 32 bits of an address. The heap of \<open>Umalloc\<close> lies below \<open>2^36\<close>, so that no block
  has more units than its 32-bit size field holds.

  \<^bold>\<open>Not modelled.\<close> Assembly (\<open>entry.S\<close>, \<open>kernelvec.S\<close>, \<open>trampoline.S\<close>, \<open>swtch.S\<close>) and the code that only makes sense with it:
  \<open>scheduler\<close>, \<open>sched\<close> and \<open>forkret\<close> switch stacks, which the model does not have. Device registers: \<open>start.c\<close>, \<open>plic.c\<close>, \<open>virtio_disk.c\<close>
  and the UART set-up are sequences of volatile accesses whose meaning is the hardware's; \<open>main.c\<close> calls the
  initialisers. CSR accessors of \<open>riscv.h\<close> are inline assembly. \<open>mkfs.c\<close> runs on the host. The shell, the small utilities and
  the test programs (\<open>usertests.c\<close>, \<open>grind.c\<close>, \<open>test_*.c\<close> and others) are clients of the system calls, without
  state the kernel depends on.
\<close>

end
